(* ===== verification/Snail_Prelude.thy ===== *)
theory Snail_Prelude
  imports Main "HOL-Library.Word"
begin

text \<open>
  The ground every component stands on: the outcome of running a piece of C (a value, or
  the fault that stops the program), the C integer conversions, checked access to a block
  of memory, the functions of the C library the sources call, and the automation
  (\<open>cr_simps\<close>, \<open>mem_simps\<close>) that carries the component proofs.
\<close>

section \<open>Outcomes of C code\<close>

text \<open>
  What ends a run: a null dereference, an access outside a block, a failed \<open>assert\<close>,
  an overflow of a signed integer, a use of a released object, a read of a variable that was
  never written, a recursion that does not end, a loop that does not end, and a Lua error
  raised where no protected call catches it.
\<close>

datatype fault = NullDeref | OutOfBounds | AssertFail | SignedOverflow | UseAfterFree | Uninitialised
  | StackOverflow | Diverges | LuaPanic

datatype 'a cr = Ok 'a | Flt fault

named_theorems cr_simps "evaluation of the fault monad"
named_theorems mem_simps "evaluation of checked memory accesses"

fun cbind :: "'a cr \<Rightarrow> ('a \<Rightarrow> 'b cr) \<Rightarrow> 'b cr" where
  "cbind (Ok x) f = f x"
| "cbind (Flt e) f = Flt e"

fun runs :: "'a cr \<Rightarrow> ('a \<Rightarrow> bool) \<Rightarrow> bool" where
  "runs (Ok x) P = P x"
| "runs (Flt e) P = False"

fun faults :: "'a cr \<Rightarrow> fault \<Rightarrow> bool" where
  "faults (Ok x) e = False"
| "faults (Flt f) e = (f = e)"

fun deref :: "'a option \<Rightarrow> 'a cr" where
  "deref None = Flt NullDeref"
| "deref (Some x) = Ok x"

definition c_assert :: "bool \<Rightarrow> unit cr" where
  "c_assert b = (if b then Ok () else Flt AssertFail)"

lemma cbind_cong [fundef_cong]:
  assumes "m = m'" and "\<And>x. m' = Ok x \<Longrightarrow> f x = g x"
  shows "cbind m f = cbind m' g"
  using assms by (cases m') auto

lemma cbind_eq_Ok [cr_simps]: "cbind m f = Ok y \<longleftrightarrow> (\<exists>x. m = Ok x \<and> f x = Ok y)"
  by (cases m) auto

lemma cbind_assoc: "cbind (cbind m f) g = cbind m (\<lambda>x. cbind (f x) g)"
  by (cases m) auto

lemma runs_cbind [cr_simps]: "runs (cbind m f) P \<longleftrightarrow> runs m (\<lambda>x. runs (f x) P)"
  by (cases m) auto

lemma runs_iff: "runs m P \<longleftrightarrow> (\<exists>x. m = Ok x \<and> P x)"
  by (cases m) auto

lemma faults_iff: "faults m e \<longleftrightarrow> m = Flt e"
  by (cases m) auto

lemma runs_mono: "runs m P \<Longrightarrow> (\<And>x. P x \<Longrightarrow> Q x) \<Longrightarrow> runs m Q"
  by (cases m) auto

lemma runs_conj: "runs m P \<Longrightarrow> runs m Q \<Longrightarrow> runs m (\<lambda>x. P x \<and> Q x)"
  by (cases m) auto

lemma runsE:
  assumes "runs m P"
  obtains x where "m = Ok x" and "P x"
  using assms by (cases m) auto

text \<open>Partial correctness: whatever value the code returns satisfies \<open>P\<close>.\<close>

definition wlp :: "'a cr \<Rightarrow> ('a \<Rightarrow> bool) \<Rightarrow> bool" where
  "wlp m P \<longleftrightarrow> (\<forall>x. m = Ok x \<longrightarrow> P x)"

lemma wlp_simps [simp]:
  "wlp (Ok x) P \<longleftrightarrow> P x"
  "wlp (Flt e) P"
  "wlp (if b then m else m') P \<longleftrightarrow> (if b then wlp m P else wlp m' P)"
  by (auto simp: wlp_def)

lemma wlp_cbind [simp]: "wlp (cbind m f) P \<longleftrightarrow> wlp m (\<lambda>x. wlp (f x) P)"
  by (cases m) (auto simp: wlp_def)

lemma wlp_True [simp]: "wlp m (\<lambda>x. True)"
  by (simp add: wlp_def)

lemma wlpI: "(\<And>x. m = Ok x \<Longrightarrow> P x) \<Longrightarrow> wlp m P"
  by (simp add: wlp_def)

lemma wlpD: "wlp m P \<Longrightarrow> m = Ok x \<Longrightarrow> P x"
  by (simp add: wlp_def)

lemma wlp_mono: "wlp m P \<Longrightarrow> (\<And>x. P x \<Longrightarrow> Q x) \<Longrightarrow> wlp m Q"
  by (simp add: wlp_def)

lemma c_assert_simps [simp]: "c_assert True = Ok ()" "c_assert False = Flt AssertFail"
  by (simp_all add: c_assert_def)

lemma c_assert_eq_Ok [cr_simps]: "c_assert b = Ok u \<longleftrightarrow> b"
  by (simp add: c_assert_def)

lemma deref_eq_Ok [cr_simps]: "deref p = Ok x \<longleftrightarrow> p = Some x"
  by (cases p) auto

section \<open>C integers\<close>

text \<open>
  Values of C integer types are \<open>int\<close>s; a conversion to a type wraps as the platform
  (LP64) does: \<open>int\<close> has 32 bits, \<open>size_t\<close> and \<open>unsigned long\<close> 64 bits,
  \<open>long\<close> and \<open>long long\<close> 64 bits.
\<close>

definition c_int :: "int \<Rightarrow> int" where
  "c_int x = (x + 2 ^ 31) mod 2 ^ 32 - 2 ^ 31"

definition c_size :: "int \<Rightarrow> int" where
  "c_size x = x mod 2 ^ 64"

definition INT_MIN :: int where "INT_MIN = - (2 ^ 31)"
definition INT_MAX :: int where "INT_MAX = 2 ^ 31 - 1"
definition LLONG_MIN :: int where "LLONG_MIN = - (2 ^ 63)"
definition LLONG_MAX :: int where "LLONG_MAX = 2 ^ 63 - 1"

text \<open>Arithmetic on a signed type is undefined when the result does not fit.\<close>

definition s_int :: "int \<Rightarrow> int cr" where
  "s_int x = (if INT_MIN \<le> x \<and> x \<le> INT_MAX then Ok x else Flt SignedOverflow)"

definition s_llong :: "int \<Rightarrow> int cr" where
  "s_llong x = (if LLONG_MIN \<le> x \<and> x \<le> LLONG_MAX then Ok x else Flt SignedOverflow)"

lemma c_int_id: "- (2 ^ 31) \<le> x \<Longrightarrow> x < 2 ^ 31 \<Longrightarrow> c_int x = x"
  by (simp add: c_int_def)

lemma c_size_id: "0 \<le> x \<Longrightarrow> x < 2 ^ 64 \<Longrightarrow> c_size x = x"
  by (simp add: c_size_def)

lemma c_int_c_size: "c_int (c_size x) = c_int x"
proof -
  have "(x mod 2 ^ 64 + 2 ^ 31) mod 2 ^ 32 = ((x mod 2 ^ 64) mod 2 ^ 32 + 2 ^ 31) mod (2 ^ 32 :: int)"
    by (simp add: mod_simps)
  also have "(x mod 2 ^ 64) mod 2 ^ 32 = x mod (2 ^ 32 :: int)"
    by (rule mod_mod_cancel) (simp add: le_imp_power_dvd)
  finally show ?thesis
    by (simp add: c_int_def c_size_def mod_simps)
qed

lemma c_int_range: "- (2 ^ 31) \<le> c_int x" "c_int x < 2 ^ 31"
  by (simp_all add: c_int_def) 

lemma c_size_range: "0 \<le> c_size x" "c_size x < 2 ^ 64"
  by (simp_all add: c_size_def)

lemma s_int_ok: "- (2 ^ 31) \<le> x \<Longrightarrow> x < 2 ^ 31 \<Longrightarrow> s_int x = Ok x"
  by (simp add: s_int_def INT_MIN_def INT_MAX_def)

lemma s_llong_ok: "- (2 ^ 63) \<le> x \<Longrightarrow> x < 2 ^ 63 \<Longrightarrow> s_llong x = Ok x"
  by (simp add: s_llong_def LLONG_MIN_def LLONG_MAX_def)

lemmas c_ranges = c_int_id c_size_id s_int_ok s_llong_ok

section \<open>Blocks of memory\<close>

text \<open>
  A block is the list of its bytes. Every access is checked against the block; offsets are
  \<open>int\<close>s, so that a negative one is an out-of-bounds access as well.
\<close>

type_synonym bytes = "char list"

abbreviation NUL :: char where "NUL \<equiv> CHR 0x00"
abbreviation CR :: char where "CR \<equiv> CHR 0x0D"
abbreviation LF :: char where "LF \<equiv> CHR 0x0A"

definition crlf :: bytes where "crlf = [CR, LF]"

definition mem_get :: "bytes \<Rightarrow> int \<Rightarrow> char cr" where
  "mem_get b i = (if 0 \<le> i \<and> i < int (length b) then Ok (b ! nat i) else Flt OutOfBounds)"

definition mem_read :: "bytes \<Rightarrow> int \<Rightarrow> int \<Rightarrow> bytes cr" where
  "mem_read b off n =
     (if 0 \<le> off \<and> 0 \<le> n \<and> off + n \<le> int (length b)
      then Ok (take (nat n) (drop (nat off) b)) else Flt OutOfBounds)"

definition mem_write :: "bytes \<Rightarrow> int \<Rightarrow> bytes \<Rightarrow> bytes cr" where
  "mem_write b off xs =
     (if 0 \<le> off \<and> off + int (length xs) \<le> int (length b)
      then Ok (take (nat off) b @ xs @ drop (nat off + length xs) b) else Flt OutOfBounds)"

lemma mem_get_ok: "i < length b \<Longrightarrow> mem_get b (int i) = Ok (b ! i)"
  by (simp add: mem_get_def)

lemma mem_read_ok:
  "off + n \<le> length b \<Longrightarrow> mem_read b (int off) (int n) = Ok (take n (drop off b))"
  by (simp add: mem_read_def)

lemma mem_write_ok:
  "off + length xs \<le> length b \<Longrightarrow>
   mem_write b (int off) xs = Ok (take off b @ xs @ drop (off + length xs) b)"
  by (simp add: mem_write_def)

lemmas mem_ok [mem_simps] = mem_get_ok mem_read_ok mem_write_ok

text \<open>
  The allocator is outside the sources. Its part in a run is an argument: which requests
  (by size in bytes) it grants, and what the bytes of a fresh block hold.
\<close>

record cenv =
  alloc_ok :: "nat \<Rightarrow> bool"
  junk :: "nat \<Rightarrow> char"

definition grants_all :: "cenv \<Rightarrow> bool" where
  "grants_all env \<longleftrightarrow> alloc_ok env = (\<lambda>_. True)"

lemma grants_allD [simp]: "grants_all env \<Longrightarrow> alloc_ok env n"
  by (simp add: grants_all_def)

definition libc_env :: cenv where
  "libc_env = \<lparr>alloc_ok = (\<lambda>_. True), junk = (\<lambda>_. CHR 0xAA)\<rparr>"

lemma grants_all_libc_env [simp]: "grants_all libc_env"
  by (simp add: grants_all_def libc_env_def)

section \<open>Characters and numbers of the C library\<close>

text \<open>The \<open>ctype\<close> functions in the C locale; a byte from 128 on is in no class.\<close>

definition c_isprint :: "char \<Rightarrow> bool" where
  "c_isprint c \<longleftrightarrow> 32 \<le> (of_char c :: nat) \<and> (of_char c :: nat) < 127"

definition c_isspace :: "char \<Rightarrow> bool" where
  "c_isspace c \<longleftrightarrow> (of_char c :: nat) = 32 \<or> 9 \<le> (of_char c :: nat) \<and> (of_char c :: nat) \<le> 13"

definition c_tolower :: "char \<Rightarrow> char" where
  "c_tolower c = (let n = (of_char c :: nat) in if 65 \<le> n \<and> n \<le> 90 then char_of (n + 32) else c)"

definition c_toupper :: "char \<Rightarrow> char" where
  "c_toupper c = (let n = (of_char c :: nat) in if 97 \<le> n \<and> n \<le> 122 then char_of (n - 32) else c)"

text \<open>Decimal (\<open>%d\<close>, \<open>%zu\<close>) and two-digit hexadecimal (\<open>%02x\<close>) conversions.\<close>

definition digit_char :: "nat \<Rightarrow> char" where
  "digit_char d = char_of (48 + d)"

fun nat_dec :: "nat \<Rightarrow> bytes" where
  "nat_dec n = (if n < 10 then [digit_char n] else nat_dec (n div 10) @ [digit_char (n mod 10)])"

declare nat_dec.simps [simp del]

definition int_dec :: "int \<Rightarrow> bytes" where
  "int_dec i = (if i < 0 then CHR ''-'' # nat_dec (nat (- i)) else nat_dec (nat i))"

definition hex_char :: "nat \<Rightarrow> char" where
  "hex_char d = (if d < 10 then char_of (48 + d) else char_of (87 + d))"

definition hex02 :: "char \<Rightarrow> bytes" where
  "hex02 c = (let n = (of_char c :: nat) in [hex_char (n div 16), hex_char (n mod 16)])"

lemma of_char_lt_256 [simp]: "(of_char c :: nat) < 256"
proof -
  have "(of_char c :: nat) mod 256 < 256" by simp
  then show ?thesis by simp
qed

lemma of_char_digit [simp]: "d < 10 \<Longrightarrow> (of_char (digit_char d) :: nat) = 48 + d"
  by (simp add: digit_char_def)

lemma nat_dec_small: "n < 10 \<Longrightarrow> nat_dec n = [digit_char n]"
  by (simp add: nat_dec.simps)

lemma nat_dec_step: "10 \<le> n \<Longrightarrow> nat_dec n = nat_dec (n div 10) @ [digit_char (n mod 10)]"
  by (simp add: nat_dec.simps [of n])

lemma nat_dec_nonempty [simp]: "nat_dec n \<noteq> []"
  by (subst nat_dec.simps) simp

lemma nat_dec_digits: "c \<in> set (nat_dec n) \<Longrightarrow> \<exists>d<10. c = digit_char d"
proof (induction n rule: nat_dec.induct)
  case (1 n)
  show ?case
  proof (cases "n < 10")
    case True
    with "1.prems" show ?thesis by (auto simp: nat_dec_small)
  next
    case False
    with "1.prems" have "c \<in> set (nat_dec (n div 10)) \<or> c = digit_char (n mod 10)"
      by (auto simp: nat_dec_step)
    then show ?thesis
    proof
      assume "c \<in> set (nat_dec (n div 10))"
      with "1.IH" False show ?thesis by simp
    next
      assume "c = digit_char (n mod 10)"
      moreover have "n mod 10 < 10" by simp
      ultimately show ?thesis by blast
    qed
  qed
qed

lemma length_nat_dec: "v < 10 ^ Suc n \<Longrightarrow> length (nat_dec v) \<le> Suc n"
proof (induction n arbitrary: v)
  case 0
  then show ?case by (simp add: nat_dec_small)
next
  case (Suc n)
  show ?case
  proof (cases "v < 10")
    case True
    then show ?thesis by (simp add: nat_dec_small)
  next
    case False
    with Suc.prems have "v div 10 < 10 ^ Suc n" by auto
    with Suc.IH False show ?thesis by (simp add: nat_dec_step)
  qed
qed

end
