(* ===== verification/Sds_Core.thy ===== *)
theory Sds_Core
  imports Snail_Prelude
begin

text \<open>
  \<open>src/src/sds.h\<close> and the first half of \<open>src/src/sds.c\<close>: the header, creation,
  growth, append and copy of dynamic strings, over the memory block each string lives in.
  \<open>sds_rep\<close> is the abstraction: a string value stands for a list of bytes. The lemmas show
  that every operation respects it, inside the block, or returns NULL when the allocator does.
\<close>

section \<open>Header and block\<close>

record sdshdr =
  sh_len :: int
  sh_free :: int
  sh_buf :: bytes

text \<open>A string pointer: NULL, or the header with the block that follows it.\<close>

type_synonym sds = "sdshdr option"

definition SDSHDR_SIZE :: int where "SDSHDR_SIZE = 8"
definition SDS_MAX_PREALLOC :: int where "SDS_MAX_PREALLOC = 1024 * 1024"

definition c_malloc :: "cenv \<Rightarrow> int \<Rightarrow> bytes option" where
  "c_malloc env n = (if alloc_ok env (nat n) then Some (map (junk env) [0..<nat n]) else None)"

definition c_calloc :: "cenv \<Rightarrow> int \<Rightarrow> bytes option" where
  "c_calloc env n = (if alloc_ok env (nat n) then Some (replicate (nat n) NUL) else None)"

text \<open>\<open>realloc\<close> of a block of header and buffer to \<open>n\<close> bytes: the buffer part of the result.\<close>

definition sh_realloc :: "cenv \<Rightarrow> bytes \<Rightarrow> int \<Rightarrow> bytes option" where
  "sh_realloc env b n =
     (if alloc_ok env (nat n)
      then (let m = nat (n - SDSHDR_SIZE) in Some (take m b @ map (junk env) [length b..<m]))
      else None)"

definition sdslen :: "sdshdr \<Rightarrow> int" where
  "sdslen sh = c_size (sh_len sh)"

definition sdsavail :: "sdshdr \<Rightarrow> int" where
  "sdsavail sh = c_size (sh_free sh)"

section \<open>Creation\<close>

definition sdsnewlen :: "cenv \<Rightarrow> bytes option \<Rightarrow> int \<Rightarrow> sds cr" where
  "sdsnewlen env init initlen =
     (let total = c_size (SDSHDR_SIZE + initlen + 1) in
      case (if init \<noteq> None then c_malloc env total else c_calloc env total) of
        None \<Rightarrow> Ok None
      | Some blk \<Rightarrow>
          (let b = drop (nat SDSHDR_SIZE) blk in
           cbind (case init of
                    None \<Rightarrow> Ok b
                  | Some src \<Rightarrow>
                      if initlen \<noteq> 0 then cbind (mem_read src 0 initlen) (mem_write b 0)
                      else Ok b) (\<lambda>b.
           cbind (mem_write b initlen [NUL]) (\<lambda>b.
           Ok (Some \<lparr>sh_len = c_int initlen, sh_free = 0, sh_buf = b\<rparr>)))))"

definition sdsempty :: "cenv \<Rightarrow> sds cr" where
  "sdsempty env = sdsnewlen env (Some [NUL]) 0"

definition c_strlen :: "bytes \<Rightarrow> int cr" where
  "c_strlen b = (if NUL \<in> set b then Ok (int (length (takeWhile (\<lambda>c. c \<noteq> NUL) b)))
                 else Flt OutOfBounds)"

definition sdsnew :: "cenv \<Rightarrow> bytes option \<Rightarrow> sds cr" where
  "sdsnew env init =
     cbind (case init of None \<Rightarrow> Ok 0 | Some p \<Rightarrow> c_strlen p) (\<lambda>initlen.
     sdsnewlen env init initlen)"

definition sdsdup :: "cenv \<Rightarrow> sds \<Rightarrow> sds cr" where
  "sdsdup env s = cbind (deref s) (\<lambda>sh. sdsnewlen env (Some (sh_buf sh)) (sdslen sh))"

section \<open>Growth and the length field\<close>

definition sdsMakeRoomFor :: "cenv \<Rightarrow> sds \<Rightarrow> int \<Rightarrow> sds cr" where
  "sdsMakeRoomFor env s addlen =
     cbind (deref s) (\<lambda>sh.
     if addlen \<le> sdsavail sh then Ok (Some sh)
     else
       let len = sdslen sh;
           newlen = c_size (len + addlen);
           newlen = (if newlen < SDS_MAX_PREALLOC then c_size (newlen * 2)
                     else c_size (newlen + SDS_MAX_PREALLOC))
       in case sh_realloc env (sh_buf sh) (c_size (SDSHDR_SIZE + newlen + 1)) of
            None \<Rightarrow> Ok None
          | Some b \<Rightarrow> Ok (Some (sh\<lparr>sh_buf := b, sh_free := c_int (c_size (newlen - len))\<rparr>)))"

definition sdsRemoveFreeSpace :: "cenv \<Rightarrow> sds \<Rightarrow> sds cr" where
  "sdsRemoveFreeSpace env s =
     cbind (deref s) (\<lambda>sh.
     cbind (deref (sh_realloc env (sh_buf sh) (c_size (SDSHDR_SIZE + sh_len sh + 1)))) (\<lambda>b.
     Ok (Some (sh\<lparr>sh_buf := b, sh_free := 0\<rparr>))))"

definition sdsAllocSize :: "sdshdr \<Rightarrow> int" where
  "sdsAllocSize sh = c_size (SDSHDR_SIZE + sh_len sh + sh_free sh + 1)"

definition sdsupdatelen :: "sds \<Rightarrow> sds cr" where
  "sdsupdatelen s =
     cbind (deref s) (\<lambda>sh.
     cbind (c_strlen (sh_buf sh)) (\<lambda>n.
     let reallen = c_int n in
     cbind (s_int (sh_len sh - reallen)) (\<lambda>d.
     cbind (s_int (sh_free sh + d)) (\<lambda>f.
     Ok (Some (sh\<lparr>sh_free := f, sh_len := reallen\<rparr>))))))"

definition sdsclear :: "sds \<Rightarrow> sds cr" where
  "sdsclear s =
     cbind (deref s) (\<lambda>sh.
     cbind (s_int (sh_free sh + sh_len sh)) (\<lambda>f.
     cbind (mem_write (sh_buf sh) 0 [NUL]) (\<lambda>b.
     Ok (Some (sh\<lparr>sh_free := f, sh_len := 0, sh_buf := b\<rparr>)))))"

definition sdsIncrLen :: "sds \<Rightarrow> int \<Rightarrow> sds cr" where
  "sdsIncrLen s incr =
     cbind (deref s) (\<lambda>sh.
     cbind (c_assert (incr \<le> sh_free sh)) (\<lambda>_.
     cbind (s_int (sh_len sh + incr)) (\<lambda>l.
     cbind (s_int (sh_free sh - incr)) (\<lambda>f.
     cbind (c_assert (0 \<le> f)) (\<lambda>_.
     cbind (mem_write (sh_buf sh) l [NUL]) (\<lambda>b.
     Ok (Some (sh\<lparr>sh_len := l, sh_free := f, sh_buf := b\<rparr>))))))))"

definition sdsgrowzero :: "cenv \<Rightarrow> sds \<Rightarrow> int \<Rightarrow> sds cr" where
  "sdsgrowzero env s len =
     cbind (deref s) (\<lambda>sh.
     let curlen = c_size (sh_len sh) in
     if len \<le> curlen then Ok (Some sh)
     else
       cbind (sdsMakeRoomFor env (Some sh) (c_size (len - curlen))) (\<lambda>r.
       case r of
         None \<Rightarrow> Ok None
       | Some sh \<Rightarrow>
           cbind (mem_write (sh_buf sh) curlen
                    (replicate (nat (c_size (len - curlen + 1))) NUL)) (\<lambda>b.
           cbind (s_int (sh_len sh + sh_free sh)) (\<lambda>t.
           let totlen = c_size t; l = c_int len in
           Ok (Some (sh\<lparr>sh_len := l, sh_free := c_int (c_size (totlen - l)), sh_buf := b\<rparr>))))))"

section \<open>Append and copy\<close>

definition sdscatlen :: "cenv \<Rightarrow> sds \<Rightarrow> bytes \<Rightarrow> int \<Rightarrow> sds cr" where
  "sdscatlen env s t len =
     cbind (deref s) (\<lambda>sh0.
     let curlen = sdslen sh0 in
     cbind (sdsMakeRoomFor env s len) (\<lambda>r.
     case r of
       None \<Rightarrow> Ok None
     | Some sh \<Rightarrow>
         cbind (mem_read t 0 len) (\<lambda>src.
         cbind (mem_write (sh_buf sh) curlen src) (\<lambda>b.
         cbind (mem_write b (c_size (curlen + len)) [NUL]) (\<lambda>b.
         Ok (Some (sh\<lparr>sh_len := c_int (c_size (curlen + len)),
                      sh_free := c_int (c_size (sh_free sh - len)), sh_buf := b\<rparr>)))))))"

definition sdscat :: "cenv \<Rightarrow> sds \<Rightarrow> bytes \<Rightarrow> sds cr" where
  "sdscat env s t = cbind (c_strlen t) (\<lambda>n. sdscatlen env s t n)"

definition sdscatsds :: "cenv \<Rightarrow> sds \<Rightarrow> sds \<Rightarrow> sds cr" where
  "sdscatsds env s t = cbind (deref t) (\<lambda>th. sdscatlen env s (sh_buf th) (sdslen th))"

definition sdscpylen :: "cenv \<Rightarrow> sds \<Rightarrow> bytes \<Rightarrow> int \<Rightarrow> sds cr" where
  "sdscpylen env s t len =
     cbind (deref s) (\<lambda>sh.
     cbind (s_int (sh_free sh + sh_len sh)) (\<lambda>tot.
     cbind (if c_size tot < len
            then cbind (sdsMakeRoomFor env s (c_size (len - sh_len sh))) (\<lambda>r.
                 case r of
                   None \<Rightarrow> Ok None
                 | Some sh \<Rightarrow> cbind (s_int (sh_free sh + sh_len sh)) (\<lambda>tot. Ok (Some (sh, c_size tot))))
            else Ok (Some (sh, c_size tot))) (\<lambda>r.
     case r of
       None \<Rightarrow> Ok None
     | Some (sh, totlen) \<Rightarrow>
         cbind (mem_read t 0 len) (\<lambda>src.
         cbind (mem_write (sh_buf sh) 0 src) (\<lambda>b.
         cbind (mem_write b len [NUL]) (\<lambda>b.
         Ok (Some (sh\<lparr>sh_len := c_int len, sh_free := c_int (c_size (totlen - len)),
                      sh_buf := b\<rparr>))))))))"

definition sdscpy :: "cenv \<Rightarrow> sds \<Rightarrow> bytes \<Rightarrow> sds cr" where
  "sdscpy env s t = cbind (c_strlen t) (\<lambda>n. sdscpylen env s t n)"

section \<open>The bytes a string stands for\<close>

definition sds_of :: "bytes \<Rightarrow> bytes \<Rightarrow> sdshdr" where
  "sds_of xs rest =
     \<lparr>sh_len = int (length xs), sh_free = int (length rest), sh_buf = xs @ NUL # rest\<rparr>"

definition sds_rep :: "sdshdr \<Rightarrow> bytes \<Rightarrow> bool" where
  "sds_rep sh xs \<longleftrightarrow> (\<exists>rest. sh = sds_of xs rest \<and> length xs + length rest < 2 ^ 31)"

text \<open>
  What a creating or growing operation may return: NULL when the allocator refuses, else a
  string that stands for \<open>xs\<close>.
\<close>

definition sds_result :: "cenv \<Rightarrow> bytes \<Rightarrow> sds \<Rightarrow> bool" where
  "sds_result env xs r \<longleftrightarrow>
     (case r of None \<Rightarrow> \<not> grants_all env | Some sh \<Rightarrow> sds_rep sh xs)"


lemma sds_result_None [simp]: "sds_result env xs None \<longleftrightarrow> \<not> grants_all env"
  by (simp add: sds_result_def)

lemma sds_result_Some [simp]: "sds_result env xs (Some sh) \<longleftrightarrow> sds_rep sh xs"
  by (simp add: sds_result_def)

lemma sds_repI [intro]: "length xs + length rest < 2 ^ 31 \<Longrightarrow> sds_rep (sds_of xs rest) xs"
  by (auto simp: sds_rep_def)

lemma sds_repE [elim]:
  assumes "sds_rep sh xs"
  obtains rest where "sh = sds_of xs rest" and "length xs + length rest < 2 ^ 31"
  using assms by (auto simp: sds_rep_def)

lemma sds_of_sel [simp]:
  "sh_len (sds_of xs rest) = int (length xs)"
  "sh_free (sds_of xs rest) = int (length rest)"
  "sh_buf (sds_of xs rest) = xs @ NUL # rest"
  by (simp_all add: sds_of_def)

lemma sds_of_eqI:
  "l = int (length xs) \<Longrightarrow> f = int (length rest) \<Longrightarrow> b = xs @ NUL # rest \<Longrightarrow>
   sh\<lparr>sh_len := l, sh_free := f, sh_buf := b\<rparr> = sds_of xs rest"
  by (simp add: sds_of_def)

lemma sds_rep_unique: "sds_rep sh xs \<Longrightarrow> sds_rep sh ys \<Longrightarrow> xs = ys"
  by (auto simp: sds_rep_def sds_of_def append_eq_append_conv)

lemma sdslen_rep: "sds_rep sh xs \<Longrightarrow> sdslen sh = int (length xs)"
  by (auto simp: sds_rep_def sdslen_def c_size_id)

lemma sdsavail_rep: "sds_rep sh xs \<Longrightarrow> sdsavail sh = sh_free sh"
  by (auto simp: sds_rep_def sdsavail_def c_size_id)

lemma sds_rep_length: "sds_rep sh xs \<Longrightarrow> length xs < 2 ^ 31"
  by auto

text \<open>Writing at the end of the content, then the terminator.\<close>

lemma mem_write_append:
  "length t \<le> length rest \<Longrightarrow>
   mem_write (xs @ NUL # rest) (int (length xs)) t = Ok (xs @ t @ drop (length t) (NUL # rest))"
  by (simp add: mem_write_def)

lemma mem_write_NUL:
  "length t \<le> length rest \<Longrightarrow>
   mem_write (xs @ t @ drop (length t) (NUL # rest)) (int (length xs) + int (length t)) [NUL] =
   Ok (xs @ t @ NUL # drop (length t) rest)"
proof -
  assume le: "length t \<le> length rest"
  have off: "nat (int (length xs) + int (length t)) = length xs + length t" by simp
  have "drop (Suc 0) (drop (length t) (NUL # rest)) = drop (length t) rest"
    by (simp add: drop_drop)
  with le show ?thesis
    by (simp add: mem_write_def off)
qed

lemmas sds_simps = Let_def c_ranges SDSHDR_SIZE_def SDS_MAX_PREALLOC_def sdslen_def sdsavail_def

lemma sh_realloc_grow:
  "length b \<le> m \<Longrightarrow> sh_realloc env b (8 + int m) =
   (if alloc_ok env (8 + m) then Some (b @ map (junk env) [length b..<m]) else None)"
  by (simp add: sh_realloc_def SDSHDR_SIZE_def nat_add_distrib)

lemma sdsMakeRoomFor_runs:
  assumes "length xs + length rest < 2 ^ 31" and "length xs + n < 2 ^ 30"
  shows "runs (sdsMakeRoomFor env (Some (sds_of xs rest)) (int n))
           (\<lambda>r. case r of None \<Rightarrow> \<not> grants_all env
                | Some sh \<Rightarrow> \<exists>rest'. sh = sds_of xs rest' \<and> n \<le> length rest' \<and>
                               length xs + length rest' < 2 ^ 31)"
proof (cases "n \<le> length rest")
  case True
  with assms show ?thesis
    by (auto simp: sdsMakeRoomFor_def sds_simps)
next
  case False
  define m where "m = (if length xs + n < 2 ^ 20 then 2 * (length xs + n) else length xs + n + 2 ^ 20)"
  have m: "length xs + n \<le> m" "m < 2 ^ 31"
    using assms by (auto simp: m_def)
  define b where "b = xs @ NUL # rest"
  have grow: "sh_realloc env b (8 + int (Suc m)) =
      (if alloc_ok env (8 + Suc m) then Some (b @ map (junk env) [length b..<Suc m]) else None)"
    using m False by (intro sh_realloc_grow) (simp add: b_def)
  have eq: "sdsMakeRoomFor env (Some (sds_of xs rest)) (int n) =
      (case sh_realloc env b (8 + int (Suc m)) of
         None \<Rightarrow> Ok None
       | Some b' \<Rightarrow> Ok (Some ((sds_of xs rest)\<lparr>sh_buf := b', sh_free := int (m - length xs)\<rparr>)))"
    using assms False m
    by (auto simp: sdsMakeRoomFor_def sds_simps m_def b_def of_nat_diff algebra_simps
        split: option.splits)
  show ?thesis
  proof (cases "alloc_ok env (8 + Suc m)")
    case True
    let ?r = "rest @ map (junk env) [length b..<Suc m]"
    have "(sds_of xs rest)\<lparr>sh_buf := b @ map (junk env) [length b..<Suc m], sh_free := int (m - length xs)\<rparr>
          = sds_of xs ?r" and "n \<le> length ?r" and "length xs + length ?r < 2 ^ 31"
      using m False by (auto simp: sds_of_def b_def)
    with True show ?thesis
      unfolding eq b_def [symmetric] grow by (auto simp del: upt_Suc)
  next
    case False
    then show ?thesis
      unfolding eq b_def [symmetric] grow by (auto simp del: upt_Suc)
  qed
qed

section \<open>Creation and growth respect the content\<close>

text \<open>A fresh string holds exactly the bytes it was made from, with no free space.\<close>

lemma mem_write_fill:
  "length b = Suc (length t) \<Longrightarrow>
   cbind (mem_write b 0 t) (\<lambda>b. mem_write b (int (length t)) [NUL]) = Ok (t @ [NUL])"
  by (simp add: mem_write_def)

lemma sdsnewlen_copy:
  assumes "n \<le> length src" and "n < 2 ^ 31 - 16"
  shows "sdsnewlen env (Some src) (int n) =
         Ok (if alloc_ok env (9 + n) then Some (sds_of (take n src) []) else None)"
proof -
  define b where "b = drop 8 (map (junk env) [0..<9 + n])"
  have b: "length b = Suc n" by (simp add: b_def)
  have w: "mem_write b (int n) [NUL] = Ok (take n b @ [NUL])"
    using b by (simp add: mem_write_def)
  have r: "cbind (mem_read src 0 (int n)) (mem_write b 0) = mem_write b 0 (take n src)"
    using assms by (simp add: mem_read_def)
  have f: "cbind (mem_write b 0 (take n src)) (\<lambda>b. cbind (mem_write b (int n) [NUL]) k) = k (take n src @ [NUL])"
    for k :: "bytes \<Rightarrow> sds cr"
    using mem_write_fill [of b "take n src"] b assms by (simp add: cbind_assoc [symmetric] min_absorb2)
  show ?thesis
  proof (cases "alloc_ok env (9 + n)")
    case True
    then have "c_malloc env (c_size (8 + int n + 1)) = Some (map (junk env) [0..<9 + n])"
      using assms by (simp add: c_malloc_def c_size_id nat_add_distrib add.commute del: upt_Suc)
    then show ?thesis
      using True assms w r f
      by (cases "n = 0") (auto simp: sdsnewlen_def sds_simps sds_of_def b_def simp del: upt_Suc)
  next
    case False
    then show ?thesis
      using assms
      by (simp add: sdsnewlen_def c_malloc_def c_size_id SDSHDR_SIZE_def nat_add_distrib add.commute)
  qed
qed

lemma sdsnewlen_zero:
  assumes "n < 2 ^ 31 - 16"
  shows "sdsnewlen env None (int n) =
         Ok (if alloc_ok env (9 + n) then Some (sds_of (replicate n NUL) []) else None)"
proof -
  have t: "take n (NUL # replicate n NUL) = replicate n NUL"
    by (simp add: take_Cons' replicate_Suc [symmetric] min_def del: replicate_Suc)
  have "NUL # replicate n NUL = replicate n NUL @ [NUL]"
    by (simp add: replicate_append_same)
  with assms t show ?thesis
    by (auto simp: sdsnewlen_def sds_simps c_calloc_def sds_of_def nat_add_distrib add.commute
        mem_write_def)
qed

lemma sdsempty_eq:
  "sdsempty env = Ok (if alloc_ok env 9 then Some (sds_of [] []) else None)"
  using sdsnewlen_copy [of 0 "[NUL]" env] by (simp add: sdsempty_def)

lemma sdsdup_rep:
  assumes "sds_rep sh xs" and "length xs < 2 ^ 31 - 16"
  shows "sdsdup env (Some sh) =
         Ok (if alloc_ok env (9 + length xs) then Some (sds_of xs []) else None)"
  using assms sdsnewlen_copy [of "length xs" "sh_buf sh" env]
  by (auto simp: sdsdup_def sdslen_rep)

text \<open>Appending within the bound: the content grows by the appended bytes.\<close>

lemma sdscatlen_runs:
  assumes rep: "sds_rep sh xs" and n: "n \<le> length t" and small: "length xs + n < 2 ^ 30"
  shows "runs (sdscatlen env (Some sh) t (int n)) (sds_result env (xs @ take n t))"
proof -
  from rep obtain rest where sh: "sh = sds_of xs rest" and cap: "length xs + length rest < 2 ^ 31"
    by auto
  have room: "runs (sdsMakeRoomFor env (Some sh) (int n))
      (\<lambda>r. case r of None \<Rightarrow> \<not> grants_all env
           | Some sh \<Rightarrow> \<exists>rest'. sh = sds_of xs rest' \<and> n \<le> length rest' \<and>
                          length xs + length rest' < 2 ^ 31)"
    unfolding sh by (rule sdsMakeRoomFor_runs [OF cap small])
  show ?thesis
    unfolding sdscatlen_def deref.simps cbind.simps Let_def runs_cbind
  proof (rule runs_mono [OF room])
    fix r
    assume r: "case r of None \<Rightarrow> \<not> grants_all env
           | Some sh \<Rightarrow> \<exists>rest'. sh = sds_of xs rest' \<and> n \<le> length rest' \<and>
                          length xs + length rest' < 2 ^ 31"
    show "runs (case r of None \<Rightarrow> Ok None
        | Some sh' \<Rightarrow> cbind (mem_read t 0 (int n)) (\<lambda>src.
            cbind (mem_write (sh_buf sh') (sdslen sh) src) (\<lambda>b.
            cbind (mem_write b (c_size (sdslen sh + int n)) [NUL]) (\<lambda>b.
            Ok (Some (sh'\<lparr>sh_len := c_int (c_size (sdslen sh + int n)),
                          sh_free := c_int (c_size (sh_free sh' - int n)), sh_buf := b\<rparr>))))))
        (sds_result env (xs @ take n t))"
    proof (cases r)
      case None
      with r show ?thesis by simp
    next
      case (Some sh')
      with r obtain rest' where sh': "sh' = sds_of xs rest'" and le: "n \<le> length rest'"
        and cap': "length xs + length rest' < 2 ^ 31" by auto
      let ?t = "take n t"
      have len: "length ?t = n" using n by simp
      have read: "mem_read t 0 (int n) = Ok ?t"
        using n by (simp add: mem_read_def)
      have w1: "mem_write (xs @ NUL # rest') (int (length xs)) ?t =
          Ok (xs @ ?t @ drop n (NUL # rest'))"
        using mem_write_append [of ?t rest' xs] le len by simp
      have w2: "mem_write (xs @ ?t @ drop n (NUL # rest')) (int (length xs) + int n) [NUL] =
          Ok (xs @ ?t @ NUL # drop n rest')"
        using mem_write_NUL [of ?t rest' xs] le len by simp
      have fin: "\<lparr>sh_len = int (length xs) + int n, sh_free = int (length rest') - int n,
          sh_buf = xs @ ?t @ NUL # drop n rest'\<rparr> = sds_of (xs @ ?t) (drop n rest')"
        using n le by (simp add: sds_of_def of_nat_diff)
      have "sds_rep (sds_of (xs @ ?t) (drop n rest')) (xs @ ?t)"
        using cap' le n by (intro sds_repI) auto
      then show ?thesis
        using Some sh sh' small cap' le read w1 w2 fin
        by (simp add: sds_simps) (simp add: sds_of_def)
    qed
  qed
qed

text \<open>Consequences shared by everything built from the appending operations.\<close>

lemma sds_result_grants:
  assumes "runs m (sds_result env xs)" and "grants_all env"
  obtains sh where "m = Ok (Some sh)" and "sds_rep sh xs"
  using assms by (cases m; cases "case m of Ok r \<Rightarrow> r") auto

lemma takeWhile_NUL: "takeWhile (\<lambda>c. c \<noteq> NUL) (t @ NUL # u) = takeWhile (\<lambda>c. c \<noteq> NUL) t"
  by (induction t) auto

lemma takeWhile_no_NUL [simp]: "NUL \<notin> set t \<Longrightarrow> takeWhile (\<lambda>c. c \<noteq> NUL) t = t"
  by (induction t) auto

lemma c_strlen_NUL: "c_strlen (t @ NUL # u) = Ok (int (length (takeWhile (\<lambda>c. c \<noteq> NUL) t)))"
  by (simp add: c_strlen_def takeWhile_NUL)

lemma c_strlen_terminated: "NUL \<notin> set t \<Longrightarrow> c_strlen (t @ NUL # u) = Ok (int (length t))"
  by (simp add: c_strlen_NUL)

lemma sdscat_runs:
  assumes "sds_rep sh xs" and "NUL \<notin> set t" and "length xs + length t < 2 ^ 30"
  shows "runs (sdscat env (Some sh) (t @ NUL # u)) (sds_result env (xs @ t))"
  using sdscatlen_runs [OF assms(1), of "length t" "t @ NUL # u" env] assms
  by (simp add: sdscat_def c_strlen_terminated)

lemma sdscatsds_runs:
  assumes "sds_rep sh xs" and "sds_rep th ys" and "length xs + length ys < 2 ^ 30"
  shows "runs (sdscatsds env (Some sh) (Some th)) (sds_result env (xs @ ys))"
  using sdscatlen_runs [OF assms(1), of "length ys" "sh_buf th" env] assms
  by (auto simp: sdscatsds_def sdslen_rep)

text \<open>Copying: the content becomes the copied bytes, whatever it was.\<close>

lemma mem_write_copy:
  assumes "length t < length b"
  shows "cbind (mem_write b 0 t) (\<lambda>b. mem_write b (int (length t)) [NUL]) =
         Ok (t @ NUL # drop (Suc (length t)) b)"
  using assms by (simp add: mem_write_def)

lemma sdscpylen_runs:
  assumes rep: "sds_rep sh xs" and n: "n \<le> length t" and small: "length xs + n < 2 ^ 30"
  shows "runs (sdscpylen env (Some sh) t (int n)) (sds_result env (take n t))"
proof -
  from rep obtain rest where sh: "sh = sds_of xs rest" and cap: "length xs + length rest < 2 ^ 31"
    by auto
  let ?t = "take n t"
  have read: "mem_read t 0 (int n) = Ok ?t" and len: "length ?t = n"
    using n by (simp_all add: mem_read_def)
  have copy: "runs (cbind (mem_write (ys @ NUL # rest') 0 ?t) (\<lambda>b.
         cbind (mem_write b (int n) [NUL]) (\<lambda>b.
         Ok (Some (s\<lparr>sh_len := int n, sh_free := int (length ys + length rest') - int n,
                      sh_buf := b\<rparr>))))) (sds_result env ?t)"
    if "n \<le> length ys + length rest'" and "length ys + length rest' < 2 ^ 31" for s ys rest'
  proof -
    let ?rest = "drop (Suc n) (ys @ NUL # rest')"
    have "cbind (mem_write (ys @ NUL # rest') 0 ?t) (\<lambda>b. mem_write b (int n) [NUL]) =
        Ok (?t @ NUL # ?rest)"
      using mem_write_copy [of ?t "ys @ NUL # rest'"] that len by simp
    moreover have "s\<lparr>sh_len := int n, sh_free := int (length ys + length rest') - int n,
        sh_buf := ?t @ NUL # ?rest\<rparr> = sds_of ?t ?rest"
      using that len by (intro sds_of_eqI) auto
    moreover have "sds_rep (sds_of ?t ?rest) ?t"
      using that len by (intro sds_repI) auto
    ultimately show ?thesis
      by (simp add: cbind_assoc [symmetric])
  qed
  show ?thesis
  proof (cases "n \<le> length xs + length rest")
    case True
    then show ?thesis
      using copy [of xs rest sh] cap small read
      by (simp add: sdscpylen_def sh s_int_ok c_size_id c_int_id Let_def add.commute)
  next
    case False
    then have "length xs + (n - length xs) < 2 ^ 30" using small by simp
    note room = sdsMakeRoomFor_runs [OF cap this, of env]
    have eq: "c_size (int n - int (length xs)) = int (n - length xs)"
      using False small by (simp add: c_size_id of_nat_diff)
    have tot: "c_size (int (length rest) + int (length xs)) < int n"
      using False cap by (simp add: c_size_id)
    from room obtain r where r: "sdsMakeRoomFor env (Some sh) (int (n - length xs)) = Ok r"
      and post: "case r of None \<Rightarrow> \<not> grants_all env
                | Some sh \<Rightarrow> \<exists>rest'. sh = sds_of xs rest' \<and> n - length xs \<le> length rest' \<and>
                               length xs + length rest' < 2 ^ 31"
      unfolding sh by (auto elim: runsE)
    show ?thesis
    proof (cases r)
      case None
      with r post tot cap show ?thesis
        by (simp add: sdscpylen_def sh eq s_int_ok)
    next
      case (Some sh')
      with post obtain rest' where sh': "sh' = sds_of xs rest'"
        and le: "n - length xs \<le> length rest'" and cap': "length xs + length rest' < 2 ^ 31" by auto
      then show ?thesis
        using Some r tot cap copy [of xs rest' sh'] read small False
        by (simp add: sdscpylen_def sh eq s_int_ok c_size_id c_int_id add.commute)
    qed
  qed
qed

section \<open>The length field operations\<close>

lemma sdsclear_rep:
  assumes "sds_rep sh xs"
  shows "\<exists>sh'. sdsclear (Some sh) = Ok (Some sh') \<and> sds_rep sh' [] \<and>
               sh_len sh' + sh_free sh' = sh_len sh + sh_free sh"
proof -
  from assms obtain rest where sh: "sh = sds_of xs rest" and cap: "length xs + length rest < 2 ^ 31"
    by auto
  let ?r = "drop 1 (xs @ NUL # rest)"
  have "sdsclear (Some sh) = Ok (Some (sds_of [] ?r))"
    using cap by (simp add: sdsclear_def sh s_int_ok mem_write_def sds_of_def)
  moreover have "sds_rep (sds_of [] ?r) []"
    using cap by (intro sds_repI) simp
  ultimately show ?thesis using sh by auto
qed

text \<open>
  \<open>sdsIncrLen\<close> after the caller wrote \<open>t\<close> behind the terminator position: the content
  grows by what was written. A negative increment trims the string on the right.
\<close>

lemma sdsIncrLen_grow:
  assumes "length xs + length t + length rest < 2 ^ 31 - 1"
    and "sh = \<lparr>sh_len = int (length xs), sh_free = int (length t + length rest),
               sh_buf = xs @ t @ c # rest\<rparr>"
  shows "sdsIncrLen (Some sh) (int (length t)) = Ok (Some (sds_of (xs @ t) rest))"
  using assms
  by (simp add: sdsIncrLen_def s_int_ok mem_write_def sds_of_def nat_add_distrib)

lemma sdsIncrLen_trim:
  assumes "sds_rep sh (xs @ t)"
  shows "\<exists>sh'. sdsIncrLen (Some sh) (- int (length t)) = Ok (Some sh') \<and> sds_rep sh' xs"
proof -
  from assms obtain rest where sh: "sh = sds_of (xs @ t) rest"
    and cap: "length xs + length t + length rest < 2 ^ 31" by auto
  let ?r = "drop 1 (t @ NUL # rest)"
  have "sdsIncrLen (Some sh) (- int (length t)) = Ok (Some (sds_of xs ?r))"
    using cap by (simp add: sdsIncrLen_def sh s_int_ok mem_write_def sds_of_def)
  moreover have "sds_rep (sds_of xs ?r) xs"
    using cap by (intro sds_repI) auto
  ultimately show ?thesis by blast
qed

lemma sdsIncrLen_overrun:
  "sds_rep sh xs \<Longrightarrow> sh_free sh < incr \<Longrightarrow> sdsIncrLen (Some sh) incr = Flt AssertFail"
  by (auto simp: sdsIncrLen_def)

lemma sdsgrowzero_runs:
  assumes rep: "sds_rep sh xs" and small: "n < 2 ^ 30"
  shows "runs (sdsgrowzero env (Some sh) (int n))
           (sds_result env (if n \<le> length xs then xs else xs @ replicate (n - length xs) NUL))"
proof (cases "n \<le> length xs")
  case True
  then show ?thesis
    using rep by (auto elim!: sds_repE simp: sdsgrowzero_def c_size_id Let_def)
next
  case False
  from rep obtain rest where sh: "sh = sds_of xs rest" and cap: "length xs + length rest < 2 ^ 31"
    by auto
  define k where "k = n - length xs"
  have k: "n = length xs + k" "0 < k" using False by (simp_all add: k_def)
  then have "length xs + k < 2 ^ 30" using small by simp
  note room = sdsMakeRoomFor_runs [OF cap this, of env]
  from room obtain r where r: "sdsMakeRoomFor env (Some (sds_of xs rest)) (int k) = Ok r"
    and post: "case r of None \<Rightarrow> \<not> grants_all env
              | Some sh \<Rightarrow> \<exists>rest'. sh = sds_of xs rest' \<and> k \<le> length rest' \<and>
                             length xs + length rest' < 2 ^ 31"
    by (auto elim: runsE)
  show ?thesis
  proof (cases r)
    case None
    with r post False k small show ?thesis
      by (simp add: sdsgrowzero_def sh c_size_id)
  next
    case (Some sh')
    with post obtain rest' where sh': "sh' = sds_of xs rest'" and le: "k \<le> length rest'"
      and cap': "length xs + length rest' < 2 ^ 31" by auto
    have w: "mem_write (xs @ NUL # rest') (int (length xs)) (replicate (Suc k) NUL) =
        Ok ((xs @ replicate k NUL) @ NUL # drop k rest')"
      using le by (simp add: mem_write_def replicate_append_same [symmetric] nat_add_distrib)
    have "sds_rep (sds_of (xs @ replicate k NUL) (drop k rest')) (xs @ replicate k NUL)"
      using cap' le by (intro sds_repI) auto
    with Some r False k small cap' w le show ?thesis
      by (simp add: sdsgrowzero_def sh sh' c_size_id s_int_ok c_int_id Let_def nat_add_distrib
          del: replicate_Suc) (simp add: sds_of_def of_nat_diff)
  qed
qed

text \<open>\<open>sdsupdatelen\<close> cuts the content at its first zero byte.\<close>

lemma takeWhile_NUL_split: "\<exists>r. xs @ NUL # rest = takeWhile (\<lambda>c. c \<noteq> NUL) xs @ NUL # r"
  by (induction xs) auto

lemma sdsupdatelen_rep:
  assumes "sds_rep sh xs"
  shows "\<exists>sh'. sdsupdatelen (Some sh) = Ok (Some sh') \<and> sds_rep sh' (takeWhile (\<lambda>c. c \<noteq> NUL) xs)"
proof -
  from assms obtain rest where sh: "sh = sds_of xs rest" and cap: "length xs + length rest < 2 ^ 31"
    by auto
  define ys where "ys = takeWhile (\<lambda>c. c \<noteq> NUL) xs"
  have le: "length ys \<le> length xs" by (simp add: ys_def length_takeWhile_le)
  obtain r where r: "xs @ NUL # rest = ys @ NUL # r"
    using takeWhile_NUL_split [of xs rest] by (auto simp: ys_def)
  have len: "length xs + length rest = length ys + length r"
    using arg_cong [OF r, of length] by (simp only: length_append length_Cons add_Suc_right nat.inject)
  have n: "c_strlen (xs @ NUL # rest) = Ok (int (length ys))"
    by (simp add: c_strlen_NUL ys_def)
  have "sdsupdatelen (Some sh) = Ok (Some (sds_of ys r))"
    using cap le len by (simp add: sdsupdatelen_def sh n c_int_id s_int_ok Let_def) (simp add: sds_of_def r)
  then show ?thesis using cap len by (auto simp: ys_def)
qed

lemma sdsRemoveFreeSpace_rep:
  assumes "sds_rep sh xs"
  shows "sdsRemoveFreeSpace env (Some sh) =
         (if alloc_ok env (length xs + 9) then Ok (Some (sds_of xs [])) else Flt NullDeref)"
  using assms
  by (auto simp: sdsRemoveFreeSpace_def sds_simps sh_realloc_def sds_of_def nat_add_distrib add.commute)

lemma sdsAllocSize_rep:
  "sds_rep sh xs \<Longrightarrow> sdsAllocSize sh = 8 + int (length (sh_buf sh))"
  by (auto simp: sdsAllocSize_def SDSHDR_SIZE_def c_size_id)

end
