(* ===== verification/Sds_Text.thy ===== *)
theory Sds_Text
  imports Sds_Core
begin

text \<open>
  \<open>src/src/sds.c\<close>: trimming, ranges, case, comparison and the replacement of characters. The
  lemmas give each loop a list-level meaning. The interface \<open>byte_string\<close> states what a user of
  these strings relies on (append, length, dropping a front); it is interpreted here.
\<close>

section \<open>Trimming and ranges\<close>

definition c_strchr :: "bytes \<Rightarrow> char \<Rightarrow> bool" where
  "c_strchr cset c \<longleftrightarrow> c \<in> set cset \<or> c = NUL"

function trim_left :: "bytes \<Rightarrow> bytes \<Rightarrow> int \<Rightarrow> int \<Rightarrow> int cr" where
  "trim_left b cset sp end =
     (if sp \<le> end then cbind (mem_get b sp) (\<lambda>c.
        if c_strchr cset c then trim_left b cset (sp + 1) end else Ok sp)
      else Ok sp)"
  by pat_completeness auto
termination by (relation "measure (\<lambda>(b, cset, sp, e). nat (e + 1 - sp))") auto

function trim_right :: "bytes \<Rightarrow> bytes \<Rightarrow> int \<Rightarrow> int \<Rightarrow> int cr" where
  "trim_right b cset start ep =
     (if start < ep then cbind (mem_get b ep) (\<lambda>c.
        if c_strchr cset c then trim_right b cset start (ep - 1) else Ok ep)
      else Ok ep)"
  by pat_completeness auto
termination by (relation "measure (\<lambda>(b, cset, start, ep). nat (ep - start))") auto

declare trim_left.simps [simp del] trim_right.simps [simp del]

definition sdstrim :: "sds \<Rightarrow> bytes \<Rightarrow> sds cr" where
  "sdstrim s cset =
     cbind (deref s) (\<lambda>sh.
     let start = 0; end = sdslen sh - 1 in
     cbind (trim_left (sh_buf sh) cset start end) (\<lambda>sp.
     cbind (trim_right (sh_buf sh) cset start end) (\<lambda>ep.
     let len = (if ep < sp then 0 else c_size (ep - sp + 1)) in
     cbind (if sp \<noteq> 0 then cbind (mem_read (sh_buf sh) sp len) (mem_write (sh_buf sh) 0)
            else Ok (sh_buf sh)) (\<lambda>b.
     cbind (mem_write b len [NUL]) (\<lambda>b.
     Ok (Some (sh\<lparr>sh_free := c_int (c_size (sh_free sh + (sh_len sh - len))),
                  sh_len := c_int len, sh_buf := b\<rparr>)))))))"

text \<open>A negative position counts from the end and stops at 0; the code does this for both ends.\<close>

definition sds_index :: "int \<Rightarrow> int \<Rightarrow> int" where
  "sds_index len i =
     (if i < 0 then let t = c_int (c_size (len + i)) in if t < 0 then 0 else t else i)"

definition range_clip :: "int \<Rightarrow> int \<Rightarrow> int \<Rightarrow> (int \<times> int) cr" where
  "range_clip len start end =
     cbind (if end < start then Ok 0
            else cbind (s_int (end - start)) (\<lambda>d. cbind (s_int (d + 1)) (\<lambda>d. Ok (c_size d))))
       (\<lambda>newlen.
     Ok (if newlen \<noteq> 0
         then if c_int len \<le> start then (start, 0)
              else if c_int len \<le> end
              then let end = c_int (c_size (len - 1))
                   in (start, if end < start then 0 else c_size (end - start + 1))
              else (start, newlen)
         else (0, newlen)))"

definition sdsrange :: "sds \<Rightarrow> int \<Rightarrow> int \<Rightarrow> sds cr" where
  "sdsrange s start end =
     cbind (deref s) (\<lambda>sh.
     let len = sdslen sh in
     if len = 0 then Ok (Some sh)
     else
       cbind (range_clip len (sds_index len start) (sds_index len end)) (\<lambda>(start, newlen).
       cbind (if start \<noteq> 0 \<and> newlen \<noteq> 0
              then cbind (mem_read (sh_buf sh) start newlen) (mem_write (sh_buf sh) 0)
              else Ok (sh_buf sh)) (\<lambda>b.
       cbind (mem_write b newlen [NUL]) (\<lambda>b.
       Ok (Some (sh\<lparr>sh_free := c_int (c_size (sh_free sh + (sh_len sh - newlen))),
                    sh_len := c_int newlen, sh_buf := b\<rparr>))))))"

section \<open>Characters, comparison\<close>

fun map_bytes :: "(char \<Rightarrow> char) \<Rightarrow> nat \<Rightarrow> nat \<Rightarrow> bytes \<Rightarrow> bytes cr" where
  "map_bytes f j 0 b = Ok b"
| "map_bytes f j (Suc n) b =
     cbind (mem_get b (int j)) (\<lambda>c. cbind (mem_write b (int j) [f c]) (map_bytes f (Suc j) n))"

definition sdstolower :: "sds \<Rightarrow> sds cr" where
  "sdstolower s =
     cbind (deref s) (\<lambda>sh.
     cbind (map_bytes c_tolower 0 (nat (c_int (sdslen sh))) (sh_buf sh)) (\<lambda>b.
     Ok (Some (sh\<lparr>sh_buf := b\<rparr>))))"

definition sdstoupper :: "sds \<Rightarrow> sds cr" where
  "sdstoupper s =
     cbind (deref s) (\<lambda>sh.
     cbind (map_bytes c_toupper 0 (nat (c_int (sdslen sh))) (sh_buf sh)) (\<lambda>b.
     Ok (Some (sh\<lparr>sh_buf := b\<rparr>))))"

text \<open>\<open>memcmp\<close> promises a sign only; the model returns the sign.\<close>

fun c_memcmp :: "bytes \<Rightarrow> bytes \<Rightarrow> int" where
  "c_memcmp (x # xs) (y # ys) =
     (if (of_char x :: nat) < of_char y then -1
      else if (of_char y :: nat) < of_char x then 1 else c_memcmp xs ys)"
| "c_memcmp _ _ = 0"

definition sdscmp :: "sds \<Rightarrow> sds \<Rightarrow> int cr" where
  "sdscmp s1 s2 =
     cbind (deref s1) (\<lambda>h1. cbind (deref s2) (\<lambda>h2.
     let l1 = sdslen h1; l2 = sdslen h2; minlen = (if l1 < l2 then l1 else l2) in
     cbind (mem_read (sh_buf h1) 0 minlen) (\<lambda>x.
     cbind (mem_read (sh_buf h2) 0 minlen) (\<lambda>y.
     let cmp = c_memcmp x y in
     Ok (if cmp = 0 then c_int (c_size (l1 - l2)) else cmp)))))"

fun map_char :: "bytes \<Rightarrow> bytes \<Rightarrow> nat \<Rightarrow> nat \<Rightarrow> char \<Rightarrow> char cr" where
  "map_char from to i 0 c = Ok c"
| "map_char from to i (Suc n) c =
     cbind (mem_get from (int i)) (\<lambda>f.
     if c = f then mem_get to (int i) else map_char from to (Suc i) n c)"

fun map_chars :: "bytes \<Rightarrow> bytes \<Rightarrow> nat \<Rightarrow> nat \<Rightarrow> nat \<Rightarrow> bytes \<Rightarrow> bytes cr" where
  "map_chars from to setlen j 0 b = Ok b"
| "map_chars from to setlen j (Suc n) b =
     cbind (mem_get b (int j)) (\<lambda>c.
     cbind (map_char from to 0 setlen c) (\<lambda>c'.
     cbind (mem_write b (int j) [c']) (map_chars from to setlen (Suc j) n)))"

definition sdsmapchars :: "sds \<Rightarrow> bytes \<Rightarrow> bytes \<Rightarrow> nat \<Rightarrow> sds cr" where
  "sdsmapchars s from to setlen =
     cbind (deref s) (\<lambda>sh.
     cbind (map_chars from to setlen 0 (nat (sdslen sh)) (sh_buf sh)) (\<lambda>b.
     Ok (Some (sh\<lparr>sh_buf := b\<rparr>))))"

section \<open>What trimming and ranges compute\<close>

definition rstrip :: "(char \<Rightarrow> bool) \<Rightarrow> bytes \<Rightarrow> bytes" where
  "rstrip P xs = rev (dropWhile P (rev xs))"

definition strip :: "(char \<Rightarrow> bool) \<Rightarrow> bytes \<Rightarrow> bytes" where
  "strip P xs = rstrip P (dropWhile P xs)"

lemma rstrip_snoc: "rstrip P (xs @ [x]) = (if P x then rstrip P xs else xs @ [x])"
  by (simp add: rstrip_def)

lemma rstrip_append: "\<exists>x\<in>set ys. \<not> P x \<Longrightarrow> rstrip P (xs @ ys) = xs @ rstrip P ys"
  by (auto simp: rstrip_def dropWhile_append)

lemma rstrip_Nil_iff: "rstrip P xs = [] \<longleftrightarrow> (\<forall>x\<in>set xs. P x)"
  by (simp add: rstrip_def dropWhile_eq_Nil_conv)

lemma length_rstrip_le: "length (rstrip P xs) \<le> length xs"
  by (simp add: rstrip_def length_dropWhile_le [of P "rev xs", simplified])

lemma rstrip_prefix: "rstrip P xs = take (length (rstrip P xs)) xs"
  by (induction xs rule: rev_induct)
     (auto simp: rstrip_def [of P "[]"] rstrip_snoc length_rstrip_le)

lemma trim_left_eq:
  "i \<le> length xs \<Longrightarrow>
   trim_left (xs @ t) cset (int i) (int (length xs) - 1) =
   Ok (int (i + length (takeWhile (c_strchr cset) (drop i xs))))"
proof (induction "length xs - i" arbitrary: i)
  case 0
  then show ?case by (simp add: trim_left.simps)
next
  case (Suc n)
  then have i: "i < length xs" by simp
  then have d: "drop i xs = xs ! i # drop (Suc i) xs" by (simp add: Cons_nth_drop_Suc)
  have "trim_left (xs @ t) cset (int (Suc i)) (int (length xs) - 1) =
      Ok (int (Suc i + length (takeWhile (c_strchr cset) (drop (Suc i) xs))))"
    using Suc i by (intro Suc.hyps(1)) auto
  then show ?case
    using i d by (subst trim_left.simps) (simp add: mem_get_ok nth_append add.commute)
qed

lemma trim_right_eq:
  "m \<le> length xs \<Longrightarrow>
   trim_right (xs @ t) cset 0 (int m - 1) =
   Ok (if rstrip (c_strchr cset) (take m xs) = [] then min 0 (int m - 1)
       else int (length (rstrip (c_strchr cset) (take m xs))) - 1)"
proof (induction m)
  case 0
  then show ?case by (simp add: trim_right.simps rstrip_def)
next
  case (Suc m)
  then have m: "m < length xs" by simp
  then have snoc: "take (Suc m) xs = take m xs @ [xs ! m]" by (rule take_Suc_conv_app_nth)
  show ?case
  proof (cases "m = 0")
    case True
    then show ?thesis
      using m by (cases xs) (auto simp: trim_right.simps rstrip_def)
  next
    case False
    have "mem_get (xs @ t) (int m) = Ok (xs ! m)"
      using m by (simp add: mem_get_def nth_append)
    with False m Suc show ?thesis
      by (subst trim_right.simps) (auto simp: snoc rstrip_snoc)
  qed
qed

text \<open>Moving a range of the content to the front and closing it with the terminator.\<close>

lemma shift_and_close:
  assumes cap: "length xs + length rest < 2 ^ 31" and a: "a + n \<le> length xs"
    and mv: "b = (if a \<noteq> 0 \<and> n \<noteq> 0 then cbind (mem_read (xs @ NUL # rest) (int a) (int n))
                                (mem_write (xs @ NUL # rest) 0) else Ok (xs @ NUL # rest))"
  shows "\<exists>sh'. cbind b (\<lambda>b. cbind (mem_write b (int n) [NUL]) (\<lambda>b.
            Ok (Some (sh\<lparr>sh_free := int (length rest) + (int (length xs) - int n),
                         sh_len := int n, sh_buf := b\<rparr>)))) = Ok (Some sh') \<and>
         sds_rep sh' (take n (drop a xs))"
proof -
  let ?c = "take n (drop a xs)"
  have len: "length ?c = n" using a by simp
  obtain u where u: "b = Ok (?c @ u)" and lu: "length u = Suc (length rest) + (length xs - n)"
  proof (cases "a \<noteq> 0 \<and> n \<noteq> 0")
    case True
    then have "mem_read (xs @ NUL # rest) (int a) (int n) = Ok ?c"
      using a by (simp add: mem_read_def)
    then have "b = Ok (?c @ drop n (xs @ NUL # rest))"
      using True a len by (simp add: mv mem_write_def)
    then show ?thesis using that a by simp
  next
    case False
    then have "b = Ok (?c @ drop n (xs @ NUL # rest))"
      using a by (auto simp: mv append_take_drop_id)
    then show ?thesis using that a by simp
  qed
  have w: "mem_write (?c @ u) (int n) [NUL] = Ok (?c @ NUL # drop 1 u)"
    using len lu by (simp add: mem_write_def)
  have "sh\<lparr>sh_free := int (length rest) + (int (length xs) - int n), sh_len := int n,
           sh_buf := ?c @ NUL # drop 1 u\<rparr> = sds_of ?c (drop 1 u)"
    using len lu a by (simp add: sds_of_def of_nat_diff)
  moreover have "sds_rep (sds_of ?c (drop 1 u)) ?c"
    using cap len lu a by (intro sds_repI) simp
  ultimately show ?thesis
    using u w by simp
qed

lemma strip_range:
  assumes "\<exists>x\<in>set xs. \<not> P x"
  shows "strip P xs = take (length (rstrip P xs) - length (takeWhile P xs)) (drop (length (takeWhile P xs)) xs)"
    and "length (takeWhile P xs) < length (rstrip P xs)"
proof -
  let ?u = "takeWhile P xs" and ?v = "dropWhile P xs"
  have v: "\<exists>x\<in>set ?v. \<not> P x"
    using assms by (metis Un_iff set_append set_takeWhileD takeWhile_dropWhile_id)
  have r: "rstrip P xs = ?u @ rstrip P ?v"
    using rstrip_append [OF v, of ?u] by simp
  have "rstrip P ?v \<noteq> []" using v by (simp add: rstrip_Nil_iff)
  then show "length ?u < length (rstrip P xs)" using r by simp
  have "drop (length ?u) xs = ?v" by (simp add: dropWhile_eq_drop)
  then show "strip P xs = take (length (rstrip P xs) - length ?u) (drop (length ?u) xs)"
    using rstrip_prefix [of P ?v] r by (simp add: strip_def)
qed

lemma sdstrim_rep:
  assumes rep: "sds_rep sh xs"
  shows "\<exists>sh'. sdstrim (Some sh) cset = Ok (Some sh') \<and> sds_rep sh' (strip (c_strchr cset) xs)"
proof -
  let ?P = "c_strchr cset"
  from rep obtain rest where sh: "sh = sds_of xs rest" and cap: "length xs + length rest < 2 ^ 31"
    by auto
  define a where "a = length (takeWhile ?P xs)"
  define e where "e = length (rstrip ?P xs)"
  have bounds: "a \<le> length xs" "e \<le> length xs"
    by (simp_all add: a_def e_def length_takeWhile_le length_rstrip_le)
  have left: "trim_left (xs @ NUL # rest) cset 0 (int (length xs) - 1) = Ok (int a)"
    using trim_left_eq [of 0 xs "NUL # rest" cset] by (simp add: a_def)
  have right: "trim_right (xs @ NUL # rest) cset 0 (int (length xs) - 1) =
      Ok (if e = 0 then min 0 (int (length xs) - 1) else int e - 1)"
    using trim_right_eq [of "length xs" xs "NUL # rest" cset] by (simp add: e_def)
  show ?thesis
  proof (cases "\<exists>x\<in>set xs. \<not> ?P x")
    case True
    note st = strip_range [OF True, folded a_def e_def]
    then obtain k where k: "e = a + k" "k \<noteq> 0"
      by (metis add_diff_inverse_nat less_imp_not_less nat_neq_iff zero_less_diff)
    have mv: "(if int a \<noteq> 0 then cbind (mem_read (xs @ NUL # rest) (int a) (int k))
                  (mem_write (xs @ NUL # rest) 0) else Ok (xs @ NUL # rest)) =
              (if a \<noteq> 0 \<and> k \<noteq> 0 then cbind (mem_read (xs @ NUL # rest) (int a) (int k))
                  (mem_write (xs @ NUL # rest) 0) else Ok (xs @ NUL # rest))"
      using k by simp
    have "a + k \<le> length xs" using bounds k by simp
    from shift_and_close [OF cap this refl, of sh]
    obtain sh' where sh': "cbind (if int a \<noteq> 0 then cbind (mem_read (xs @ NUL # rest) (int a) (int k))
                  (mem_write (xs @ NUL # rest) 0) else Ok (xs @ NUL # rest))
          (\<lambda>b. cbind (mem_write b (int k) [NUL]) (\<lambda>b.
            Ok (Some (sh\<lparr>sh_free := int (length rest) + (int (length xs) - int k),
                         sh_len := int k, sh_buf := b\<rparr>)))) = Ok (Some sh')"
      and r': "sds_rep sh' (strip ?P xs)"
      using st(1) k unfolding mv by auto
    have "sdstrim (Some sh) cset = Ok (Some sh')"
      using k bounds cap sh' left right
      by (simp add: sdstrim_def sh sdslen_def c_size_id c_int_id Let_def del: of_nat_add)
         (auto split: if_splits)
    with r' show ?thesis by blast
  next
    case False
    then have all: "a = length xs" "e = 0"
      by (simp_all add: a_def e_def rstrip_Nil_iff takeWhile_eq_all_conv [THEN iffD2])
    have nil: "strip ?P xs = []"
      using False by (simp add: strip_def rstrip_def dropWhile_eq_Nil_conv [THEN iffD2])
    have le: "length xs + 0 \<le> length xs" by simp
    from shift_and_close [OF cap le refl, of sh]
    obtain sh' where sh': "cbind (Ok (xs @ NUL # rest))
          (\<lambda>b. cbind (mem_write b 0 [NUL]) (\<lambda>b.
            Ok (Some (sh\<lparr>sh_free := int (length rest) + int (length xs),
                         sh_len := 0, sh_buf := b\<rparr>)))) = Ok (Some sh')"
      and r': "sds_rep sh' []"
      by auto
    have mv: "cbind (mem_read (xs @ NUL # rest) (int (length xs)) 0) (mem_write (xs @ NUL # rest) 0) =
        Ok (xs @ NUL # rest)"
      by (simp add: mem_read_def mem_write_def)
    have "sdstrim (Some sh) cset = Ok (Some sh')"
      using all cap sh' left right mv
      by (cases "xs = []") (simp_all add: sdstrim_def sh sdslen_def c_size_id c_int_id Let_def min_def)
    with r' nil show ?thesis by auto
  qed
qed

text \<open>Inclusive ranges, negative positions counting from the end.\<close>

definition range_pos :: "nat \<Rightarrow> int \<Rightarrow> int" where
  "range_pos n i = (if i < 0 then max 0 (int n + i) else i)"

definition range_spec :: "bytes \<Rightarrow> int \<Rightarrow> int \<Rightarrow> bytes" where
  "range_spec xs i j =
     (let a = range_pos (length xs) i; b = range_pos (length xs) j
      in if b < a then [] else take (nat (b - a + 1)) (drop (nat a) xs))"

lemma range_spec_Nil [simp]: "range_spec [] i j = []"
  by (simp add: range_spec_def Let_def)

text \<open>The clamped length of a range, as the code computes it.\<close>

lemma range_spec_clamp:
  assumes "0 \<le> a" and "a \<le> b" and "range_pos (length xs) i = a" and "range_pos (length xs) j = b"
  shows "range_spec xs i j =
    (if int (length xs) \<le> a then []
     else take (nat (min b (int (length xs) - 1) - a + 1)) (drop (nat a) xs))"
proof (cases "int (length xs) \<le> a \<or> b < int (length xs)")
  case True
  then show ?thesis using assms by (auto simp: range_spec_def)
next
  case False
  then have "length (drop (nat a) xs) \<le> nat (int (length xs) - 1 - a + 1)"
    and "length (drop (nat a) xs) \<le> nat (b - a + 1)"
    by auto
  then show ?thesis using assms False by (simp add: range_spec_def)
qed

lemma sds_index_eq:
  "0 < n \<Longrightarrow> n < 2 ^ 31 \<Longrightarrow> - (2 ^ 31) \<le> i \<Longrightarrow> i < 2 ^ 31 \<Longrightarrow> sds_index (int n) i = range_pos n i"
  by (auto simp: sds_index_def range_pos_def c_int_c_size c_int_id Let_def)

lemma range_clip_eq:
  assumes "0 \<le> a" "a < 2 ^ 31" "0 \<le> b" "b < 2 ^ 31 - 1" "0 < n" "n < 2 ^ 31"
  shows "range_clip (int n) a b = Ok (if b < a then (0, 0) else
           (a, if int n \<le> a then 0 else min b (int n - 1) - a + 1))"
  using assms
  by (auto simp: range_clip_def s_int_ok c_size_id c_int_id Let_def)

lemma sdsrange_rep:
  assumes rep: "sds_rep sh xs"
    and i: "- (2 ^ 31) \<le> i" "i < 2 ^ 31" and j: "- (2 ^ 31) \<le> j" "j < 2 ^ 31 - 1"
  shows "\<exists>sh'. sdsrange (Some sh) i j = Ok (Some sh') \<and> sds_rep sh' (range_spec xs i j)"
proof (cases "xs = []")
  case True
  then show ?thesis using rep by (auto simp: sdsrange_def sdslen_def c_size_id elim!: sds_repE)
next
  case False
  from rep obtain rest where sh: "sh = sds_of xs rest" and cap: "length xs + length rest < 2 ^ 31"
    by auto
  define n where "n = length xs"
  have n: "0 < n" "n < 2 ^ 31" using False cap by (auto simp: n_def)
  define a b where "a = range_pos n i" and "b = range_pos n j"
  have ab: "0 \<le> a" "a < 2 ^ 31" "0 \<le> b" "b < 2 ^ 31 - 1"
    using i j n by (auto simp: a_def b_def range_pos_def)
  define s k where "s = (if b < a \<or> int n \<le> a then 0 else nat a)"
    and "k = (if b < a \<or> int n \<le> a then 0 else nat (min b (int n - 1) - a + 1))"
  have sk: "s + k \<le> length xs" using ab n by (auto simp: s_def k_def n_def)
  have kn: "k \<le> n" using sk by (simp add: n_def)
  have spec: "range_spec xs i j = take k (drop s xs)"
  proof (cases "b < a")
    case True
    then show ?thesis
      by (simp add: range_spec_def Let_def k_def a_def b_def n_def)
  next
    case False
    then have "a \<le> b" by simp
    from range_spec_clamp [OF ab(1) this, of xs i j] False show ?thesis
      by (cases "int n \<le> a") (simp_all add: a_def b_def n_def s_def k_def)
  qed
  obtain start where clip: "range_clip (int n) a b = Ok (start, int k)"
    and start: "start \<noteq> 0 \<and> int k \<noteq> 0 \<longleftrightarrow> s \<noteq> 0 \<and> k \<noteq> 0" "s \<noteq> 0 \<and> k \<noteq> 0 \<longrightarrow> start = int s"
    by (rule that [of "if b < a then 0 else a"])
       (use range_clip_eq [OF ab n] ab in \<open>auto simp: s_def k_def\<close>)
  have mv: "(if start \<noteq> 0 \<and> int k \<noteq> 0
       then cbind (mem_read (xs @ NUL # rest) start (int k)) (mem_write (xs @ NUL # rest) 0)
       else Ok (xs @ NUL # rest)) =
      (if s \<noteq> 0 \<and> k \<noteq> 0
       then cbind (mem_read (xs @ NUL # rest) (int s) (int k)) (mem_write (xs @ NUL # rest) 0)
       else Ok (xs @ NUL # rest))"
    using start by (simp only: start(1) split: if_splits) auto
  have "sdsrange (Some sh) i j =
      cbind (if s \<noteq> 0 \<and> k \<noteq> 0
       then cbind (mem_read (xs @ NUL # rest) (int s) (int k)) (mem_write (xs @ NUL # rest) 0)
       else Ok (xs @ NUL # rest)) (\<lambda>b. cbind (mem_write b (int k) [NUL]) (\<lambda>b.
       Ok (Some (sh\<lparr>sh_free := int (length rest) + (int (length xs) - int k),
                    sh_len := int k, sh_buf := b\<rparr>))))"
    unfolding mv [symmetric]
    using clip n kn cap False i j
    by (simp add: sdsrange_def sh sdslen_def c_size_id c_int_id n_def [symmetric] sds_index_eq
        a_def [symmetric] b_def [symmetric])
  then show ?thesis
    using shift_and_close [OF cap sk refl, of sh] spec by simp
qed

section \<open>Character maps and comparison\<close>

lemma mem_write_one:
  "j < length b \<Longrightarrow> mem_write b (int j) [c] = Ok (take j b @ c # drop (Suc j) b)"
  by (simp add: mem_write_def)

lemma map_bytes_eq:
  "j + n \<le> length b \<Longrightarrow>
   map_bytes f j n b = Ok (take j b @ map f (take n (drop j b)) @ drop (j + n) b)"
proof (induction n arbitrary: j b)
  case 0
  then show ?case by simp
next
  case (Suc n)
  then have j: "j < length b" by simp
  let ?b = "take j b @ f (b ! j) # drop (Suc j) b"
  have "map_bytes f (Suc j) n ?b =
      Ok (take (Suc j) ?b @ map f (take n (drop (Suc j) ?b)) @ drop (Suc j + n) ?b)"
    using Suc.prems by (intro Suc.IH) simp
  moreover have "take (Suc n) (drop j b) = b ! j # take n (drop (Suc j) b)"
    using j by (simp add: Cons_nth_drop_Suc [symmetric])
  ultimately show ?case
    using j Suc.prems by (simp add: mem_get_ok mem_write_one min_def add.commute)
qed

lemma sds_map_content:
  "sds_rep sh xs \<Longrightarrow> length ys = length xs \<Longrightarrow> sh_buf sh = xs @ t \<Longrightarrow>
   sds_rep (sh\<lparr>sh_buf := ys @ t\<rparr>) ys"
  by (auto simp: sds_rep_def sds_of_def)

lemma map_bytes_rep:
  assumes rep: "sds_rep sh xs"
  shows "\<exists>b. map_bytes f 0 (length xs) (sh_buf sh) = Ok b \<and> sds_rep (sh\<lparr>sh_buf := b\<rparr>) (map f xs)"
proof -
  from rep obtain rest where "sh_buf sh = xs @ NUL # rest" by auto
  then show ?thesis
    using map_bytes_eq [of 0 "length xs" "sh_buf sh" f] sds_map_content [OF rep, of "map f xs"]
    by auto
qed

lemma sdstolower_rep:
  "sds_rep sh xs \<Longrightarrow> \<exists>sh'. sdstolower (Some sh) = Ok (Some sh') \<and> sds_rep sh' (map c_tolower xs)"
  using map_bytes_rep [of sh xs c_tolower] sds_rep_length [of sh xs]
  by (auto simp: sdstolower_def sdslen_rep c_int_id)

lemma sdstoupper_rep:
  "sds_rep sh xs \<Longrightarrow> \<exists>sh'. sdstoupper (Some sh) = Ok (Some sh') \<and> sds_rep sh' (map c_toupper xs)"
  using map_bytes_rep [of sh xs c_toupper] sds_rep_length [of sh xs]
  by (auto simp: sdstoupper_def sdslen_rep c_int_id)

text \<open>\<open>sdsmapchars\<close>: the first pair of the two sets that matches decides.\<close>

definition subst_char :: "bytes \<Rightarrow> bytes \<Rightarrow> char \<Rightarrow> char" where
  "subst_char from to c = (case map_of (zip from to) c of None \<Rightarrow> c | Some d \<Rightarrow> d)"

lemma map_char_eq:
  "i + n \<le> length from \<Longrightarrow> i + n \<le> length to \<Longrightarrow>
   map_char from to i n c = Ok (subst_char (take n (drop i from)) (take n (drop i to)) c)"
proof (induction n arbitrary: i)
  case 0
  then show ?case by (simp add: subst_char_def)
next
  case (Suc n)
  have "take (Suc n) (drop i from) = from ! i # take n (drop (Suc i) from)"
    and "take (Suc n) (drop i to) = to ! i # take n (drop (Suc i) to)"
    using Suc.prems by (simp_all add: Cons_nth_drop_Suc [symmetric])
  then show ?case
    using Suc by (simp add: mem_get_ok subst_char_def)
qed

lemma map_chars_map_bytes:
  assumes "setlen \<le> length from" and "setlen \<le> length to"
  shows "map_chars from to setlen j n =
         map_bytes (subst_char (take setlen from) (take setlen to)) j n"
proof (induction n arbitrary: j)
  case 0
  show ?case by (rule ext) simp
next
  case (Suc n)
  show ?case using assms by (intro ext) (simp add: map_char_eq Suc)
qed

lemma sdsmapchars_rep:
  assumes "sds_rep sh xs" and "setlen \<le> length from" and "setlen \<le> length to"
  shows "\<exists>sh'. sdsmapchars (Some sh) from to setlen = Ok (Some sh') \<and>
               sds_rep sh' (map (subst_char (take setlen from) (take setlen to)) xs)"
  using map_bytes_rep [OF assms(1), of "subst_char (take setlen from) (take setlen to)"] assms
  by (auto simp: sdsmapchars_def sdslen_rep map_chars_map_bytes)

text \<open>\<open>sdscmp\<close> is the lexicographic order on unsigned bytes.\<close>

fun byte_less :: "bytes \<Rightarrow> bytes \<Rightarrow> bool" where
  "byte_less [] ys \<longleftrightarrow> ys \<noteq> []"
| "byte_less (x # xs) [] \<longleftrightarrow> False"
| "byte_less (x # xs) (y # ys) \<longleftrightarrow>
     (of_char x :: nat) < of_char y \<or> x = y \<and> byte_less xs ys"

lemma c_memcmp_take:
  "c_memcmp (take (min (length xs) (length ys)) xs) (take (min (length xs) (length ys)) ys) =
   c_memcmp xs ys"
  by (induction xs ys rule: c_memcmp.induct) auto

lemma of_char_linear: "\<not> (of_char x :: nat) < of_char y \<Longrightarrow> \<not> (of_char y :: nat) < of_char x \<Longrightarrow> x = y"
  by (metis linorder_less_linear of_char_eq_iff)

lemma byte_less_memcmp:
  "byte_less xs ys \<longleftrightarrow> c_memcmp xs ys < 0 \<or> c_memcmp xs ys = 0 \<and> length xs < length ys"
  by (induction xs ys rule: byte_less.induct) (auto dest: of_char_linear)

lemma c_memcmp_eq_0: "length xs = length ys \<Longrightarrow> c_memcmp xs ys = 0 \<longleftrightarrow> xs = ys"
  by (induction xs ys rule: list_induct2) (auto dest: of_char_linear)

lemma sdscmp_eq:
  assumes "sds_rep h1 xs" and "sds_rep h2 ys"
  shows "sdscmp (Some h1) (Some h2) =
         Ok (if c_memcmp xs ys = 0 then int (length xs) - int (length ys) else c_memcmp xs ys)"
proof -
  let ?m = "min (length xs) (length ys)"
  from assms obtain r1 r2 where b: "sh_buf h1 = xs @ NUL # r1" "sh_buf h2 = ys @ NUL # r2"
    by (auto elim!: sds_repE)
  have m: "(if int (length xs) < int (length ys) then int (length xs) else int (length ys)) = int ?m"
    by (simp add: min_def)
  have "mem_read (sh_buf h1) 0 (int ?m) = Ok (take ?m xs)"
    and "mem_read (sh_buf h2) 0 (int ?m) = Ok (take ?m ys)"
    by (simp_all add: b mem_read_def min_def)
  with sds_rep_length [OF assms(1)] sds_rep_length [OF assms(2)] show ?thesis
    unfolding sdscmp_def deref.simps cbind.simps Let_def sdslen_rep [OF assms(1)]
      sdslen_rep [OF assms(2)] m
    by (simp add: c_memcmp_take c_int_c_size c_int_id)
qed


section \<open>What a client of strings relies on\<close>

text \<open>
  The operations a buffer needs, with their laws: \<open>rep s xs\<close> says the string \<open>s\<close> stands for
  \<open>xs\<close>, \<open>cat\<close> appends from memory, \<open>range\<close> keeps a stretch.
\<close>

fun cat_all :: "(bytes \<Rightarrow> 's option \<Rightarrow> 's option cr) \<Rightarrow> bytes list \<Rightarrow> 's option \<Rightarrow> 's option cr" where
  "cat_all add [] s = Ok s"
| "cat_all add (t # ts) s = cbind (add t s) (\<lambda>s. if s = None then Ok None else cat_all add ts s)"

locale byte_string =
  fixes rep :: "'s \<Rightarrow> bytes \<Rightarrow> bool"
    and len :: "'s \<Rightarrow> int"
    and cat :: "cenv \<Rightarrow> 's option \<Rightarrow> bytes \<Rightarrow> int \<Rightarrow> 's option cr"
    and range :: "'s option \<Rightarrow> int \<Rightarrow> int \<Rightarrow> 's option cr"
  assumes rep_unique: "rep s xs \<Longrightarrow> rep s ys \<Longrightarrow> xs = ys"
    and rep_len: "rep s xs \<Longrightarrow> len s = int (length xs)"
    and cat_rep: "rep s xs \<Longrightarrow> n \<le> length t \<Longrightarrow> length xs + n < 2 ^ 30 \<Longrightarrow>
      runs (cat env (Some s) t (int n))
        (\<lambda>r. case r of None \<Rightarrow> \<not> grants_all env | Some s' \<Rightarrow> rep s' (xs @ take n t))"
    and range_rep: "rep s xs \<Longrightarrow> - (2 ^ 31) \<le> i \<Longrightarrow> i < 2 ^ 31 \<Longrightarrow> - (2 ^ 31) \<le> j \<Longrightarrow> j < 2 ^ 31 - 1 \<Longrightarrow>
      \<exists>s'. range (Some s) i j = Ok (Some s') \<and> rep s' (range_spec xs i j)"
begin

text \<open>Appending a whole block when the allocator grants everything.\<close>

lemma cat_grants:
  assumes "rep s xs" and "length xs + length t < 2 ^ 30" and "grants_all env"
  obtains s' where "cat env (Some s) t (int (length t)) = Ok (Some s')" and "rep s' (xs @ t)"
proof -
  from cat_rep [OF assms(1) order_refl assms(2), of env] obtain r
    where "cat env (Some s) t (int (length t)) = Ok r"
      and "case r of None \<Rightarrow> \<not> grants_all env | Some s' \<Rightarrow> rep s' (xs @ take (length t) t)"
    by (rule runsE)
  with assms(3) that show thesis by (cases r) auto
qed

lemma cat_all_rep:
  assumes "rep s xs" and "length xs + length (concat ts) < 2 ^ 30" and "grants_all env"
  shows "\<exists>s'. cat_all (\<lambda>t s. cat env s t (int (length t))) ts (Some s) = Ok (Some s') \<and> rep s' (xs @ concat ts)"
  using assms
proof (induction ts arbitrary: s xs)
  case (Cons t ts)
  then have "length xs + length t < 2 ^ 30" by simp
  from cat_grants [OF Cons.prems(1) this Cons.prems(3)] obtain s1
    where "cat env (Some s) t (int (length t)) = Ok (Some s1)" "rep s1 (xs @ t)" .
  with Cons.IH [of s1 "xs @ t"] Cons.prems show ?case by auto
qed simp

text \<open>Cutting off what was consumed at the front.\<close>

lemma drop_front:
  assumes "rep s (pre @ u)" and "pre \<noteq> []" and "length pre < 2 ^ 31"
  shows "\<exists>s'. range (Some s) (int (length pre)) (- 1) = Ok (Some s') \<and> rep s' u \<and> len s' = int (length u)"
proof -
  have "0 < int (length pre) + int (length u)" using assms(2) by (cases pre) auto
  then have "range_spec (pre @ u) (int (length pre)) (- 1) = u"
    by (auto simp: range_spec_def range_pos_def max_def Let_def)
  with range_rep [OF assms(1), of "int (length pre)" "- 1"] assms(3) rep_len show ?thesis by fastforce
qed

end

interpretation sds_string: byte_string sds_rep sdslen sdscatlen sdsrange
proof
  fix s xs and n :: nat and t :: bytes and env
  assume "sds_rep s xs" "n \<le> length t" "length xs + n < 2 ^ 30"
  then have "runs (sdscatlen env (Some s) t (int n)) (sds_result env (xs @ take n t))"
    by (rule sdscatlen_runs)
  then show "runs (sdscatlen env (Some s) t (int n))
      (\<lambda>r. case r of None \<Rightarrow> \<not> grants_all env | Some s' \<Rightarrow> sds_rep s' (xs @ take n t))"
    by (simp add: sds_result_def [abs_def])
qed (auto intro: sds_rep_unique sdslen_rep sdsrange_rep)

end
