(* ===== verification/Sds_Split.thy ===== *)
theory Sds_Split
  imports Sds_Text "HOL-Library.Sublist"
begin

text \<open>
  \<open>src/src/sds.c\<close>: splitting a string at a separator (\<open>sdssplitlen\<close>) and joining strings
  (\<open>sdsjoin\<close>, \<open>sdsjoinsds\<close>). Splitting never leaves its tokens array, and joining the
  tokens gives back the string that was split.
\<close>

section \<open>The code\<close>

text \<open>
  The loop of \<open>sdssplitlen\<close> over \<open>j\<close>. \<open>slots\<close> is the size of the tokens array, \<open>Inl\<close> the
  jump to \<open>cleanup\<close>. The caller has refused separators shorter than one byte.
\<close>

definition sep_at :: "bytes \<Rightarrow> int \<Rightarrow> bytes \<Rightarrow> int \<Rightarrow> bool cr" where
  "sep_at s j sep seplen =
     cbind (if seplen = 1
            then cbind (mem_get s j) (\<lambda>c. cbind (mem_get sep 0) (\<lambda>d. Ok (c = d)))
            else Ok False) (\<lambda>b.
     if b then Ok True
     else cbind (mem_read s j seplen) (\<lambda>x. cbind (mem_read sep 0 seplen) (\<lambda>y.
          Ok (c_memcmp x y = 0))))"

definition token_put :: "cenv \<Rightarrow> bytes \<Rightarrow> int \<Rightarrow> int \<Rightarrow> int \<Rightarrow> sdshdr list \<Rightarrow> (unit + sdshdr list) cr" where
  "token_put env s start n slots tokens =
     (if slots \<le> int (length tokens) then Flt OutOfBounds
      else if start < 0 \<or> int (length s) < start then Flt OutOfBounds
      else cbind (sdsnewlen env (Some (drop (nat start) s)) (c_size n)) (\<lambda>r.
           Ok (case r of None \<Rightarrow> Inl () | Some t \<Rightarrow> Inr (tokens @ [t]))))"

function split_loop ::
  "cenv \<Rightarrow> bytes \<Rightarrow> int \<Rightarrow> bytes \<Rightarrow> int \<Rightarrow> int \<Rightarrow> int \<Rightarrow> int \<Rightarrow> sdshdr list \<Rightarrow>
   (unit + int \<times> int \<times> sdshdr list) cr" where
  "split_loop env s len sep seplen j start slots tokens =
     (if 1 \<le> seplen \<and> j < len - (seplen - 1) then
        let grow = slots < int (length tokens) + 2;
            slots = (if grow then slots * 2 else slots)
        in if grow \<and> \<not> alloc_ok env (nat (8 * slots)) then Ok (Inl ())
           else
             cbind (sep_at s j sep seplen) (\<lambda>hit.
             if hit then
               cbind (token_put env s start (j - start) slots tokens) (\<lambda>r.
               case r of
                 Inl u \<Rightarrow> Ok (Inl u)
               | Inr tokens \<Rightarrow>
                   split_loop env s len sep seplen (j + seplen - 1 + 1) (j + seplen) slots tokens)
             else split_loop env s len sep seplen (j + 1) start slots tokens)
      else Ok (Inr (start, slots, tokens)))"
  by pat_completeness auto
termination
  by (relation "measure (\<lambda>(env, s, len, sep, seplen, j, start, slots, tokens). nat (len - j))") auto

declare split_loop.simps [simp del]

text \<open>The tokens array and the value stored through \<open>count\<close>, if one is.\<close>

definition sdssplitlen ::
  "cenv \<Rightarrow> bytes \<Rightarrow> int \<Rightarrow> bytes \<Rightarrow> int \<Rightarrow> (sdshdr list option \<times> int option) cr" where
  "sdssplitlen env s len sep seplen =
     (if seplen < 1 \<or> len < 0 then Ok (None, None)
      else if \<not> alloc_ok env (8 * 5) then Ok (None, None)
      else if len = 0 then Ok (Some [], Some 0)
      else
        cbind (split_loop env s len sep seplen 0 0 5 []) (\<lambda>r.
        case r of
          Inl _ \<Rightarrow> Ok (None, Some 0)
        | Inr (start, slots, tokens) \<Rightarrow>
            cbind (token_put env s start (len - start) slots tokens) (\<lambda>r.
            Ok (case r of
                  Inl _ \<Rightarrow> (None, Some 0)
                | Inr tokens \<Rightarrow> (Some tokens, Some (int (length tokens)))))))"

fun join_loop :: "(sds \<Rightarrow> 'a \<Rightarrow> sds cr) \<Rightarrow> (sds \<Rightarrow> sds cr) \<Rightarrow> 'a list \<Rightarrow> sds \<Rightarrow> sds cr" where
  "join_loop add addsep [] join = Ok join"
| "join_loop add addsep (x # xs) join =
     cbind (add join x) (\<lambda>join.
     cbind (if xs \<noteq> [] then addsep join else Ok join) (join_loop add addsep xs))"

definition sdsjoin :: "cenv \<Rightarrow> bytes list \<Rightarrow> bytes \<Rightarrow> int \<Rightarrow> sds cr" where
  "sdsjoin env argv sep seplen =
     cbind (sdsempty env)
       (join_loop (sdscat env) (\<lambda>join. sdscatlen env join sep seplen) argv)"

definition sdsjoinsds :: "cenv \<Rightarrow> sds list \<Rightarrow> bytes \<Rightarrow> int \<Rightarrow> sds cr" where
  "sdsjoinsds env argv sep seplen =
     cbind (sdsempty env)
       (join_loop (sdscatsds env) (\<lambda>join. sdscatlen env join sep seplen) argv)"

section \<open>What they compute\<close>

fun join_bytes :: "bytes \<Rightarrow> bytes list \<Rightarrow> bytes" where
  "join_bytes sep [] = []"
| "join_bytes sep [x] = x"
| "join_bytes sep (x # xs) = x @ sep @ join_bytes sep xs"

text \<open>Reference splitting: cut at every leftmost occurrence; \<open>cur\<close> is the token so far.\<close>

function split_bytes :: "bytes \<Rightarrow> bytes \<Rightarrow> bytes \<Rightarrow> bytes list" where
  "split_bytes sep cur xs =
     (if xs = [] then [cur]
      else if sep \<noteq> [] \<and> prefix sep xs then cur # split_bytes sep [] (drop (length sep) xs)
      else split_bytes sep (cur @ [hd xs]) (tl xs))"
  by pat_completeness auto
termination
  by (relation "measure (\<lambda>(sep, cur, xs). length xs)") (auto simp: length_greater_0_conv [symmetric] simp del: length_greater_0_conv)

declare split_bytes.simps [simp del]

lemma join_bytes_Cons: "xs \<noteq> [] \<Longrightarrow> join_bytes sep (x # xs) = x @ sep @ join_bytes sep xs"
  by (cases xs) auto

lemma split_bytes_nonempty: "split_bytes sep cur xs \<noteq> []"
  by (induction sep cur xs rule: split_bytes.induct) (subst split_bytes.simps, simp)

lemma join_split_bytes: "join_bytes sep (split_bytes sep cur xs) = cur @ xs"
proof (induction sep cur xs rule: split_bytes.induct)
  case (1 sep cur xs)
  consider "xs = []" | "xs \<noteq> []" "sep \<noteq> [] \<and> prefix sep xs" | "xs \<noteq> []" "\<not> (sep \<noteq> [] \<and> prefix sep xs)"
    by blast
  then show ?case
  proof cases
    case 1
    then show ?thesis by (simp add: split_bytes.simps)
  next
    case 2
    then have "sep @ drop (length sep) xs = xs" by (auto simp: prefix_def)
    with 2 "1.IH"(1) show ?thesis
      by (subst split_bytes.simps) (simp add: join_bytes_Cons split_bytes_nonempty)
  next
    case 3
    with "1.IH"(2) show ?thesis by (subst split_bytes.simps) auto
  qed
qed

lemma not_sublistI:
  assumes "sep \<noteq> []" and "\<And>i. i < length t \<Longrightarrow> \<not> prefix sep (drop i t)"
  shows "\<not> sublist sep t"
proof
  assume "sublist sep t"
  then obtain ps ss where t: "t = ps @ sep @ ss" by (auto simp: sublist_def)
  then have "length ps < length t" using assms(1) by simp
  moreover have "prefix sep (drop (length ps) t)" by (simp add: t)
  ultimately show False using assms(2) by blast
qed

lemma split_bytes_no_sep:
  assumes "sep \<noteq> []" and "\<And>i. i < length cur \<Longrightarrow> \<not> prefix sep (drop i cur @ xs)"
  shows "\<forall>t\<in>set (split_bytes sep cur xs). \<not> sublist sep t"
  using assms
proof (induction sep cur xs rule: split_bytes.induct)
  case (1 sep cur xs)
  have cur: "\<not> sublist sep cur"
    using "1.prems" by (intro not_sublistI) (auto dest: prefix_prefix)
  consider "xs = []" | "xs \<noteq> []" "prefix sep xs" | "xs \<noteq> []" "\<not> prefix sep xs"
    by blast
  then show ?case
  proof cases
    case 1
    then show ?thesis using cur by (simp add: split_bytes.simps)
  next
    case 2
    then show ?thesis
      using "1.IH"(1) "1.prems"(1) cur by (subst split_bytes.simps) simp
  next
    case 3
    then obtain y ys where xs: "xs = y # ys" by (cases xs) auto
    have "\<not> prefix sep (drop i (cur @ [y]) @ ys)" if "i < length (cur @ [y])" for i
      using that 3 "1.prems"(2) [of i] by (cases "i = length cur") (auto simp: xs)
    then show ?thesis
      using "1.IH"(2) "1.prems"(1) 3 by (subst split_bytes.simps) (simp add: xs)
  qed
qed

lemma split_bytes_short:
  "length xs < length sep \<Longrightarrow> split_bytes sep cur xs = [cur @ xs]"
proof (induction xs arbitrary: cur)
  case Nil
  then show ?case by (simp add: split_bytes.simps)
next
  case (Cons x xs)
  then have "\<not> prefix sep (x # xs)" by (auto dest: prefix_length_le)
  with Cons show ?case by (subst split_bytes.simps) simp
qed

section \<open>The loop refines the reference splitting\<close>

lemma c_memcmp_prefix:
  "length sep \<le> length ys \<Longrightarrow> c_memcmp (take (length sep) ys) sep = 0 \<longleftrightarrow> prefix sep ys"
  using c_memcmp_eq_0 [of "take (length sep) ys" sep]
  by (auto simp: take_is_prefix prefix_def) (metis append_take_drop_id)

lemma sep_at_eq:
  assumes "j + length sep \<le> n" and "n \<le> length s" and "sep \<noteq> []"
  shows "sep_at s (int j) sep (int (length sep)) = Ok (prefix sep (drop j (take n s)))"
proof -
  let ?x = "take (length sep) (drop j s)"
  have r: "mem_read s (int j) (int (length sep)) = Ok ?x" "mem_read sep 0 (int (length sep)) = Ok sep"
    using assms by (simp_all add: mem_read_def)
  have t: "take (length sep) (drop j (take n s)) = ?x"
    using assms(1) by (simp add: drop_take min_def)
  have "c_memcmp ?x sep = 0 \<longleftrightarrow> prefix sep (drop j (take n s))"
    using c_memcmp_prefix [of sep "drop j (take n s)"] assms t by simp
  moreover have "prefix sep (drop j (take n s))" if "length sep = 1" "s ! j = sep ! 0"
  proof -
    from that obtain c where "sep = [c]" by (cases sep) auto
    moreover have "drop j (take n s) = s ! j # drop (Suc j) (take n s)"
      using assms \<open>sep = [c]\<close> by (simp add: Cons_nth_drop_Suc [symmetric])
    ultimately show ?thesis using that by simp
  qed
  ultimately show ?thesis
    using r assms by (auto simp: sep_at_def mem_get_def)
qed

lemma token_put_runs:
  assumes "start + k \<le> length s" and "k < 2 ^ 31 - 16" and "int (length tokens) < slots"
  shows "runs (token_put env s (int start) (int k) slots tokens)
           (\<lambda>r. case r of Inl _ \<Rightarrow> \<not> grants_all env
                | Inr tk \<Rightarrow> \<exists>t. tk = tokens @ [t] \<and> sds_rep t (take k (drop start s)))"
  using assms sdsnewlen_copy [of k "drop start s" env]
  by (auto simp: token_put_def c_size_id intro!: sds_repI)

lemma drop_take_drop:
  "start \<le> j \<Longrightarrow> j \<le> length xs \<Longrightarrow> drop start (take j xs) @ drop j xs = drop start xs"
  by (metis append_take_drop_id diff_is_0_eq drop0 drop_append length_take min.absorb2)

text \<open>What the loop leaves: the tokens so far and where the last one starts.\<close>

definition split_post ::
  "cenv \<Rightarrow> bytes \<Rightarrow> bytes list \<Rightarrow> (unit + int \<times> int \<times> sdshdr list) \<Rightarrow> bool" where
  "split_post env xs all r \<longleftrightarrow>
     (case r of
        Inl _ \<Rightarrow> \<not> grants_all env
      | Inr (st, sl, tk) \<Rightarrow> \<exists>st' ts'. st = int st' \<and> st' \<le> length xs \<and> list_all2 sds_rep tk ts' \<and>
          int (length tk) < sl \<and> ts' @ [drop st' xs] = all)"

lemma split_post_Inl [simp]: "split_post env xs all (Inl u) \<longleftrightarrow> \<not> grants_all env"
  by (simp add: split_post_def)

lemma split_post_InrI:
  "list_all2 sds_rep tk ts' \<Longrightarrow> int (length tk) < sl \<Longrightarrow> st' \<le> length xs \<Longrightarrow>
   ts' @ [drop st' xs] = all \<Longrightarrow> split_post env xs all (Inr (int st', sl, tk))"
  by (auto simp: split_post_def)

lemma split_loop_runs:
  assumes "start \<le> j" and "j \<le> length xs" and "xs = take n s" and "n \<le> length s"
    and "n < 2 ^ 31 - 16" and "sep \<noteq> []"
    and "list_all2 sds_rep tokens ts" and "int (length tokens) < slots"
  shows "runs (split_loop env s (int n) sep (int (length sep)) (int j) (int start) slots tokens)
           (split_post env xs (ts @ split_bytes sep (drop start (take j xs)) (drop j xs)))"
  using assms(1,2,7,8)
proof (induction "n - j" arbitrary: j start slots tokens ts rule: less_induct)
  case less
  have n: "length xs = n" using assms by simp
  let ?m = "length sep" and ?cur = "drop start (take j xs)"
  have m: "1 \<le> ?m" using assms(6) by (simp add: Suc_le_eq)
  have cur: "?cur @ drop j xs = drop start xs"
    using less.prems by (intro drop_take_drop)
  show ?case
  proof (cases "j + ?m \<le> n")
    case False
    then have "split_bytes sep ?cur (drop j xs) = [drop start xs]"
      using less.prems n m by (subst split_bytes_short) (auto simp: cur)
    then show ?thesis
      using False less.prems m n by (subst split_loop.simps) (auto intro!: split_post_InrI)
  next
    case True
    define slots' where "slots' = (if slots < int (length tokens) + 2 then slots * 2 else slots)"
    have room: "int (length tokens) + 1 < slots'"
      using less.prems(4) by (auto simp: slots'_def)
    have hit: "sep_at s (int j) sep (int ?m) = Ok (prefix sep (drop j xs))"
      using True assms by (simp add: sep_at_eq)
    have ne: "drop j xs \<noteq> []" using True m n by simp
    show ?thesis
    proof (cases "slots < int (length tokens) + 2 \<and> \<not> alloc_ok env (nat (8 * slots'))")
      case refused: True
      then have "\<not> grants_all env" and "\<not> alloc_ok env (nat (16 * slots))"
        by (auto simp: slots'_def)
      with \<open>j + ?m \<le> n\<close> m refused show ?thesis
        by (subst split_loop.simps) (simp add: Let_def)
    next
      case granted: False
      show ?thesis
      proof (cases "prefix sep (drop j xs)")
        case False
        have step: "?cur @ [hd (drop j xs)] = drop start (take (Suc j) xs)"
          using True m n less.prems(1) by (simp add: take_Suc_conv_app_nth hd_drop_conv_nth)
        have "split_bytes sep ?cur (drop j xs) =
            split_bytes sep (drop start (take (Suc j) xs)) (drop (Suc j) xs)"
          using False ne step by (subst split_bytes.simps) (simp add: tl_drop drop_Suc)
        moreover have "runs (split_loop env s (int n) sep (int ?m) (int (Suc j)) (int start) slots' tokens)
            (split_post env xs (ts @ split_bytes sep (drop start (take (Suc j) xs)) (drop (Suc j) xs)))"
          using True m less.prems room n by (intro less.hyps) auto
        ultimately show ?thesis
          using True m granted hit False
          by (subst split_loop.simps) (auto simp: slots'_def [symmetric] Let_def add.commute)
      next
        case pre: True
        have sp: "split_bytes sep ?cur (drop j xs) = ?cur # split_bytes sep [] (drop (j + ?m) xs)"
          using pre ne assms(6) by (subst split_bytes.simps) (simp add: add.commute)
        have tok: "take (j - start) (drop start s) = ?cur"
          using less.prems n assms(3) by (simp add: drop_take min_def)
        have k: "int j - int start = int (j - start)" using less.prems(1) by simp
        have "start + (j - start) \<le> length s" "j - start < 2 ^ 31 - 16" "int (length tokens) < slots'"
          using less.prems room n assms by auto
        note put = token_put_runs [OF this, of env, unfolded tok]
        have rec: "runs (split_loop env s (int n) sep (int ?m) (int (j + ?m)) (int (j + ?m)) slots' (tokens @ [t]))
            (split_post env xs (ts @ split_bytes sep ?cur (drop j xs)))"
          if "sds_rep t ?cur" for t
        proof -
          have "list_all2 sds_rep (tokens @ [t]) (ts @ [?cur])"
            using less.prems(3) that by (simp add: list_all2_appendI)
          then have "runs (split_loop env s (int n) sep (int ?m) (int (j + ?m)) (int (j + ?m)) slots' (tokens @ [t]))
              (split_post env xs ((ts @ [?cur]) @
                 split_bytes sep (drop (j + ?m) (take (j + ?m) xs)) (drop (j + ?m) xs)))"
            using True m less.prems room n by (intro less.hyps) auto
          then show ?thesis by (simp add: sp)
        qed
        have "runs (token_put env s (int start) (int j - int start) slots' tokens)
            (\<lambda>r. runs (case r of Inl u \<Rightarrow> Ok (Inl ())
                 | Inr tk \<Rightarrow> split_loop env s (int n) sep (int ?m) (int j + int ?m) (int j + int ?m) slots' tk)
               (split_post env xs (ts @ split_bytes sep ?cur (drop j xs))))"
          unfolding k by (rule runs_mono [OF put]) (auto split: sum.splits intro: rec [unfolded of_nat_add])
        then show ?thesis
          using True m granted hit pre
          by (subst split_loop.simps) (auto simp: slots'_def [symmetric] Let_def runs_cbind)
      qed
    qed
  qed
qed

text \<open>
  \<open>sdssplitlen\<close> on the first \<open>n\<close> bytes of a block: NULL only when the allocator refuses, else
  the tokens of the reference splitting; the tokens array is never overrun.
\<close>

definition split_result :: "cenv \<Rightarrow> bytes list \<Rightarrow> sdshdr list option \<times> int option \<Rightarrow> bool" where
  "split_result env ts r \<longleftrightarrow>
     (case fst r of
        None \<Rightarrow> \<not> grants_all env
      | Some tk \<Rightarrow> list_all2 sds_rep tk ts \<and> snd r = Some (int (length tk)))"

lemma sdssplitlen_runs:
  assumes "n \<le> length s" and "0 < n" and "n < 2 ^ 31 - 16" and "sep \<noteq> []"
  shows "runs (sdssplitlen env s (int n) sep (int (length sep)))
           (split_result env (split_bytes sep [] (take n s)))"
proof (cases "alloc_ok env 40")
  case False
  then show ?thesis
    using assms by (auto simp: sdssplitlen_def Suc_le_eq not_less split_result_def)
next
  case True
  let ?all = "split_bytes sep [] (take n s)"
  have m: "1 \<le> length sep" using assms(4) by (simp add: Suc_le_eq)
  have loop: "runs (split_loop env s (int n) sep (int (length sep)) 0 0 5 [])
      (split_post env (take n s) ?all)"
    using split_loop_runs [of 0 0 "take n s" n s sep "[]" "[]" 5 env] assms by simp
  have last: "runs (case r of
        Inl _ \<Rightarrow> Ok (None, Some 0)
      | Inr (start, slots, tokens) \<Rightarrow>
          cbind (token_put env s start (int n - start) slots tokens) (\<lambda>r.
          Ok (case r of Inl _ \<Rightarrow> (None, Some 0)
              | Inr tokens \<Rightarrow> (Some tokens, Some (int (length tokens))))))
      (split_result env ?all)"
    if post: "split_post env (take n s) ?all r" for r
  proof (cases r)
    case (Inl u)
    with post show ?thesis by (simp add: split_result_def)
  next
    case (Inr x)
    with post obtain st' ts' sl tk where r: "r = Inr (int st', sl, tk)" and le: "st' \<le> n"
      and rep: "list_all2 sds_rep tk ts'" and room: "int (length tk) < sl"
      and all: "ts' @ [drop st' (take n s)] = ?all"
      using assms(1) by (auto simp: split_post_def)
    have "st' + (n - st') \<le> length s" "n - st' < 2 ^ 31 - 16"
      using le assms by auto
    from token_put_runs [OF this room, of env]
    have "runs (token_put env s (int st') (int n - int st') sl tk)
        (\<lambda>q. split_result env ?all (case q of Inl _ \<Rightarrow> (None, Some 0)
            | Inr tokens \<Rightarrow> (Some tokens, Some (int (length tokens)))))"
      unfolding of_nat_diff [OF le]
      by (rule runs_mono)
         (auto split: sum.splits simp: split_result_def all [symmetric] drop_take
            intro!: list_all2_appendI [OF rep])
    then show ?thesis by (simp add: r runs_cbind)
  qed
  show ?thesis
    using assms True m runs_mono [OF loop last]
    by (simp add: sdssplitlen_def runs_cbind)
qed

text \<open>Joining is \<open>join_bytes\<close>, as long as the whole result stays below the growth bound.\<close>

lemma length_join_bytes: "length (join_bytes sep (x # xs)) = length x + (\<Sum>y\<leftarrow>xs. length sep + length y)"
  by (induction xs arbitrary: x) auto

lemma join_loop_runs:
  assumes "\<And>sh c x. sds_rep sh c \<Longrightarrow> x \<in> set ks \<Longrightarrow> length c + length (val x) < 2 ^ 30 \<Longrightarrow>
             runs (add (Some sh) x) (sds_result env (c @ val x))"
    and "sds_rep sh c" and "grants_all env" and "length c + length (join_bytes sep (map val ks)) < 2 ^ 30"
  shows "runs (join_loop add (\<lambda>j. sdscatlen env j sep (int (length sep))) ks (Some sh))
           (sds_result env (c @ join_bytes sep (map val ks)))"
  using assms(1,2,4)
proof (induction ks arbitrary: sh c)
  case Nil
  then show ?case by simp
next
  case (Cons x ks)
  note add = Cons.prems(1)
  have b: "length c + length (val x) < 2 ^ 30"
    using Cons.prems(3) by (simp add: length_join_bytes)
  from add [OF Cons.prems(2) _ b] obtain s1 where s1: "add (Some sh) x = Ok (Some s1)"
    and r1: "sds_rep s1 (c @ val x)"
    using assms(3) by (auto elim: sds_result_grants)
  show ?case
  proof (cases ks)
    case Nil
    then show ?thesis using s1 r1 by simp
  next
    case (Cons y ys)
    then have len: "length (c @ val x @ sep) + length (join_bytes sep (map val ks)) < 2 ^ 30"
      using Cons.prems(3) by simp
    then have "length (c @ val x) + length sep < 2 ^ 30" by simp
    from sdscatlen_runs [OF r1 order_refl this, of env] obtain s2
      where s2: "sdscatlen env (Some s1) sep (int (length sep)) = Ok (Some s2)"
        and r2: "sds_rep s2 (c @ val x @ sep)"
      using assms(3) by (auto elim: sds_result_grants)
    have "runs (join_loop add (\<lambda>j. sdscatlen env j sep (int (length sep))) ks (Some s2))
           (sds_result env ((c @ val x @ sep) @ join_bytes sep (map val ks)))"
      using add len by (intro Cons.IH r2) auto
    then show ?thesis using s1 s2 Cons by simp
  qed
qed

lemma sdsjoin_runs:
  assumes "\<forall>t\<in>set ts. NUL \<notin> set t" and "argv = map (\<lambda>t. t @ [NUL]) ts"
    and "grants_all env" and "length (join_bytes sep ts) < 2 ^ 30"
  shows "runs (sdsjoin env argv sep (int (length sep))) (sds_result env (join_bytes sep ts))"
proof -
  have val: "map (\<lambda>k. takeWhile (\<lambda>c. c \<noteq> NUL) k) argv = ts"
    using assms(1) unfolding assms(2) by (induction ts) (auto simp: takeWhile_NUL)
  have "runs (join_loop (sdscat env) (\<lambda>j. sdscatlen env j sep (int (length sep))) argv
            (Some (sds_of [] [])))
          (sds_result env ([] @ join_bytes sep (map (\<lambda>k. takeWhile (\<lambda>c. c \<noteq> NUL) k) argv)))"
  proof (rule join_loop_runs)
    fix sh c x
    assume "sds_rep sh c" and x: "x \<in> set argv"
      and len: "length c + length (takeWhile (\<lambda>c. c \<noteq> NUL) x) < 2 ^ 30"
    from x assms(1,2) obtain t where "x = t @ NUL # []" and "NUL \<notin> set t" by auto
    with \<open>sds_rep sh c\<close> len show "runs (sdscat env (Some sh) x)
        (sds_result env (c @ takeWhile (\<lambda>c. c \<noteq> NUL) x))"
      using sdscat_runs [of sh c t env "[]"] by (simp add: takeWhile_NUL)
  qed (use assms val in auto)
  then show ?thesis
    using assms(3) by (simp add: sdsjoin_def sdsempty_eq val)
qed

lemma sdsjoinsds_runs:
  assumes "list_all2 sds_rep tk ts" and "grants_all env" and "length (join_bytes sep ts) < 2 ^ 30"
  shows "runs (sdsjoinsds env (map Some tk) sep (int (length sep))) (sds_result env (join_bytes sep ts))"
proof -
  define val :: "sds \<Rightarrow> bytes" where "val = (\<lambda>k. THE xs. sds_rep (the k) xs)"
  have the: "val (Some h) = xs" if "sds_rep h xs" for h xs
    unfolding val_def using that by (auto intro: sds_rep_unique)
  have val: "map val (map Some tk) = ts"
    using assms(1) by (induction rule: list_all2_induct) (auto simp: the)
  have "runs (join_loop (sdscatsds env) (\<lambda>j. sdscatlen env j sep (int (length sep))) (map Some tk)
            (Some (sds_of [] [])))
          (sds_result env ([] @ join_bytes sep (map val (map Some tk))))"
  proof (rule join_loop_runs)
    fix sh c x
    assume c: "sds_rep sh c" and x: "x \<in> set (map Some tk)" and len: "length c + length (val x) < 2 ^ 30"
    from x obtain h where h: "x = Some h" "h \<in> set tk" by auto
    with assms(1) obtain xs where "sds_rep h xs"
      by (metis in_set_conv_nth list_all2_conv_all_nth)
    note h(1) this
    then show "runs (sdscatsds env (Some sh) x) (sds_result env (c @ val x))"
      using c len by (auto simp: the intro: sdscatsds_runs)
  qed (use assms val in auto)
  then show ?thesis
    unfolding val using assms(2) by (simp add: sdsjoinsds_def sdsempty_eq)
qed

end
