(* ===== verification/Sds_Repr.thy ===== *)
theory Sds_Repr
  imports Sds_Text "HOL-Library.Sublist"
begin

text \<open>
  \<open>src/src/sds.c\<close>: numbers (\<open>sdsfromlonglong\<close>), formatted append (\<open>sdscatvprintf\<close>), the
  printable representation of a string (\<open>sdscatrepr\<close>) and the splitter of command lines
  (\<open>sdssplitargs\<close>). The main result is that the splitter reads back what the representation
  writes, for every byte string.
\<close>

section \<open>Numbers\<close>

text \<open>The digit loop writes backwards from the end of a 32-byte buffer.\<close>

function ll_digits :: "bytes \<Rightarrow> int \<Rightarrow> nat \<Rightarrow> (bytes \<times> int) cr" where
  "ll_digits buf p v =
     cbind (mem_write buf p [digit_char (v mod 10)]) (\<lambda>buf.
     if v div 10 \<noteq> 0 then ll_digits buf (p - 1) (v div 10) else Ok (buf, p - 1))"
  by pat_completeness auto
termination by (relation "measure (\<lambda>(buf, p, v). v)") auto

declare ll_digits.simps [simp del]

definition sdsfromlonglong :: "cenv \<Rightarrow> int \<Rightarrow> sds cr" where
  "sdsfromlonglong env value =
     cbind (if value < 0 then s_llong (- value) else Ok value) (\<lambda>v.
     cbind (ll_digits (map (junk env) [0..<32]) 31 (nat v)) (\<lambda>(buf, p).
     cbind (if value < 0
            then cbind (mem_write buf p [CHR ''-'']) (\<lambda>buf. Ok (buf, p - 1))
            else Ok (buf, p)) (\<lambda>(buf, p).
     let p = p + 1 in
     if p < 0 \<or> 32 < p then Flt OutOfBounds
     else sdsnewlen env (Some (drop (nat p) buf)) (32 - p))))"

section \<open>Formatted append\<close>

text \<open>
  \<open>out\<close> is what the format and its arguments print in full. The buffer doubles until its last
  byte but one was not overwritten; \<open>vsnprintf\<close> writes at most \<open>buflen - 1\<close> bytes and a
  terminator.
\<close>

definition c_vsnprintf :: "bytes \<Rightarrow> int \<Rightarrow> bytes \<Rightarrow> bytes cr" where
  "c_vsnprintf buf n out = mem_write buf 0 (take (nat (n - 1)) out @ [NUL])"

lemma c_vsnprintf_overrun:
  assumes "mem_write buf (n - 2) [NUL] = Ok b1" and "c_vsnprintf b1 n out = Ok b2"
    and "mem_get b2 (n - 2) = Ok c" and "c \<noteq> NUL"
  shows "2 \<le> n \<and> n - 2 < int (length out)"
proof -
  from assms(1) have n: "2 \<le> n" "n - 1 \<le> int (length buf)"
    and b1: "b1 = take (nat (n - 2)) buf @ NUL # drop (Suc (nat (n - 2))) buf"
    by (auto simp: mem_write_def split: if_splits)
  define k where "k = nat (n - 2)"
  have k: "n = int k + 2" "k < length buf" using n by (simp_all add: k_def)
  have len: "length b1 = length buf" and b1k: "b1 ! k = NUL"
    using k by (simp_all add: b1 k_def [symmetric] nth_append)
  have "int k < int (length out)"
  proof (rule ccontr)
    assume "\<not> int k < int (length out)"
    then have "length out \<le> k" by simp
    with assms(2) k len have "b2 = out @ NUL # drop (Suc (length out)) b1"
      by (auto simp: c_vsnprintf_def mem_write_def nat_add_distrib split: if_splits)
    with \<open>length out \<le> k\<close> k len b1k have "b2 ! k = NUL"
      by (cases "length out = k") (auto simp: nth_append nth_Cons' less_diff_conv)
    with assms(3,4) k show False by (auto simp: mem_get_def split: if_splits)
  qed
  with n k show ?thesis by simp
qed

function vprintf_loop :: "cenv \<Rightarrow> int \<Rightarrow> bytes \<Rightarrow> bytes option cr" where
  "vprintf_loop env buflen out =
     (case c_malloc env buflen of
        None \<Rightarrow> Ok None
      | Some buf \<Rightarrow>
          cbind (mem_write buf (buflen - 2) [NUL]) (\<lambda>buf.
          cbind (c_vsnprintf buf buflen out) (\<lambda>buf.
          cbind (mem_get buf (buflen - 2)) (\<lambda>c.
          if c \<noteq> NUL then vprintf_loop env (buflen * 2) out
          else Ok (Some buf)))))"
  by pat_completeness auto
termination
  by (relation "measure (\<lambda>(env, n, out). nat (int (length out) + 2 - n))")
     (auto dest: c_vsnprintf_overrun)

declare vprintf_loop.simps [simp del]

definition sdscatvprintf :: "cenv \<Rightarrow> sds \<Rightarrow> bytes \<Rightarrow> sds cr" where
  "sdscatvprintf env s out =
     cbind (vprintf_loop env 16 out) (\<lambda>r.
     case r of None \<Rightarrow> Ok None | Some buf \<Rightarrow> sdscat env s buf)"

definition sdscatprintf :: "cenv \<Rightarrow> sds \<Rightarrow> bytes \<Rightarrow> sds cr" where
  "sdscatprintf env s out = sdscatvprintf env s out"

section \<open>Printable representation\<close>

abbreviation BSL :: char where "BSL \<equiv> CHR 0x5C"
abbreviation DQ :: char where "DQ \<equiv> CHR 0x22"
abbreviation SQ :: char where "SQ \<equiv> CHR 0x27"

definition sdscatrepr_char :: "cenv \<Rightarrow> sds \<Rightarrow> char \<Rightarrow> sds cr" where
  "sdscatrepr_char env s c =
     (if c = BSL \<or> c = DQ then sdscatprintf env s [BSL, c]
      else if c = LF then sdscatlen env s [BSL, CHR ''n''] 2
      else if c = CR then sdscatlen env s [BSL, CHR ''r''] 2
      else if c = CHR 0x09 then sdscatlen env s [BSL, CHR ''t''] 2
      else if c = CHR 0x07 then sdscatlen env s [BSL, CHR ''a''] 2
      else if c = CHR 0x08 then sdscatlen env s [BSL, CHR ''b''] 2
      else if c_isprint c then sdscatprintf env s [c]
      else sdscatprintf env s ([BSL, CHR ''x''] @ hex02 c))"

fun sdscatrepr_loop :: "cenv \<Rightarrow> sds \<Rightarrow> bytes \<Rightarrow> sds cr" where
  "sdscatrepr_loop env s [] = Ok s"
| "sdscatrepr_loop env s (c # p) = cbind (sdscatrepr_char env s c) (\<lambda>s. sdscatrepr_loop env s p)"

definition sdscatrepr :: "cenv \<Rightarrow> sds \<Rightarrow> bytes \<Rightarrow> int \<Rightarrow> sds cr" where
  "sdscatrepr env s p len =
     cbind (sdscatlen env s [DQ] 1) (\<lambda>s.
     cbind (mem_read p 0 len) (\<lambda>p.
     cbind (sdscatrepr_loop env s p) (\<lambda>s.
     sdscatlen env s [DQ] 1)))"

section \<open>Splitting a command line\<close>

definition is_hex_digit :: "char \<Rightarrow> bool" where
  "is_hex_digit c \<longleftrightarrow>
     (let n = (of_char c :: nat) in 48 \<le> n \<and> n \<le> 57 \<or> 97 \<le> n \<and> n \<le> 102 \<or> 65 \<le> n \<and> n \<le> 70)"

definition hex_digit_to_int :: "char \<Rightarrow> nat" where
  "hex_digit_to_int c =
     (let n = (of_char c :: nat)
      in if 48 \<le> n \<and> n \<le> 57 then n - 48
         else if 97 \<le> n \<and> n \<le> 102 then n - 87
         else if 65 \<le> n \<and> n \<le> 70 then n - 55 else 0)"

text \<open>The line from the read position on, with its terminator; \<open>peek p i\<close> is \<open>*(p + i)\<close>.\<close>

definition peek :: "bytes \<Rightarrow> nat \<Rightarrow> char cr" where
  "peek p i = (if i < length p then Ok (p ! i) else Flt OutOfBounds)"

fun skip_blanks :: "bytes \<Rightarrow> bytes" where
  "skip_blanks [] = []"
| "skip_blanks (c # p) = (if c \<noteq> NUL \<and> c_isspace c then skip_blanks p else c # p)"

text \<open>A hexadecimal escape at the read position, reading no further than the code does.\<close>

definition hex_escape :: "bytes \<Rightarrow> char option cr" where
  "hex_escape p =
     cbind (peek p 0) (\<lambda>c0. if c0 \<noteq> BSL then Ok None else
     cbind (peek p 1) (\<lambda>c1. if c1 \<noteq> CHR ''x'' then Ok None else
     cbind (peek p 2) (\<lambda>c2. if \<not> is_hex_digit c2 then Ok None else
     cbind (peek p 3) (\<lambda>c3. if \<not> is_hex_digit c3 then Ok None else
     Ok (Some (char_of (hex_digit_to_int c2 * 16 + hex_digit_to_int c3)))))))"

definition unescape :: "char \<Rightarrow> char" where
  "unescape c =
     (if c = CHR ''n'' then LF else if c = CHR ''r'' then CR else if c = CHR ''t'' then CHR 0x09
      else if c = CHR ''b'' then CHR 0x08 else if c = CHR ''a'' then CHR 0x07 else c)"

text \<open>
  One turn of the token loop: the position it leaves the pointer at before the final
  \<open>if (*p) p++\<close>, the token so far and the loop flags, or the jump to \<open>err\<close>.
\<close>

record arg_state =
  as_p :: bytes
  as_current :: sds
  as_inq :: bool
  as_insq :: bool
  as_done :: bool

definition closing_quote_ok :: "bytes \<Rightarrow> bool cr" where
  "closing_quote_ok p = cbind (peek p 1) (\<lambda>d. Ok (d = NUL \<or> c_isspace d))"

definition arg_inq :: "cenv \<Rightarrow> arg_state \<Rightarrow> (unit + arg_state) cr" where
  "arg_inq env st =
     (let p = as_p st; current = as_current st in
      cbind (peek p 0) (\<lambda>c.
      cbind (hex_escape p) (\<lambda>h.
      case h of
        Some byte \<Rightarrow>
          cbind (sdscatlen env current [byte] 1) (\<lambda>s.
          Ok (Inr (st\<lparr>as_p := drop 3 p, as_current := s\<rparr>)))
      | None \<Rightarrow>
          cbind (if c = BSL then cbind (peek p 1) (\<lambda>d. Ok (d \<noteq> NUL)) else Ok False) (\<lambda>esc.
          if esc then
            cbind (peek p 1) (\<lambda>d.
            cbind (sdscatlen env current [unescape d] 1) (\<lambda>s.
            Ok (Inr (st\<lparr>as_p := drop 1 p, as_current := s\<rparr>))))
          else if c = DQ then
            cbind (closing_quote_ok p) (\<lambda>ok.
            Ok (if ok then Inr (st\<lparr>as_done := True\<rparr>) else Inl ()))
          else if c = NUL then Ok (Inl ())
          else cbind (sdscatlen env current p 1) (\<lambda>s. Ok (Inr (st\<lparr>as_current := s\<rparr>)))))))"

definition arg_insq :: "cenv \<Rightarrow> arg_state \<Rightarrow> (unit + arg_state) cr" where
  "arg_insq env st =
     (let p = as_p st; current = as_current st in
      cbind (peek p 0) (\<lambda>c.
      cbind (if c = BSL then cbind (peek p 1) (\<lambda>d. Ok (d = SQ)) else Ok False) (\<lambda>esc.
      if esc then
        cbind (sdscatlen env current [SQ] 1) (\<lambda>s.
        Ok (Inr (st\<lparr>as_p := drop 1 p, as_current := s\<rparr>)))
      else if c = SQ then
        cbind (closing_quote_ok p) (\<lambda>ok.
        Ok (if ok then Inr (st\<lparr>as_done := True\<rparr>) else Inl ()))
      else if c = NUL then Ok (Inl ())
      else cbind (sdscatlen env current p 1) (\<lambda>s. Ok (Inr (st\<lparr>as_current := s\<rparr>))))))"

definition arg_plain :: "cenv \<Rightarrow> arg_state \<Rightarrow> (unit + arg_state) cr" where
  "arg_plain env st =
     (let p = as_p st; current = as_current st in
      cbind (peek p 0) (\<lambda>c.
      if c \<in> {CHR '' '', LF, CR, CHR 0x09, NUL} then Ok (Inr (st\<lparr>as_done := True\<rparr>))
      else if c = DQ then Ok (Inr (st\<lparr>as_inq := True\<rparr>))
      else if c = SQ then Ok (Inr (st\<lparr>as_insq := True\<rparr>))
      else cbind (sdscatlen env current p 1) (\<lambda>s. Ok (Inr (st\<lparr>as_current := s\<rparr>)))))"

definition arg_turn :: "cenv \<Rightarrow> arg_state \<Rightarrow> (unit + arg_state) cr" where
  "arg_turn env st =
     cbind (if as_inq st then arg_inq env st
            else if as_insq st then arg_insq env st else arg_plain env st) (\<lambda>r.
     case r of
       Inl u \<Rightarrow> Ok (Inl u)
     | Inr st \<Rightarrow>
         cbind (peek (as_p st) 0) (\<lambda>c.
         Ok (Inr (if c \<noteq> NUL then st\<lparr>as_p := drop 1 (as_p st)\<rparr> else st))))"

text \<open>The read position only moves forward, and every turn either moves it or ends the token.\<close>

definition arg_moves :: "arg_state \<Rightarrow> unit + arg_state \<Rightarrow> bool" where
  "arg_moves st r \<longleftrightarrow> (\<forall>st'. r = Inr st' \<longrightarrow> as_p st \<noteq> [] \<and> suffix (as_p st') (as_p st) \<and>
     (hd (as_p st) = NUL \<longrightarrow> as_done st'))"

lemma arg_moves_simps [simp]:
  "arg_moves st (Inl u)"
  "arg_moves st (Inr st') \<longleftrightarrow> as_p st \<noteq> [] \<and> suffix (as_p st') (as_p st) \<and>
     (hd (as_p st) = NUL \<longrightarrow> as_done st')"
  by (simp_all add: arg_moves_def)

lemma peek_0: "peek p 0 = Ok c \<longleftrightarrow> p \<noteq> [] \<and> c = hd p"
  by (auto simp: peek_def hd_conv_nth)

lemma wlp_peek_0 [simp]: "wlp (peek p 0) P \<longleftrightarrow> (p \<noteq> [] \<longrightarrow> P (hd p))"
  by (auto simp: wlp_def peek_0)

lemma hex_escape_BSL: "hex_escape p = Ok (Some byte) \<Longrightarrow> p \<noteq> [] \<and> hd p = BSL"
  by (auto simp: hex_escape_def cr_simps peek_0 split: if_splits)

lemma arg_inq_moves: "wlp (arg_inq env st) (arg_moves st)"
  by (auto simp: arg_inq_def Let_def suffix_drop split: option.split
      intro!: wlpI [of "hex_escape _"] wlpI [of "sdscatlen _ _ _ _"] wlpI [of "peek _ (Suc 0)"]
        wlpI [of "closing_quote_ok _"] dest: hex_escape_BSL)

lemma arg_insq_moves: "wlp (arg_insq env st) (arg_moves st)"
  by (auto simp: arg_insq_def Let_def suffix_drop
      intro!: wlpI [of "sdscatlen _ _ _ _"] wlpI [of "peek _ (Suc 0)"] wlpI [of "closing_quote_ok _"])

lemma arg_plain_moves: "wlp (arg_plain env st) (arg_moves st)"
  by (auto simp: arg_plain_def Let_def intro!: wlpI [of "sdscatlen _ _ _ _"])

lemma arg_turn_progress:
  assumes "arg_turn env st = Ok (Inr st')"
  shows "length (as_p st') \<le> length (as_p st)"
    and "hd (as_p st) \<noteq> NUL \<Longrightarrow> length (as_p st') < length (as_p st)"
    and "as_done st' \<or> length (as_p st') < length (as_p st)"
proof -
  let ?p = "as_p st"
  have body: "wlp (if as_inq st then arg_inq env st
            else if as_insq st then arg_insq env st else arg_plain env st) (arg_moves st)"
    by (simp add: arg_inq_moves arg_insq_moves arg_plain_moves)
  from assms obtain r where r: "(if as_inq st then arg_inq env st
            else if as_insq st then arg_insq env st else arg_plain env st) = Ok r"
    and post: "(case r of Inl u \<Rightarrow> Ok (Inl u) | Inr st \<Rightarrow> cbind (peek (as_p st) 0) (\<lambda>c.
         Ok (Inr (if c \<noteq> NUL then st\<lparr>as_p := drop 1 (as_p st)\<rparr> else st)))) = Ok (Inr st')"
    unfolding arg_turn_def cbind_eq_Ok by blast
  from post obtain st1 where st1: "r = Inr st1" by (cases r) auto
  with wlpD [OF body r] obtain k where k: "as_p st1 = drop k ?p" and ne: "?p \<noteq> []"
    and don: "hd ?p = NUL \<longrightarrow> as_done st1"
    by (auto simp: suffix_def intro: that [of "length (as_p st) - length (as_p st1)"])
  from post st1 k have lt: "k < length ?p"
    and eq: "st' = (if hd (drop k ?p) \<noteq> NUL then st1\<lparr>as_p := drop 1 (drop k ?p)\<rparr> else st1)"
    by (auto simp: cr_simps peek_0)
  show "length (as_p st') \<le> length ?p"
    using lt k eq by auto
  have k0: "hd ?p \<noteq> NUL \<Longrightarrow> length (as_p st') < length ?p"
    using lt k eq by (cases k) auto
  then show "hd ?p \<noteq> NUL \<Longrightarrow> length (as_p st') < length ?p" .
  show "as_done st' \<or> length (as_p st') < length ?p"
    using k0 don eq by auto
qed

function arg_loop :: "cenv \<Rightarrow> arg_state \<Rightarrow> (unit + arg_state) cr" where
  "arg_loop env st =
     (if as_done st then Ok (Inr st)
      else cbind (arg_turn env st) (\<lambda>r.
           case r of Inl u \<Rightarrow> Ok (Inl u) | Inr st \<Rightarrow> arg_loop env st))"
  by pat_completeness auto
termination
  by (relation "measure (\<lambda>(env, st). 2 * length (as_p st) + (if as_done st then 0 else 1))")
     (auto dest: arg_turn_progress(1,3))

declare arg_loop.simps [simp del]

lemma arg_loop_done: "as_done st \<Longrightarrow> arg_loop env st = Ok (Inr st)"
  by (simp add: arg_loop.simps)

lemma arg_loop_turn:
  "\<not> as_done st \<Longrightarrow> arg_loop env st =
   cbind (arg_turn env st) (\<lambda>r. case r of Inl u \<Rightarrow> Ok (Inl u) | Inr st \<Rightarrow> arg_loop env st)"
  by (subst arg_loop.simps) simp

lemma arg_loop_InrE:
  assumes "arg_loop env st = Ok (Inr st')"
  obtains (stop) "as_done st" "st' = st"
  | (turn) st1 where "\<not> as_done st" "arg_turn env st = Ok (Inr st1)" "arg_loop env st1 = Ok (Inr st')"
proof (cases "as_done st")
  case True
  with assms show ?thesis by (intro stop) (simp_all add: arg_loop_done)
next
  case False
  from assms False obtain r where "arg_turn env st = Ok r"
    and "(case r of Inl u \<Rightarrow> Ok (Inl u) | Inr st \<Rightarrow> arg_loop env st) = Ok (Inr st')"
    by (auto simp: arg_loop_turn cr_simps)
  with False show ?thesis by (cases r) (auto intro: turn)
qed

lemma arg_loop_length: "arg_loop env st = Ok (Inr st') \<Longrightarrow> length (as_p st') \<le> length (as_p st)"
proof (induction env st arbitrary: st' rule: arg_loop.induct)
  case (1 env st)
  from "1.prems" show ?case
  proof (cases rule: arg_loop_InrE)
    case stop
    then show ?thesis by simp
  next
    case (turn st1)
    with "1.IH" [of "Inr st1" st1 st'] arg_turn_progress(1) [of env st st1] show ?thesis by simp
  qed
qed

lemma arg_loop_progress:
  assumes "arg_loop env st = Ok (Inr st')" and "\<not> as_done st" and "hd (as_p st) \<noteq> NUL"
  shows "length (as_p st') < length (as_p st)"
  using assms(1)
proof (cases rule: arg_loop_InrE)
  case stop
  with assms(2) show ?thesis by simp
next
  case (turn st1)
  with arg_turn_progress(2) [of env st st1] arg_loop_length [of env st1 st'] assms(3)
  show ?thesis by simp
qed

lemma skip_blanks_length: "length (skip_blanks p) \<le> length p"
  by (induction p) auto

definition arg_init :: "bytes \<Rightarrow> sds \<Rightarrow> arg_state" where
  "arg_init p current =
     \<lparr>as_p = p, as_current = current, as_inq = False, as_insq = False, as_done = False\<rparr>"

text \<open>The tokens are collected in \<open>vector\<close>, whose reallocation the code does not check.\<close>

function args_loop :: "cenv \<Rightarrow> bytes \<Rightarrow> sds list \<Rightarrow> (sds list option \<times> int) cr" where
  "args_loop env p vector =
     (let p = skip_blanks p in
      cbind (peek p 0) (\<lambda>c.
      if c \<noteq> NUL then
        cbind (sdsempty env) (\<lambda>current.
        cbind (arg_loop env (arg_init p current)) (\<lambda>r.
        case r of
          Inl _ \<Rightarrow> Ok (None, 0)
        | Inr st \<Rightarrow>
            if alloc_ok env ((length vector + 1) * 8)
            then args_loop env (as_p st) (vector @ [as_current st])
            else Flt NullDeref))
      else if vector = [] \<and> \<not> alloc_ok env 8 then Ok (None, 0)
      else Ok (Some vector, int (length vector))))"
  by pat_completeness auto
termination
proof (relation "measure (\<lambda>(env, p, vector). length p)", goal_cases)
  case 1
  show ?case by simp
next
  case (2 env p vector q c cur r st)
  then have "hd q \<noteq> NUL" by (auto simp: peek_def hd_conv_nth split: if_splits)
  then have "length (as_p st) < length q"
    using 2 arg_loop_progress [of env "arg_init q cur" st] by (simp add: arg_init_def)
  then show ?case using 2 skip_blanks_length [of p] by simp
qed

declare args_loop.simps [simp del]

definition sdssplitargs :: "cenv \<Rightarrow> bytes \<Rightarrow> (sds list option \<times> int) cr" where
  "sdssplitargs env line = args_loop env line []"

section \<open>What the number and format functions produce\<close>

lemma drop_update_at:
  "k < length buf \<Longrightarrow> drop k (take k buf @ c # drop (Suc k) buf) = c # drop (Suc k) buf"
  by simp

lemma ll_digits_eq:
  assumes "length (nat_dec v) \<le> Suc k" and "k < length buf"
  shows "\<exists>buf'. ll_digits buf (int k) v = Ok (buf', int k - int (length (nat_dec v))) \<and>
           length buf' = length buf \<and>
           drop (Suc k - length (nat_dec v)) buf' = nat_dec v @ drop (Suc k) buf"
  using assms
proof (induction v arbitrary: k buf rule: nat_dec.induct)
  case (1 v)
  let ?b = "take k buf @ digit_char (v mod 10) # drop (Suc k) buf"
  have w: "mem_write buf (int k) [digit_char (v mod 10)] = Ok ?b"
    using "1.prems"(2) by (rule mem_write_one)
  have d: "drop k ?b = digit_char (v mod 10) # drop (Suc k) buf" and len: "length ?b = length buf"
    using "1.prems"(2) by simp_all
  show ?case
  proof (cases "v < 10")
    case True
    then show ?thesis
      using w d len by (subst ll_digits.simps) (simp add: nat_dec_small)
  next
    case False
    let ?n = "length (nat_dec (v div 10))"
    from False "1.prems" have n: "?n \<le> k" by (simp add: nat_dec_step)
    then have "0 < k" by (metis nat_dec_nonempty length_0_conv le_0_eq not_gr0)
    then obtain k' where k: "k = Suc k'" by (cases k) auto
    from "1.IH" [OF False, of k' ?b] n k len "1.prems"(2)
    obtain b' where "ll_digits ?b (int k') (v div 10) = Ok (b', int k' - int ?n)"
      and "length b' = length buf" and "drop (k - ?n) b' = nat_dec (v div 10) @ drop k ?b"
      by auto
    note rec = this
    have "v div 10 \<noteq> 0" and p: "int k - 1 = int k'" using False k by auto
    then have step: "ll_digits buf (int k) v = ll_digits ?b (int k') (v div 10)"
      by (subst ll_digits.simps) (simp only: w p cbind.simps if_True simp_thms)
    have v: "nat_dec v = nat_dec (v div 10) @ [digit_char (v mod 10)]"
      using False by (simp add: nat_dec_step)
    show ?thesis
      unfolding step v using rec d k n by (intro exI [of _ b']) (simp del: drop_append)
  qed
qed

lemma sdsfromlonglong_runs:
  assumes "LLONG_MIN < i" and "i \<le> LLONG_MAX"
  shows "runs (sdsfromlonglong env i) (sds_result env (int_dec i))"
proof -
  define v where "v = nat \<bar>i\<bar>"
  have abs: "(if i < 0 then s_llong (- i) else Ok i) = Ok (int v)"
    using assms by (simp add: v_def s_llong_ok LLONG_MIN_def LLONG_MAX_def)
  have "v < 10 ^ Suc 18" using assms by (simp add: v_def LLONG_MIN_def LLONG_MAX_def)
  then have n: "length (nat_dec v) \<le> 19" by (drule_tac length_nat_dec) simp
  define buf where "buf = map (junk env) [0..<32]"
  have "\<exists>buf'. ll_digits buf (int 31) v = Ok (buf', int 31 - int (length (nat_dec v))) \<and>
      length buf' = length buf \<and> drop (Suc 31 - length (nat_dec v)) buf' = nat_dec v @ drop (Suc 31) buf"
    using n by (intro ll_digits_eq) (simp_all add: buf_def)
  then obtain b where ll: "ll_digits buf 31 v = Ok (b, 31 - int (length (nat_dec v)))"
    and len: "length b = 32" and b: "drop (32 - length (nat_dec v)) b = nat_dec v"
    by (auto simp: buf_def)
  define m where "m = 32 - length (nat_dec v)"
  have m: "13 \<le> m" "m < 32" "drop m b = nat_dec v" and lm: "int (length (nat_dec v)) = 32 - int m"
    using n b by (auto simp: m_def of_nat_diff Suc_le_eq)
  have new: "runs (sdsnewlen env (Some x) k) (sds_result env x)" if "int (length x) = k" "k \<le> 32" for x k
    using sdsnewlen_copy [of "length x" x env] that by (auto intro: sds_repI)
  have eq: "sdsfromlonglong env i =
     cbind (if i < 0 then cbind (mem_write b (int m - 1) [CHR ''-'']) (\<lambda>buf. Ok (buf, int m - 2))
            else Ok (b, int m - 1)) (\<lambda>(buf, p).
     if p + 1 < 0 \<or> 32 < p + 1 then Flt OutOfBounds
     else sdsnewlen env (Some (drop (nat (p + 1)) buf)) (32 - (p + 1)))"
    unfolding sdsfromlonglong_def abs cbind.simps buf_def [symmetric] nat_int ll lm Let_def
    by (simp add: case_prod_beta)
  show ?thesis
  proof (cases "i < 0")
    case True
    obtain j where j: "m = Suc j" using m(1) by (cases m) auto
    have w: "mem_write b (int j) [CHR ''-''] = Ok (take j b @ CHR ''-'' # drop m b)"
      using m len j by (simp add: mem_write_one)
    have d: "drop j (take j b @ CHR ''-'' # drop m b) = int_dec i"
      using m len True j by (simp add: int_dec_def v_def)
    have "int (length (int_dec i)) = 32 - int j"
      using lm True j by (simp add: int_dec_def v_def)
    from new [OF this] show ?thesis
      unfolding eq using True j w d m by simp
  next
    case False
    then have i: "int_dec i = drop m b" using m by (simp add: int_dec_def v_def)
    have "int (length (drop m b)) = 32 - int m" using lm by (simp only: m(3))
    from new [OF this] False m show ?thesis
      unfolding eq i by simp
  qed
qed

lemma sdsfromlonglong_min: "sdsfromlonglong env LLONG_MIN = Flt SignedOverflow"
  by (simp add: sdsfromlonglong_def s_llong_def LLONG_MIN_def LLONG_MAX_def)

text \<open>The buffer loop stops with the whole output in the buffer.\<close>

lemma vprintf_loop_runs:
  assumes "NUL \<notin> set out" and "2 \<le> n"
  shows "runs (vprintf_loop env n out)
           (\<lambda>r. case r of None \<Rightarrow> \<not> grants_all env | Some buf \<Rightarrow> \<exists>u. buf = out @ NUL # u)"
  using assms
proof (induction env n out rule: vprintf_loop.induct)
  case (1 env n out)
  define k where "k = nat (n - 2)"
  have n: "n = int k + 2" using "1.prems" by (simp add: k_def)
  show ?case
  proof (cases "alloc_ok env (nat n)")
    case False
    then show ?thesis by (subst vprintf_loop.simps) (auto simp: c_malloc_def)
  next
    case True
    define b0 where "b0 = map (junk env) [0..<nat n]"
    have len0: "length b0 = k + 2" by (simp add: b0_def n nat_add_distrib)
    define b1 where "b1 = take k b0 @ NUL # drop (Suc k) b0"
    have w: "mem_write b0 (n - 2) [NUL] = Ok b1" and len1: "length b1 = k + 2"
      using len0 mem_write_one [of k b0 NUL] by (simp_all add: n b1_def)
    have al: "c_malloc env n = Some b0" using True by (simp add: c_malloc_def b0_def)
    define b2 where "b2 = take (Suc k) out @ NUL # drop (Suc (min (length out) (Suc k))) b1"
    have v: "c_vsnprintf b1 n out = Ok b2"
      using len1 by (simp add: c_vsnprintf_def mem_write_def n b2_def nat_add_distrib)
    have len2: "k < length b2" using len1 by (simp add: b2_def min_def)
    then have g: "mem_get b2 (n - 2) = Ok (b2 ! k)" by (simp add: n mem_get_ok)
    have eq: "vprintf_loop env n out =
        (if b2 ! k \<noteq> NUL then vprintf_loop env (n * 2) out else Ok (Some b2))"
      by (subst vprintf_loop.simps) (simp add: al w v g)
    show ?thesis
    proof (cases "length out \<le> k")
      case True
      have "b2 ! k = NUL"
      proof (cases "length out = k")
        case True
        then show ?thesis by (simp add: b2_def nth_append)
      next
        case False
        with True have "k - length out = Suc (k - Suc (length out))" by simp
        moreover have "b1 ! k = NUL" using len0 by (simp add: b1_def nth_append)
        ultimately show ?thesis
          using True False len1 by (simp add: b2_def nth_append)
      qed
      then show ?thesis using True eq by (simp add: b2_def)
    next
      case False
      then have "b2 ! k = out ! k" and "k < length out" by (simp_all add: b2_def nth_append)
      with "1.prems"(1) have nz: "b2 ! k \<noteq> NUL" by (metis nth_mem)
      from "1.IH" [OF al w v g nz "1.prems"(1)] "1.prems"(2) nz show ?thesis
        by (simp add: eq)
    qed
  qed
qed

lemma sdscatprintf_runs:
  assumes "sds_rep sh xs" and "NUL \<notin> set out" and "length xs + length out < 2 ^ 30"
  shows "runs (sdscatprintf env (Some sh) out) (sds_result env (xs @ out))"
proof -
  have "runs (vprintf_loop env 16 out)
      (\<lambda>r. runs (case r of None \<Rightarrow> Ok None | Some buf \<Rightarrow> sdscat env (Some sh) buf) (sds_result env (xs @ out)))"
    by (rule runs_mono [OF vprintf_loop_runs [OF assms(2)]])
       (auto split: option.splits intro: sdscat_runs [OF assms])
  then show ?thesis
    by (simp add: sdscatprintf_def sdscatvprintf_def runs_cbind)
qed

section \<open>The representation and its reader\<close>

definition repr_char :: "char \<Rightarrow> bytes" where
  "repr_char c =
     (if c = BSL \<or> c = DQ then [BSL, c]
      else if c = LF then [BSL, CHR ''n'']
      else if c = CR then [BSL, CHR ''r'']
      else if c = CHR 0x09 then [BSL, CHR ''t'']
      else if c = CHR 0x07 then [BSL, CHR ''a'']
      else if c = CHR 0x08 then [BSL, CHR ''b'']
      else if c_isprint c then [c] else [BSL, CHR ''x''] @ hex02 c)"

definition repr_bytes :: "bytes \<Rightarrow> bytes" where
  "repr_bytes xs = DQ # concat (map repr_char xs) @ [DQ]"

lemma length_repr_char: "length (repr_char c) \<le> 4"
  by (simp add: repr_char_def hex02_def Let_def)

lemma hex_char_props:
  assumes "d < 16"
  shows "is_hex_digit (hex_char d)" and "hex_digit_to_int (hex_char d) = d" and "hex_char d \<noteq> NUL"
proof -
  have n: "(of_char (hex_char d) :: nat) = (if d < 10 then 48 + d else 87 + d)"
    using assms by (simp add: hex_char_def)
  then show "is_hex_digit (hex_char d)" "hex_digit_to_int (hex_char d) = d"
    using assms by (auto simp: is_hex_digit_def hex_digit_to_int_def Let_def)
  show "hex_char d \<noteq> NUL"
    using n by (auto dest: arg_cong [of _ _ of_char] split: if_splits)
qed

lemma hex02_value:
  "char_of (hex_digit_to_int (hex_char ((of_char c :: nat) div 16)) * 16 +
            hex_digit_to_int (hex_char ((of_char c :: nat) mod 16))) = c"
proof -
  have "(of_char c :: nat) div 16 < 16" by (simp add: less_mult_imp_div_less)
  then show ?thesis by (simp add: hex_char_props)
qed

lemma c_isprint_NUL [simp]: "\<not> c_isprint NUL"
  by (simp add: c_isprint_def)

lemma repr_char_NUL: "NUL \<notin> set (repr_char c)"
  using hex_char_props(3) [of "(of_char c :: nat) div 16"] hex_char_props(3) [of "(of_char c :: nat) mod 16"]
  by (auto simp: repr_char_def hex02_def Let_def less_mult_imp_div_less)

lemma sdscatrepr_char_runs:
  assumes "sds_rep sh xs" and "length xs + 4 < 2 ^ 30"
  shows "runs (sdscatrepr_char env (Some sh) c) (sds_result env (xs @ repr_char c))"
proof -
  have lit: "runs (sdscatlen env (Some sh) [BSL, d] 2) (sds_result env (xs @ [BSL, d]))" for d
    using sdscatlen_runs [OF assms(1), of 2 "[BSL, d]" env] assms(2) by simp
  have fmt: "runs (sdscatprintf env (Some sh) (repr_char c)) (sds_result env (xs @ repr_char c))"
    using assms length_repr_char [of c] by (intro sdscatprintf_runs repr_char_NUL) auto
  show ?thesis
    using lit fmt by (auto simp: sdscatrepr_char_def repr_char_def split: if_splits)
qed

lemma length_repr_chars: "length (concat (map repr_char p)) \<le> 4 * length p"
  by (induction p) (auto intro: add_mono length_repr_char)

lemma sdscatrepr_loop_runs:
  assumes "sds_rep sh xs" and "length xs + 4 * length p < 2 ^ 30" and "grants_all env"
  shows "runs (sdscatrepr_loop env (Some sh) p) (sds_result env (xs @ concat (map repr_char p)))"
  using assms
proof (induction p arbitrary: sh xs)
  case Nil
  then show ?case by simp
next
  case (Cons c p)
  then have "length xs + 4 < 2 ^ 30" by simp
  from sdscatrepr_char_runs [OF Cons.prems(1) this, of env c] Cons.prems(3)
  obtain s1 where s1: "sdscatrepr_char env (Some sh) c = Ok (Some s1)" "sds_rep s1 (xs @ repr_char c)"
    by (rule sds_result_grants)
  have "length (xs @ repr_char c) + 4 * length p < 2 ^ 30"
    using Cons.prems(2) length_repr_char [of c] by simp
  from Cons.IH [OF s1(2) this Cons.prems(3)] s1(1) show ?case by simp
qed

lemma sdscatrepr_runs:
  assumes "sds_rep sh xs" and "n \<le> length p" and "length xs + 4 * n + 2 < 2 ^ 30" and "grants_all env"
  shows "runs (sdscatrepr env (Some sh) p (int n)) (sds_result env (xs @ repr_bytes (take n p)))"
proof -
  have dq: "runs (sdscatlen env (Some s) [DQ] 1) (sds_result env (ys @ [DQ]))"
    if "sds_rep s ys" "length ys + 1 < 2 ^ 30" for s ys
    using sdscatlen_runs [OF that(1), of 1 "[DQ]" env] that(2) by simp
  have "length xs + 1 < 2 ^ 30" using assms(3) by simp
  from dq [OF assms(1) this] assms(4) obtain s1
    where s1: "sdscatlen env (Some sh) [DQ] 1 = Ok (Some s1)" "sds_rep s1 (xs @ [DQ])"
    by (rule sds_result_grants)
  let ?body = "concat (map repr_char (take n p))"
  have body: "length ?body \<le> 4 * length (take n p)" by (rule length_repr_chars)
  have "length (xs @ [DQ]) + 4 * length (take n p) < 2 ^ 30" using assms(2,3) by simp
  from sdscatrepr_loop_runs [OF s1(2) this assms(4)] assms(4) obtain s2
    where s2: "sdscatrepr_loop env (Some s1) (take n p) = Ok (Some s2)" "sds_rep s2 ((xs @ [DQ]) @ ?body)"
    by (rule sds_result_grants)
  have "length ((xs @ [DQ]) @ ?body) + 1 < 2 ^ 30" using assms(2,3) body by simp
  from dq [OF s2(2) this] show ?thesis
    using s1(1) s2(1) assms(2) by (simp add: sdscatrepr_def mem_read_def repr_bytes_def)
qed

text \<open>
  Reading: in quotes, one turn of the token loop consumes the representation of one byte and
  appends that byte.
\<close>

abbreviation quoted :: "bytes \<Rightarrow> sdshdr \<Rightarrow> arg_state" where
  "quoted p sh \<equiv> \<lparr>as_p = p, as_current = Some sh, as_inq = True, as_insq = False, as_done = False\<rparr>"

lemma peek_Cons [simp]: "peek (c # p) 0 = Ok c" "peek (c # p) (Suc n) = peek p n"
  by (simp_all add: peek_def)

lemma peek_1 [simp]: "peek (c # d # p) 1 = Ok d"
  by (simp add: peek_def)

lemma sdscatlen_one:
  assumes "sds_rep sh xs" and "length xs + 1 < 2 ^ 30" and "grants_all env"
  obtains sh' where "sdscatlen env (Some sh) (c # p) 1 = Ok (Some sh')" and "sds_rep sh' (xs @ [c])"
  using sdscatlen_runs [OF assms(1), of 1 "c # p" env] assms(2,3)
  by (auto elim: sds_result_grants)

lemma arg_turn_escape:
  assumes "d \<noteq> CHR ''x''" "d \<noteq> NUL"
    and "sdscatlen env (Some sh) [unescape d] 1 = Ok (Some sh')"
  shows "arg_turn env (quoted (BSL # d # q) sh) = Ok (Inr (quoted q sh'))"
  using assms by (simp add: arg_turn_def arg_inq_def hex_escape_def Let_def)

lemma arg_turn_hex:
  assumes "is_hex_digit a" "is_hex_digit b" "b \<noteq> NUL"
    and "sdscatlen env (Some sh) [char_of (hex_digit_to_int a * 16 + hex_digit_to_int b)] 1 = Ok (Some sh')"
  shows "arg_turn env (quoted (BSL # CHR ''x'' # a # b # q) sh) = Ok (Inr (quoted q sh'))"
  using assms by (simp add: arg_turn_def arg_inq_def hex_escape_def Let_def numeral_2_eq_2 numeral_3_eq_3)

lemma arg_turn_literal:
  assumes "c \<noteq> BSL" "c \<noteq> DQ" "c \<noteq> NUL" and "sdscatlen env (Some sh) (c # q) 1 = Ok (Some sh')"
  shows "arg_turn env (quoted (c # q) sh) = Ok (Inr (quoted q sh'))"
  using assms by (simp add: arg_turn_def arg_inq_def hex_escape_def Let_def)

lemma repr_char_cases:
  obtains (esc) d where "repr_char c = [BSL, d]" "d \<noteq> CHR ''x''" "d \<noteq> NUL" "unescape d = c"
  | (lit) "repr_char c = [c]" "c \<noteq> BSL" "c \<noteq> DQ" "c \<noteq> NUL"
  | (hex) "repr_char c = BSL # CHR ''x'' # hex02 c"
proof -
  let ?special = "{BSL, DQ, LF, CR, CHR 0x09, CHR 0x07, CHR 0x08}"
  consider "c = BSL \<or> c = DQ" | "c = LF" | "c = CR" | "c = CHR 0x09" | "c = CHR 0x07" | "c = CHR 0x08"
    | "c \<notin> ?special" "c_isprint c" | "c \<notin> ?special" "\<not> c_isprint c"
    by blast
  then show ?thesis
  proof cases
    case 1 then show ?thesis by (intro esc [of c]) (auto simp: repr_char_def unescape_def)
  next
    case 2 then show ?thesis by (intro esc [of "CHR ''n''"]) (auto simp: repr_char_def unescape_def)
  next
    case 3 then show ?thesis by (intro esc [of "CHR ''r''"]) (auto simp: repr_char_def unescape_def)
  next
    case 4 then show ?thesis by (intro esc [of "CHR ''t''"]) (auto simp: repr_char_def unescape_def)
  next
    case 5 then show ?thesis by (intro esc [of "CHR ''a''"]) (auto simp: repr_char_def unescape_def)
  next
    case 6 then show ?thesis by (intro esc [of "CHR ''b''"]) (auto simp: repr_char_def unescape_def)
  next
    case 7 then show ?thesis by (intro lit) (auto simp: repr_char_def)
  next
    case 8 then show ?thesis by (intro hex) (auto simp: repr_char_def)
  qed
qed

lemma arg_turn_repr:
  assumes "sds_rep sh xs" and "length xs + 1 < 2 ^ 30" and "grants_all env"
  shows "\<exists>sh'. arg_turn env (quoted (repr_char c @ q) sh) = Ok (Inr (quoted q sh')) \<and>
               sds_rep sh' (xs @ [c])"
proof -
  from assms obtain s1 where one: "sdscatlen env (Some sh) [c] 1 = Ok (Some s1)" "sds_rep s1 (xs @ [c])"
    by (rule sdscatlen_one)
  from assms obtain s2 where app: "sdscatlen env (Some sh) (c # q) 1 = Ok (Some s2)" "sds_rep s2 (xs @ [c])"
    by (rule sdscatlen_one)
  show ?thesis
  proof (cases c rule: repr_char_cases)
    case (esc d)
    with one show ?thesis using arg_turn_escape [of d env sh s1 q] by auto
  next
    case lit
    then have "arg_turn env (quoted (c # q) sh) = Ok (Inr (quoted q s2))"
      using arg_turn_literal [OF _ _ _ app(1)] by blast
    with app(2) \<open>repr_char c = [c]\<close> show ?thesis by auto
  next
    case hex
    have "(of_char c :: nat) div 16 < 16" "(of_char c :: nat) mod 16 < 16"
      by (simp_all add: less_mult_imp_div_less)
    then have "arg_turn env (quoted (BSL # CHR ''x'' # hex02 c @ q) sh) = Ok (Inr (quoted q s1))"
      using one(1) arg_turn_hex [of "hex_char ((of_char c :: nat) div 16)" "hex_char ((of_char c :: nat) mod 16)" env sh s1 q]
      by (simp add: hex02_def Let_def hex_char_props hex02_value)
    with hex one(2) show ?thesis by auto
  qed
qed

lemma arg_loop_repr:
  assumes "sds_rep sh xs" and "length xs + length ys < 2 ^ 30" and "grants_all env"
    and "d = NUL \<or> c_isspace d"
  shows "\<exists>sh' st. arg_loop env (quoted (concat (map repr_char ys) @ DQ # d # q) sh) = Ok (Inr st) \<and>
                  as_p st = d # q \<and> as_current st = Some sh' \<and> sds_rep sh' (xs @ ys)"
  using assms(1,2)
proof (induction ys arbitrary: sh xs)
  case Nil
  have "arg_turn env (quoted (DQ # d # q) sh) =
      Ok (Inr ((quoted (d # q) sh)\<lparr>as_done := True\<rparr>))"
    using assms(4) by (auto simp: arg_turn_def arg_inq_def hex_escape_def closing_quote_ok_def Let_def)
  with Nil show ?case by (simp add: arg_loop_turn arg_loop_done)
next
  case (Cons c ys)
  from Cons.prems(2) have "length xs + 1 < 2 ^ 30" by simp
  from arg_turn_repr [OF Cons.prems(1) this assms(3), of c "concat (map repr_char ys) @ DQ # d # q"]
  obtain s1 where "arg_turn env (quoted (repr_char c @ concat (map repr_char ys) @ DQ # d # q) sh) =
      Ok (Inr (quoted (concat (map repr_char ys) @ DQ # d # q) s1))" and "sds_rep s1 (xs @ [c])"
    by blast
  moreover have "arg_loop env (quoted (repr_char c @ concat (map repr_char ys) @ DQ # d # q) sh) =
      cbind (arg_turn env (quoted (repr_char c @ concat (map repr_char ys) @ DQ # d # q) sh))
        (\<lambda>r. case r of Inl u \<Rightarrow> Ok (Inl u) | Inr st \<Rightarrow> arg_loop env st)"
    by (rule arg_loop_turn) simp
  ultimately show ?case using Cons.IH [of s1 "xs @ [c]"] Cons.prems(2) by simp
qed

lemma sdssplitargs_repr:
  assumes "length ys < 2 ^ 30" and "grants_all env"
  shows "\<exists>sh. sdssplitargs env (repr_bytes ys @ NUL # q) = Ok (Some [Some sh], 1) \<and> sds_rep sh ys"
proof -
  let ?body = "concat (map repr_char ys) @ DQ # NUL # q"
  have p: "repr_bytes ys @ NUL # q = DQ # ?body" by (simp add: repr_bytes_def)
  have sk: "skip_blanks (DQ # ?body) = DQ # ?body" "skip_blanks (NUL # q) = NUL # q"
    by (simp_all add: c_isspace_def)
  have e: "sdsempty env = Ok (Some (sds_of [] []))" using assms(2) by (simp add: sdsempty_eq)
  have open_q: "arg_turn env (arg_init (DQ # ?body) (Some (sds_of [] []))) =
      Ok (Inr (quoted ?body (sds_of [] [])))"
    by (simp add: arg_turn_def arg_plain_def arg_init_def Let_def)
  have "sds_rep (sds_of [] []) []" by (rule sds_repI) simp
  from arg_loop_repr [OF this _ assms(2), of ys NUL q] assms(1)
  obtain sh st where loop: "arg_loop env (quoted ?body (sds_of [] [])) = Ok (Inr st)"
    and st: "as_p st = NUL # q" "as_current st = Some sh" "sds_rep sh ys"
    by auto
  have "arg_loop env (arg_init (DQ # ?body) (Some (sds_of [] []))) = Ok (Inr st)"
    by (subst arg_loop_turn) (simp_all add: open_q loop, simp add: arg_init_def)
  moreover have "args_loop env (NUL # q) [Some sh] = Ok (Some [Some sh], 1)"
    by (subst args_loop.simps) (simp add: sk)
  ultimately have "args_loop env (DQ # ?body) [] = Ok (Some [Some sh], 1)"
    using assms(2) st by (subst args_loop.simps) (simp add: sk(1) e del: skip_blanks.simps)
  then show ?thesis using st(3) by (auto simp: sdssplitargs_def p)
qed
end
