(* ===== verification/Sds_Correct.thy ===== *)
theory Sds_Correct
  imports Sds_Split Sds_Repr
begin

text \<open>
  The properties of the string library of \<open>src/src/sds.c\<close>, each over the representation
  \<open>sds_rep\<close>: what the string stands for after the operation, whatever the state of its
  block. Contents are bounded by \<open>2 ^ 30\<close> bytes, below which no length computed in \<open>int\<close>
  wraps.
\<close>

lemma sds_small [simp]: "length xs < 2 ^ 31 \<Longrightarrow> sds_rep (sds_of xs []) xs"
  by (rule sds_repI) simp

text \<open>
  Appending is exact and safe: \<open>sdscatlen\<close> returns a string that stands for the old content
  followed by the appended bytes, writing inside its block only, or NULL where the allocator
  refuses.
\<close>

theorem sdscatlen_appends:
  assumes "sds_rep sh xs" and "n \<le> length t" and "length xs + n < 2 ^ 30"
  shows "runs (sdscatlen env (Some sh) t (int n)) (sds_result env (xs @ take n t))"
  using assms by (rule sdscatlen_runs)

theorem sdscatlen_appends_witness:
  "runs (sdscatlen libc_env (Some (sds_of ''ab'' [])) ''cd'' 2) (sds_result libc_env ''abcd'')"
  using sdscatlen_appends [of "sds_of ''ab'' []" "''ab''" 2 "''cd''" libc_env] by simp

text \<open>
  A string built from any number of appends stands for the concatenation of what was
  appended, however often the block moved in between.
\<close>

theorem sds_append_many:
  assumes "sds_rep sh xs" and "length xs + length (concat ts) < 2 ^ 30" and "grants_all env"
  shows "\<exists>sh'. cat_all (\<lambda>t s. sdscatlen env s t (int (length t))) ts (Some sh) = Ok (Some sh') \<and>
               sds_rep sh' (xs @ concat ts)"
  using assms by (rule sds_string.cat_all_rep)

theorem sds_append_many_witness:
  "\<exists>sh'. cat_all (\<lambda>t s. sdscatlen libc_env s t (int (length t))) [''ab'', [], ''c''] (Some (sds_of ''x'' [])) = Ok (Some sh') \<and>
         sds_rep sh' ''xabc''"
  using sds_append_many [of "sds_of ''x'' []" "''x''" "[''ab'', [], ''c'']" libc_env] by simp

text \<open>
  \<open>sdscpylen\<close> replaces the content, growing the block only where it must, and never mixes old
  and new bytes.
\<close>

theorem sdscpylen_replaces:
  assumes "sds_rep sh xs" and "n \<le> length t" and "length xs + n < 2 ^ 30"
  shows "runs (sdscpylen env (Some sh) t (int n)) (sds_result env (take n t))"
  using assms by (rule sdscpylen_runs)

theorem sdscpylen_replaces_witness:
  "runs (sdscpylen libc_env (Some (sds_of ''abc'' [])) ''xyzw'' 4) (sds_result libc_env ''xyzw'')"
  using sdscpylen_replaces [of "sds_of ''abc'' []" "''abc''" 4 "''xyzw''" libc_env] by simp

text \<open>
  \<open>sdsrange\<close> keeps exactly the bytes of the range, negative indexes counting from the end and
  every index clamped, for all index values of the type (but \<open>INT_MAX\<close> as the end).
\<close>

theorem sdsrange_keeps:
  assumes "sds_rep sh xs" and "INT_MIN \<le> i" and "i \<le> INT_MAX" and "INT_MIN \<le> j" and "j < INT_MAX"
  shows "\<exists>sh'. sdsrange (Some sh) i j = Ok (Some sh') \<and> sds_rep sh' (range_spec xs i j)"
  using assms by (intro sdsrange_rep) (simp_all add: INT_MIN_def INT_MAX_def)

theorem sdsrange_keeps_witness:
  "\<exists>sh'. sdsrange (Some (sds_of ''hello'' [])) 1 (- 2) = Ok (Some sh') \<and> sds_rep sh' ''ell''"
  using sdsrange_keeps [of "sds_of ''hello'' []" "''hello''" 1 "- 2"]
  by (simp add: INT_MIN_def INT_MAX_def range_spec_def range_pos_def)

text \<open>
  \<open>sdstrim\<close> removes the characters of the set from both ends and nothing inside. The zero byte
  always counts as in the set, because \<open>strchr\<close> finds the terminator.
\<close>

theorem sdstrim_strips:
  assumes "sds_rep sh xs"
  shows "\<exists>sh'. sdstrim (Some sh) cset = Ok (Some sh') \<and> sds_rep sh' (strip (c_strchr cset) xs)"
  using assms by (rule sdstrim_rep)

theorem sdstrim_strips_witness:
  "\<exists>sh'. sdstrim (Some (sds_of ([NUL] @ ''xhix'') [])) ''x'' = Ok (Some sh') \<and> sds_rep sh' ''hi''"
  using sdstrim_strips [of "sds_of ([NUL] @ ''xhix'') []" "[NUL] @ ''xhix''" "''x''"]
  by (simp add: strip_def rstrip_def c_strchr_def)

lemma c_memcmp_swap: "c_memcmp ys xs = - c_memcmp xs ys"
  by (induction xs ys rule: c_memcmp.induct) auto

text \<open>
  \<open>sdscmp\<close> orders strings as unsigned bytes, a prefix first: its sign is that of the
  lexicographic order and it is zero on equal contents only.
\<close>

theorem sdscmp_orders:
  assumes "sds_rep h1 xs" and "sds_rep h2 ys"
  shows "runs (sdscmp (Some h1) (Some h2)) (\<lambda>d.
           (d < 0) = byte_less xs ys \<and> (d = 0) = (xs = ys) \<and> (0 < d) = byte_less ys xs)"
proof -
  have "sdscmp (Some h1) (Some h2) =
      Ok (if c_memcmp xs ys = 0 then int (length xs) - int (length ys) else c_memcmp xs ys)"
    using assms by (rule sdscmp_eq)
  moreover have "c_memcmp xs ys = 0 \<and> length xs = length ys \<longleftrightarrow> xs = ys"
    using c_memcmp_eq_0 [of xs ys] by auto
  ultimately show ?thesis
    using c_memcmp_swap [of xs ys] by (auto simp: byte_less_memcmp)
qed

theorem sdscmp_orders_witness:
  "runs (sdscmp (Some (sds_of ''ab'' [])) (Some (sds_of ''abc'' []))) (\<lambda>d. d < 0)"
  using sdscmp_orders [of "sds_of ''ab'' []" "''ab''" "sds_of ''abc'' []" "''abc''"]
  by (auto elim!: runs_mono)

text \<open>
  C32. Splitting and joining are inverse: the tokens of \<open>sdssplitlen\<close>, none of which holds the
  separator, joined with it by \<open>sdsjoinsds\<close> give the original bytes back.
\<close>

theorem split_join_roundtrip:
  assumes "0 < length xs" and "length xs < 2 ^ 29" and "sep \<noteq> []" and "grants_all env"
  shows "runs (sdssplitlen env xs (int (length xs)) sep (int (length sep))) (\<lambda>(tokens, count).
           \<exists>tk ts. tokens = Some tk \<and> count = Some (int (length tk)) \<and> list_all2 sds_rep tk ts \<and>
             (\<forall>t\<in>set ts. \<not> sublist sep t) \<and>
             runs (sdsjoinsds env (map Some tk) sep (int (length sep))) (\<lambda>r. \<exists>sh. r = Some sh \<and> sds_rep sh xs))"
proof -
  let ?ts = "split_bytes sep [] xs"
  have "runs (sdssplitlen env xs (int (length xs)) sep (int (length sep))) (split_result env ?ts)"
    using sdssplitlen_runs [of "length xs" xs sep env] assms by simp
  moreover have join: "join_bytes sep ?ts = xs" using join_split_bytes [of sep "[]" xs] by simp
  moreover have "\<forall>t\<in>set ?ts. \<not> sublist sep t" using split_bytes_no_sep [of sep "[]" xs] assms(3) by simp
  moreover have "runs (sdsjoinsds env (map Some tk) sep (int (length sep))) (\<lambda>r. \<exists>sh. r = Some sh \<and> sds_rep sh xs)"
    if "list_all2 sds_rep tk ?ts" for tk
    using sdsjoinsds_runs [OF that assms(4), of sep] join assms(2,4)
    by (auto simp: sds_result_def split: option.splits elim!: runs_mono)
  ultimately show ?thesis
    using assms(4) by (auto simp: split_result_def split: option.splits elim!: runs_mono)
qed

theorem split_join_roundtrip_witness:
  "runs (sdssplitlen libc_env ''a,b'' 3 '','' 1) (\<lambda>(tokens, count).
     \<exists>tk. tokens = Some tk \<and>
       runs (sdsjoinsds libc_env (map Some tk) '','' 1) (\<lambda>r. \<exists>sh. r = Some sh \<and> sds_rep sh ''a,b''))"
  using split_join_roundtrip [of "''a,b''" "'',''" libc_env] by (auto elim!: runs_mono)

text \<open>
  C33. Quoting survives parsing: any bytes, zero bytes and quotes included, printed by
  \<open>sdscatrepr\<close> into an empty string are read back by \<open>sdssplitargs\<close> as one argument with the
  same bytes.
\<close>

theorem repr_splitargs_roundtrip:
  assumes "length ys < 2 ^ 27" and "grants_all env"
  shows "runs (sdscatrepr env (Some (sds_of [] [])) ys (int (length ys))) (\<lambda>r. \<exists>sh. r = Some sh \<and>
           (\<exists>sh'. sdssplitargs env (sh_buf sh) = Ok (Some [Some sh'], 1) \<and> sds_rep sh' ys))"
proof -
  have "runs (sdscatrepr env (Some (sds_of [] [])) ys (int (length ys)))
      (sds_result env ([] @ repr_bytes (take (length ys) ys)))"
    using assms by (intro sdscatrepr_runs sds_small) auto
  then show ?thesis
    using sdssplitargs_repr [of ys env] assms
    by (auto simp: sds_result_def split: option.splits elim!: runs_mono sds_repE)
qed

theorem repr_splitargs_roundtrip_witness:
  "runs (sdscatrepr libc_env (Some (sds_of [] [])) [NUL, CHR 0x22, CHR ''a''] 3) (\<lambda>r. \<exists>sh. r = Some sh \<and>
     (\<exists>sh'. sdssplitargs libc_env (sh_buf sh) = Ok (Some [Some sh'], 1) \<and> sds_rep sh' [NUL, CHR 0x22, CHR ''a'']))"
  using repr_splitargs_roundtrip [of "[NUL, CHR 0x22, CHR ''a'']" libc_env] by simp

text \<open>
  \<open>sdsfromlonglong\<close> gives the decimal text of every number but the smallest.
\<close>

theorem sdsfromlonglong_decimal:
  assumes "LLONG_MIN < i" and "i \<le> LLONG_MAX"
  shows "runs (sdsfromlonglong env i) (sds_result env (int_dec i))"
  using assms by (rule sdsfromlonglong_runs)

theorem sdsfromlonglong_decimal_witness:
  "runs (sdsfromlonglong libc_env (- 42)) (sds_result libc_env ''-42'')"
proof -
  have "int_dec (- 42) = ''-42''" by code_simp
  with sdsfromlonglong_decimal [of "- 42" libc_env] show ?thesis
    by (simp add: LLONG_MIN_def LLONG_MAX_def)
qed

text \<open>
  For the smallest number it does not: the sign is dropped by negation, which overflows.
\<close>

theorem sdsfromlonglong_min_overflows: "sdsfromlonglong env LLONG_MIN = Flt SignedOverflow"
  by (rule sdsfromlonglong_min)

text \<open>
  C34. Formatted output of any length is appended whole: the buffer is doubled until the text
  fits, which always ends.
\<close>

theorem sdscatprintf_appends:
  assumes "sds_rep sh xs" and "NUL \<notin> set out" and "length xs + length out < 2 ^ 30"
  shows "runs (sdscatprintf env (Some sh) out) (sds_result env (xs @ out))"
  using assms by (rule sdscatprintf_runs)

theorem sdscatprintf_appends_witness:
  "runs (sdscatprintf libc_env (Some (sds_of ''n='' [])) ''a text of more than sixteen bytes'')
     (sds_result libc_env ''n=a text of more than sixteen bytes'')"
  using sdscatprintf_appends [of "sds_of ''n='' []" "''n=''" "''a text of more than sixteen bytes''" libc_env]
  by simp

end
