(* ===== verification/Sds_Program.thy ===== *)
theory Sds_Program
  imports Sds_Split Sds_Repr
begin

text \<open>
  Programs over \<open>src/src/sds.c\<close>: any sequence of operations on one string keeps it well-formed and
  computes what the sequence says, and the test program that the file carries.
\<close>

section \<open>Sequences of operations\<close>

text \<open>The operations on a string, with the counts its callers pass; \<open>Shorten\<close> is \<open>sdsIncrLen\<close> with \<open>-n\<close>.\<close>

datatype sds_op =
    CatLen bytes nat | Cat bytes | CpyLen bytes nat | Printf bytes | CatRepr bytes nat | Trim bytes
  | Range int int | ToLower | ToUpper | MapChars bytes bytes nat | Clear | UpdateLen | Shorten nat
  | GrowZero nat | MakeRoom nat | RemoveFree

fun sds_step :: "cenv \<Rightarrow> sds_op \<Rightarrow> sds \<Rightarrow> sds cr" where
  "sds_step env (CatLen t n) s = sdscatlen env s t (int n)"
| "sds_step env (Cat t) s = sdscat env s (t @ [NUL])"
| "sds_step env (CpyLen t n) s = sdscpylen env s t (int n)"
| "sds_step env (Printf t) s = sdscatprintf env s t"
| "sds_step env (CatRepr t n) s = sdscatrepr env s t (int n)"
| "sds_step env (Trim cset) s = sdstrim s cset"
| "sds_step env (Range i j) s = sdsrange s i j"
| "sds_step env ToLower s = sdstolower s"
| "sds_step env ToUpper s = sdstoupper s"
| "sds_step env (MapChars from to n) s = sdsmapchars s from to n"
| "sds_step env Clear s = sdsclear s"
| "sds_step env UpdateLen s = sdsupdatelen s"
| "sds_step env (Shorten n) s = sdsIncrLen s (- int n)"
| "sds_step env (GrowZero n) s = sdsgrowzero env s (int n)"
| "sds_step env (MakeRoom n) s = sdsMakeRoomFor env s (int n)"
| "sds_step env RemoveFree s = sdsRemoveFreeSpace env s"

text \<open>What each operation does to the bytes the string stands for.\<close>

fun op_bytes :: "sds_op \<Rightarrow> bytes \<Rightarrow> bytes" where
  "op_bytes (CatLen t n) xs = xs @ take n t"
| "op_bytes (Cat t) xs = xs @ t"
| "op_bytes (CpyLen t n) xs = take n t"
| "op_bytes (Printf t) xs = xs @ t"
| "op_bytes (CatRepr t n) xs = xs @ repr_bytes (take n t)"
| "op_bytes (Trim cset) xs = strip (c_strchr cset) xs"
| "op_bytes (Range i j) xs = range_spec xs i j"
| "op_bytes ToLower xs = map c_tolower xs"
| "op_bytes ToUpper xs = map c_toupper xs"
| "op_bytes (MapChars from to n) xs = map (subst_char (take n from) (take n to)) xs"
| "op_bytes Clear xs = []"
| "op_bytes UpdateLen xs = takeWhile (\<lambda>c. c \<noteq> NUL) xs"
| "op_bytes (Shorten n) xs = take (length xs - n) xs"
| "op_bytes (GrowZero n) xs = (if n \<le> length xs then xs else xs @ replicate (n - length xs) NUL)"
| "op_bytes (MakeRoom n) xs = xs"
| "op_bytes RemoveFree xs = xs"

text \<open>
  What an operation may be asked: counts inside the arrays given, index values of the type (but
  \<open>INT_MAX\<close> as the end of a range), contents below \<open>2 ^ 30\<close> bytes, and a granted allocation where
  the code does not test the answer.
\<close>

fun op_fair :: "cenv \<Rightarrow> sds_op \<Rightarrow> bytes \<Rightarrow> bool" where
  "op_fair env (CatLen t n) xs \<longleftrightarrow> n \<le> length t \<and> length xs + n < 2 ^ 30"
| "op_fair env (Cat t) xs \<longleftrightarrow> NUL \<notin> set t \<and> length xs + length t < 2 ^ 30"
| "op_fair env (CpyLen t n) xs \<longleftrightarrow> n \<le> length t \<and> length xs + n < 2 ^ 30"
| "op_fair env (Printf t) xs \<longleftrightarrow> NUL \<notin> set t \<and> length xs + length t < 2 ^ 30"
| "op_fair env (CatRepr t n) xs \<longleftrightarrow> n \<le> length t \<and> length xs + 4 * n + 2 < 2 ^ 30 \<and> grants_all env"
| "op_fair env (Range i j) xs \<longleftrightarrow> - (2 ^ 31) \<le> i \<and> i < 2 ^ 31 \<and> - (2 ^ 31) \<le> j \<and> j < 2 ^ 31 - 1"
| "op_fair env (MapChars from to n) xs \<longleftrightarrow> n \<le> length from \<and> n \<le> length to"
| "op_fair env (Shorten n) xs \<longleftrightarrow> n \<le> length xs"
| "op_fair env (GrowZero n) xs \<longleftrightarrow> n < 2 ^ 30"
| "op_fair env (MakeRoom n) xs \<longleftrightarrow> length xs + n < 2 ^ 30"
| "op_fair env RemoveFree xs \<longleftrightarrow> grants_all env"
| "op_fair env op xs \<longleftrightarrow> True"

text \<open>A run stops where an operation returned NULL.\<close>

fun sds_run :: "cenv \<Rightarrow> sds_op list \<Rightarrow> sds \<Rightarrow> sds cr" where
  "sds_run env [] s = Ok s"
| "sds_run env (op # ops) s = cbind (sds_step env op s) (\<lambda>s. if s = None then Ok None else sds_run env ops s)"

fun ops_fair :: "cenv \<Rightarrow> sds_op list \<Rightarrow> bytes \<Rightarrow> bool" where
  "ops_fair env [] xs \<longleftrightarrow> True"
| "ops_fair env (op # ops) xs \<longleftrightarrow> op_fair env op xs \<and> ops_fair env ops (op_bytes op xs)"

lemma runs_repI: "\<exists>sh'. m = Ok (Some sh') \<and> sds_rep sh' xs \<Longrightarrow> runs m (sds_result env xs)"
  by auto

lemma sds_step_wellformed:
  assumes rep: "sds_rep sh xs" and fair: "op_fair env op xs"
  shows "runs (sds_step env op (Some sh)) (sds_result env (op_bytes op xs))"
proof (cases op)
  case (Trim cset)
  then show ?thesis using sdstrim_rep [OF rep, of cset] by (auto intro: runs_repI)
next
  case (Range i j)
  then show ?thesis using sdsrange_rep [OF rep, of i j] fair by (auto intro: runs_repI)
next
  case (Clear)
  then show ?thesis using sdsclear_rep [OF rep] by auto
next
  case (Shorten n)
  then have xs: "sds_rep sh (take (length xs - n) xs @ drop (length xs - n) xs)" using rep by simp
  from sdsIncrLen_trim [OF xs] show ?thesis using fair Shorten by auto
next
  case (MakeRoom n)
  obtain rest where sh: "sh = sds_of xs rest" "length xs + length rest < 2 ^ 31" using rep by auto
  have "runs (sdsMakeRoomFor env (Some (sds_of xs rest)) (int n)) (sds_result env xs)"
    by (rule runs_mono [OF sdsMakeRoomFor_runs]) (use sh fair MakeRoom in \<open>auto split: option.splits\<close>)
  with MakeRoom sh show ?thesis by simp
next
  case RemoveFree
  then show ?thesis using sdsRemoveFreeSpace_rep [OF rep, of env] fair sds_rep_length [OF rep] by (auto intro: sds_repI)
qed (use assms sdscatlen_runs [OF rep, of _ _ env] sdscat_runs [OF rep, of _ env "[]"] sdscpylen_runs [OF rep, of _ _ env] sdscatprintf_runs [OF rep, of _ env]
       sdscatrepr_runs [OF rep, of _ _ env] sdstolower_rep [OF rep] sdstoupper_rep [OF rep] sdsmapchars_rep [OF rep]
       sdsupdatelen_rep [OF rep] sdsgrowzero_runs [OF rep, of _ env] in \<open>auto intro: runs_repI\<close>)

text \<open>
  C22. Strings stay well-formed: any sequence of operations with arguments in range takes a
  well-formed string to a well-formed one (terminated, its length and free space those of its
  block) that stands for what the operations make of its bytes, or stops with NULL where the
  allocator refuses; none of them faults.
\<close>

theorem sds_ops_wellformed:
  assumes "sds_rep sh xs" and "ops_fair env ops xs"
  shows "runs (sds_run env ops (Some sh)) (sds_result env (fold op_bytes ops xs))"
  using assms
proof (induction ops arbitrary: sh xs)
  case (Cons op ops)
  have "runs (sds_step env op (Some sh)) (sds_result env (op_bytes op xs))"
    using Cons.prems by (intro sds_step_wellformed) simp_all
  then show ?case
    unfolding sds_run.simps runs_cbind
  proof (rule runs_mono)
    fix s assume s: "sds_result env (op_bytes op xs) s"
    show "runs (if s = None then Ok None else sds_run env ops s) (sds_result env (fold op_bytes (op # ops) xs))"
      using s Cons.prems Cons.IH by (cases s) auto
  qed
qed simp

theorem sds_ops_wellformed_witness:
  "runs (sds_run libc_env [CatLen ''d '' 2, ToUpper, Trim '' '', Range 1 (- 1), GrowZero 4, RemoveFree] (Some (sds_of ''abc'' [])))
     (sds_result libc_env [CHR ''B'', CHR ''C'', CHR ''D'', NUL])"
proof -
  let ?ops = "[CatLen ''d '' 2, ToUpper, Trim '' '', Range 1 (- 1), GrowZero 4, RemoveFree]"
  have "fold op_bytes ?ops ''abc'' = [CHR ''B'', CHR ''C'', CHR ''D'', NUL]" by code_simp
  moreover have "sds_rep (sds_of ''abc'' []) ''abc''" by (intro sds_repI) simp
  ultimately show ?thesis using sds_ops_wellformed [of "sds_of ''abc'' []" "''abc''" libc_env ?ops] by simp
qed

section \<open>The test program\<close>

text \<open>
  \<open>main\<close> under \<open>SDS_TEST_MAIN\<close>. \<open>test_cond\<close> of the test header, which is not in the repository, is
  taken to record its description and its condition; the conditions are those of the code, with
  \<open>test_str x n t m\<close> for \<open>sdslen(x) == n && memcmp(x,t,m) == 0\<close>.
  \<open>sdsfree\<close> ends the life of a value and has no other effect.
\<close>

definition test_mem :: "sds \<Rightarrow> bytes \<Rightarrow> nat \<Rightarrow> bool cr" where
  "test_mem x t m =
     cbind (deref x) (\<lambda>sh.
     cbind (mem_read (sh_buf sh) 0 (int m)) (\<lambda>a.
     cbind (mem_read (t @ [NUL]) 0 (int m)) (\<lambda>b. Ok (c_memcmp a b = 0))))"

definition test_str :: "sds \<Rightarrow> int \<Rightarrow> bytes \<Rightarrow> nat \<Rightarrow> bool cr" where
  "test_str x n t m = cbind (deref x) (\<lambda>sh. if sdslen sh = n then test_mem x t m else Ok False)"

definition test_create :: "cenv \<Rightarrow> bool list cr" where
  "test_create env =
     cbind (sdsnew env (Some (''foo'' @ [NUL]))) (\<lambda>x.
     cbind (test_str x 3 (''foo'' @ [NUL]) 4) (\<lambda>t1.
     cbind (sdsnewlen env (Some (''foo'' @ [NUL])) 2) (\<lambda>x.
     cbind (test_str x 2 (''fo'' @ [NUL]) 3) (\<lambda>t2.
     cbind (sdscat env x (''bar'' @ [NUL])) (\<lambda>x.
     cbind (test_str x 5 (''fobar'' @ [NUL]) 6) (\<lambda>t3.
     cbind (sdscpy env x (''a'' @ [NUL])) (\<lambda>x.
     cbind (test_str x 1 (''a'' @ [NUL]) 2) (\<lambda>t4.
     cbind (sdscpy env x (''xyzxxxxxxxxxxyyyyyyyyyykkkkkkkkkk'' @ [NUL])) (\<lambda>x.
     cbind (test_str x 33 (''xyzxxxxxxxxxxyyyyyyyyyykkkkkkkkkk'' @ [NUL]) 33) (\<lambda>t5.
     cbind (sdsempty env) (\<lambda>x.
     cbind (sdscatprintf env x ''123'') (\<lambda>x.
     cbind (test_str x 3 (''123'' @ [NUL]) 4) (\<lambda>t6.
     Ok [t1, t2, t3, t4, t5, t6])))))))))))))"

text \<open>A copy of \<open>x\<close> cut to a range, as the tests of \<open>sdsrange\<close> all do it.\<close>

definition test_range :: "cenv \<Rightarrow> sds \<Rightarrow> int \<Rightarrow> int \<Rightarrow> int \<Rightarrow> bytes \<Rightarrow> nat \<Rightarrow> bool cr" where
  "test_range env x i j n t m =
     cbind (sdsdup env x) (\<lambda>y. cbind (sdsrange y i j) (\<lambda>y. test_str y n (t @ [NUL]) m))"

definition test_trim :: "cenv \<Rightarrow> bool list cr" where
  "test_trim env =
     cbind (sdsnew env (Some (''xxciaoyyy'' @ [NUL]))) (\<lambda>x.
     cbind (sdstrim x ''xy'') (\<lambda>x.
     cbind (test_str x 4 (''ciao'' @ [NUL]) 5) (\<lambda>t1.
     cbind (test_range env x 1 1 1 ''i'' 2) (\<lambda>t2.
     cbind (test_range env x 1 (- 1) 3 ''iao'' 4) (\<lambda>t3.
     cbind (test_range env x (- 2) (- 1) 2 ''ao'' 3) (\<lambda>t4.
     cbind (test_range env x 2 1 0 [] 1) (\<lambda>t5.
     cbind (test_range env x 1 100 3 ''iao'' 4) (\<lambda>t6.
     cbind (test_range env x 100 100 0 [] 1) (\<lambda>t7.
     Ok [t1, t2, t3, t4, t5, t6, t7])))))))))"

definition test_compare :: "cenv \<Rightarrow> bytes \<Rightarrow> bytes \<Rightarrow> (int \<Rightarrow> bool) \<Rightarrow> bool cr" where
  "test_compare env a b P =
     cbind (sdsnew env (Some (a @ [NUL]))) (\<lambda>x.
     cbind (sdsnew env (Some (b @ [NUL]))) (\<lambda>y.
     cbind (sdscmp x y) (\<lambda>c. Ok (P c))))"

definition test_order :: "cenv \<Rightarrow> bool list cr" where
  "test_order env =
     cbind (test_compare env ''foo'' ''foa'' (\<lambda>c. 0 < c)) (\<lambda>t1.
     cbind (test_compare env ''bar'' ''bar'' (\<lambda>c. c = 0)) (\<lambda>t2.
     cbind (test_compare env ''aar'' ''bar'' (\<lambda>c. c < 0)) (\<lambda>t3.
     Ok [t1, t2, t3])))"

definition test_repr :: "cenv \<Rightarrow> bool list cr" where
  "test_repr env =
     cbind (sdsnewlen env (Some ([CHR 0x07, LF, NUL] @ ''foo'' @ [CR, NUL])) 7) (\<lambda>x.
     cbind (sdsempty env) (\<lambda>y.
     cbind (deref x) (\<lambda>sh.
     cbind (sdscatrepr env y (sh_buf sh) (sdslen sh)) (\<lambda>y.
     cbind (test_mem y ([DQ, BSL] @ ''a'' @ [BSL] @ ''n'' @ [BSL] @ ''x00foo'' @ [BSL] @ ''r'' @ [DQ]) 15) (\<lambda>t.
     Ok [t])))))"

definition test_room :: "cenv \<Rightarrow> bool list cr" where
  "test_room env =
     cbind (sdsnew env (Some (''0'' @ [NUL]))) (\<lambda>x.
     cbind (deref x) (\<lambda>sh.
     let t1 = (sh_len sh = 1 \<and> sh_free sh = 0) in
     cbind (sdsMakeRoomFor env x 1) (\<lambda>x.
     cbind (deref x) (\<lambda>sh.
     let t2 = (sh_len sh = 1 \<and> 0 < sh_free sh); oldfree = sh_free sh in
     cbind (mem_write (sh_buf sh) 1 [CHR ''1'']) (\<lambda>b.
     cbind (sdsIncrLen (Some (sh\<lparr>sh_buf := b\<rparr>)) 1) (\<lambda>x.
     cbind (deref x) (\<lambda>sh.
     cbind (mem_get (sh_buf sh) 0) (\<lambda>c.
     cbind (mem_get (sh_buf sh) 1) (\<lambda>d.
     Ok [t1, t2, c = CHR ''0'' \<and> d = CHR ''1'', sh_len sh = 2, sh_free sh = oldfree - 1])))))))))"

definition sds_test_main :: "cenv \<Rightarrow> bool list cr" where
  "sds_test_main env =
     cbind (test_create env) (\<lambda>a.
     cbind (test_trim env) (\<lambda>b.
     cbind (test_order env) (\<lambda>c.
     cbind (test_repr env) (\<lambda>d.
     cbind (test_room env) (\<lambda>e. Ok (a @ b @ c @ d @ e))))))"


text \<open>The tests on a well-formed string read its bytes and the zero byte behind them.\<close>

lemma test_mem_rep:
  assumes "sds_rep sh xs" and "m \<le> Suc (length xs)" and "m \<le> Suc (length t)"
  shows "test_mem (Some sh) t m = Ok (c_memcmp (take m (xs @ [NUL])) (take m (t @ [NUL])) = 0)"
proof -
  obtain rest where sh: "sh_buf sh = (xs @ [NUL]) @ rest" using assms(1) by auto
  have "mem_read (sh_buf sh) 0 (int m) = Ok (take m (xs @ [NUL]))"
    unfolding sh using assms(2) by (auto simp: mem_read_def le_Suc_eq)
  moreover have "mem_read (t @ [NUL]) 0 (int m) = Ok (take m (t @ [NUL]))"
    using assms(3) by (simp add: mem_read_def)
  ultimately show ?thesis by (simp add: test_mem_def)
qed

lemma test_str_rep:
  assumes "sds_rep sh xs" and "m \<le> Suc (length xs)" and "m \<le> Suc (length t)" and "n = int (length xs)"
    and "c_memcmp (take m (xs @ [NUL])) (take m (t @ [NUL])) = 0"
  shows "test_str (Some sh) n t m = Ok True"
  using assms test_mem_rep [OF assms(1-3)] by (simp add: test_str_def sdslen_rep)

lemma sdsnew_text:
  assumes "grants_all env" and "NUL \<notin> set t" and "length t < 2 ^ 30"
  shows "sdsnew env (Some (t @ [NUL])) = Ok (Some (sds_of t []))"
  using assms sdsnewlen_copy [of "length t" "t @ [NUL]" env] by (simp add: sdsnew_def c_strlen_terminated)

text \<open>What an operation of the program leaves, with a granting allocator.\<close>

lemma step_content:
  assumes "sds_rep sh xs" and "op_fair env op xs" and "grants_all env" and "op_bytes op xs = ys"
  obtains sh' where "sds_step env op (Some sh) = Ok (Some sh')" and "sds_rep sh' ys"
  using sds_result_grants [OF sds_step_wellformed [OF assms(1,2)] assms(3)] assms(4) by metis

lemma test_create_passes:
  assumes "grants_all env"
  shows "test_create env = Ok [True, True, True, True, True, True]"
proof -
  let ?t = "''xyzxxxxxxxxxxyyyyyyyyyykkkkkkkkkk''"
  have lt: "3 < (2::nat) ^ 30" "5 < (2::nat) ^ 30" "39 < (2::nat) ^ 30" by simp_all
  have s: "sds_rep (sds_of ''foo'' []) ''foo''" "sds_rep (sds_of ''fo'' []) ''fo''" "sds_rep (sds_of [] []) []"
    by (auto intro!: sds_repI)
  have n1: "sdsnew env (Some (''foo'' @ [NUL])) = Ok (Some (sds_of ''foo'' []))"
    using sdsnew_text [OF assms, of "''foo''"] by simp
  have n2: "sdsnewlen env (Some (''foo'' @ [NUL])) 2 = Ok (Some (sds_of ''fo'' []))"
    using sdsnewlen_copy [of 2 "''foo'' @ [NUL]" env] assms by simp
  have n3: "sdsempty env = Ok (Some (sds_of [] []))" using sdsempty_eq [of env] assms by simp
  obtain a where a: "sdscat env (Some (sds_of ''fo'' [])) (''bar'' @ [NUL]) = Ok (Some a)" "sds_rep a ''fobar''"
    using step_content [OF s(2) _ assms, of "Cat ''bar''" "''fobar''"] by auto
  obtain b where b: "sdscpy env (Some a) (''a'' @ [NUL]) = Ok (Some b)" "sds_rep b ''a''"
    using step_content [OF a(2) _ assms, of "CpyLen (''a'' @ [NUL]) 1" "''a''"] by (auto simp: sdscpy_def c_strlen_def)
  obtain c where c: "sdscpy env (Some b) (?t @ [NUL]) = Ok (Some c)" "sds_rep c ?t"
    using step_content [OF b(2) _ assms, of "CpyLen (?t @ [NUL]) 33" "?t"] by (auto simp: sdscpy_def c_strlen_def)
  obtain d where d: "sdscatprintf env (Some (sds_of [] [])) ''123'' = Ok (Some d)" "sds_rep d ''123''"
    using step_content [OF s(3) _ assms, of "Printf ''123''" "''123''"] by auto
  show ?thesis
    unfolding test_create_def n1 n2 n3 a b c d cbind.simps
    by (simp add: test_str_rep [OF s(1)] test_str_rep [OF s(2)] test_str_rep [OF a(2)] test_str_rep [OF b(2)] test_str_rep [OF c(2)] test_str_rep [OF d(2)])
qed


lemma test_range_passes:
  assumes env: "grants_all env" and x: "sds_rep x xs" "length xs < 100" and ij: "- 200 \<le> i" "i < 200" "- 200 \<le> j" "j < 200"
    and "range_spec xs i j = t" and "m \<le> Suc (length t)" and "n = int (length t)"
  shows "test_range env (Some x) i j n t m = Ok True"
proof -
  have y: "sdsdup env (Some x) = Ok (Some (sds_of xs []))" using sdsdup_rep [OF x(1)] x(2) env by simp
  have rep: "sds_rep (sds_of xs []) xs" using x(2) by (intro sds_repI) simp
  obtain z where z: "sdsrange (Some (sds_of xs [])) i j = Ok (Some z)" "sds_rep z t"
    using step_content [OF rep _ env, of "Range i j" t] ij assms(8) by auto
  have "c_memcmp (take m (t @ [NUL])) (take m ((t @ [NUL]) @ [NUL])) = 0"
    using assms(9) by (subst take_append [of m "t @ [NUL]"]) (simp add: c_memcmp_eq_0)
  then show ?thesis using y z test_str_rep [OF z(2), of m "t @ [NUL]" n] assms(9,10) by (simp add: test_range_def)
qed

lemma test_trim_passes:
  assumes "grants_all env"
  shows "test_trim env = Ok [True, True, True, True, True, True, True]"
proof -
  have n1: "sdsnew env (Some (''xxciaoyyy'' @ [NUL])) = Ok (Some (sds_of ''xxciaoyyy'' []))"
    using sdsnew_text [OF assms, of "''xxciaoyyy''"] by simp
  have s: "sds_rep (sds_of ''xxciaoyyy'' []) ''xxciaoyyy''" by (intro sds_repI) simp
  have "strip (c_strchr ''xy'') ''xxciaoyyy'' = ''ciao''" by code_simp
  then obtain x where x: "sdstrim (Some (sds_of ''xxciaoyyy'' [])) ''xy'' = Ok (Some x)" "sds_rep x ''ciao''"
    using step_content [OF s _ assms, of "Trim ''xy''" "''ciao''"] by auto
  have r: "range_spec ''ciao'' 1 1 = ''i''" "range_spec ''ciao'' 1 (- 1) = ''iao''" "range_spec ''ciao'' (- 2) (- 1) = ''ao''"
    "range_spec ''ciao'' 2 1 = []" "range_spec ''ciao'' 1 100 = ''iao''" "range_spec ''ciao'' 100 100 = []"
    by code_simp+
  note t = test_range_passes [OF assms x(2)]
  show ?thesis
    unfolding test_trim_def n1 x(1) cbind.simps
    by (simp add: t [OF _ _ _ _ _ r(1)] t [OF _ _ _ _ _ r(2)] t [OF _ _ _ _ _ r(3)] t [OF _ _ _ _ _ r(4)]
        t [OF _ _ _ _ _ r(5)] t [OF _ _ _ _ _ r(6)] test_str_rep [OF x(2)])
qed

lemma test_compare_eq:
  assumes "grants_all env" and "NUL \<notin> set a" "NUL \<notin> set b" and "length a < 2 ^ 30" "length b < 2 ^ 30"
  shows "test_compare env a b P = Ok (P (if c_memcmp a b = 0 then int (length a) - int (length b) else c_memcmp a b))"
proof -
  have "sds_rep (sds_of a []) a" "sds_rep (sds_of b []) b" using assms by (auto intro!: sds_repI)
  from sdscmp_eq [OF this] show ?thesis
    using sdsnew_text [OF assms(1)] assms by (simp add: test_compare_def)
qed

lemma test_order_passes:
  assumes "grants_all env"
  shows "test_order env = Ok [True, True, True]"
  by (simp add: test_order_def test_compare_eq [OF assms])

lemma test_repr_passes:
  assumes "grants_all env"
  shows "test_repr env = Ok [True]"
proof -
  let ?t = "[CHR 0x07, LF, NUL] @ ''foo'' @ [CR]"
  have n1: "sdsnewlen env (Some ([CHR 0x07, LF, NUL] @ ''foo'' @ [CR, NUL])) 7 = Ok (Some (sds_of ?t []))"
    using sdsnewlen_copy [of 7 "?t @ [NUL]" env] assms by simp
  have n2: "sdsempty env = Ok (Some (sds_of [] []))" using sdsempty_eq [of env] assms by simp
  have s: "sds_rep (sds_of [] []) []" by (intro sds_repI) simp
  have len: "sdslen (sds_of ?t []) = 7" "sh_buf (sds_of ?t []) = ?t @ [NUL]"
    by (simp_all add: sdslen_def c_size_id)
  let ?r = "[DQ, BSL] @ ''a'' @ [BSL] @ ''n'' @ [BSL] @ ''x00foo'' @ [BSL] @ ''r'' @ [DQ]"
  have r: "repr_bytes (take 7 (?t @ [NUL])) = ?r" by code_simp
  obtain y where y: "sdscatrepr env (Some (sds_of [] [])) (?t @ [NUL]) 7 = Ok (Some y)" "sds_rep y ?r"
    using step_content [OF s _ assms, of "CatRepr (?t @ [NUL]) 7"] r assms by auto
  have "test_mem (Some y) ?r 15 = Ok True" using test_mem_rep [OF y(2), of 15 ?r] by simp
  then show ?thesis
    unfolding test_repr_def n1 n2 cbind.simps deref.simps len y by simp
qed

lemma test_room_passes:
  assumes "grants_all env"
  shows "test_room env = Ok [True, True, True, True, True]"
proof -
  have n1: "sdsnew env (Some (''0'' @ [NUL])) = Ok (Some (sds_of ''0'' []))"
    using sdsnew_text [OF assms, of "''0''"] by simp
  define rest where "rest = map (junk env) [2, 3, 4]"
  have up: "[Suc (Suc 0)..<5] = [2, 3, 4]" by code_simp
  have room: "sdsMakeRoomFor env (Some (sds_of ''0'' [])) 1 = Ok (Some (sds_of ''0'' rest))"
    using assms by (simp add: sdsMakeRoomFor_def sds_simps sds_of_def sh_realloc_def rest_def up)
  obtain c rest' where rest: "rest = c # rest'" by (cases rest) (simp_all add: rest_def)
  then have "length rest' < 9" by (auto simp: rest_def)
  have w: "mem_write (sh_buf (sds_of ''0'' rest)) 1 [CHR ''1''] = Ok (''01'' @ c # rest')"
    by (simp add: mem_write_def sds_of_def rest)
  have "sdsIncrLen (Some ((sds_of ''0'' rest)\<lparr>sh_buf := ''01'' @ c # rest'\<rparr>)) (int (length ''1'')) = Ok (Some (sds_of (''0'' @ ''1'') rest'))"
    by (rule sdsIncrLen_grow [where c = c]) (use \<open>length rest' < 9\<close> in \<open>simp_all add: sds_of_def rest\<close>)
  then have i: "sdsIncrLen (Some ((sds_of ''0'' rest)\<lparr>sh_buf := ''01'' @ c # rest'\<rparr>)) 1 = Ok (Some (sds_of ''01'' rest'))"
    by simp
  show ?thesis
    unfolding test_room_def n1 cbind.simps deref.simps room Let_def w i
    by (simp add: sds_of_def mem_get_def rest)
qed

text \<open>
  C23. The library passes its own test program: with any allocator that grants what is asked, whatever
  its blocks hold before, each of the 22 conditions of \<open>main\<close> holds, and no test faults.
\<close>

theorem sds_tests_pass:
  assumes "grants_all env"
  shows "sds_test_main env = Ok (replicate 22 True)"
  unfolding sds_test_main_def test_create_passes [OF assms] test_trim_passes [OF assms] test_order_passes [OF assms]
    test_repr_passes [OF assms] test_room_passes [OF assms] by (simp add: numeral_eq_Suc)

theorem sds_tests_pass_witness: "sds_test_main libc_env = Ok (replicate 22 True)"
  by (rule sds_tests_pass) simp

end
