(* ===== verification/Cb_Store.thy ===== *)
theory Cb_Store
  imports Snail_Prelude
begin

text \<open>
  \<open>src/src/cb.h\<close> and \<open>src/src/cb.c\<close>: callbacks with their channels, the linked lists that
  hold them, and the two kinds of search tree (by name and by timer interval) whose nodes
  carry such lists. Callbacks are shared between lists and counted, so channels, callbacks,
  list cells, list ends and node fields live in a store by address; a tree is the datatype of
  its node addresses, because a node has one owner. The calls that leave for libuv and Lua
  are recorded as a trace of effects.
\<close>

section \<open>Data\<close>

definition SNAIL_ERR :: int where "SNAIL_ERR = - 1"
definition SNAIL_OK :: int where "SNAIL_OK = 0"

definition CHANNEL_SUBSCRIBED :: int where "CHANNEL_SUBSCRIBED = 1"
definition CHANNEL_TIMER_EVENT :: int where "CHANNEL_TIMER_EVENT = 8"
definition CALLBACK_INITIALIZED :: int where "CALLBACK_INITIALIZED = 1"

lemmas cb_flag_defs = SNAIL_ERR_def SNAIL_OK_def CHANNEL_SUBSCRIBED_def CHANNEL_TIMER_EVENT_def
  CALLBACK_INITIALIZED_def

record channel =
  ch_name :: "bytes option"
  ch_ikey :: int
  ch_flags :: int

text \<open>
  \<open>flags\<close> is not set by \<open>create_callback\<close>: \<open>None\<close> is the value nobody wrote, and reading it gives
  what the allocator left there. An empty list of channels stands for the NULL vector, too.
\<close>

record callback =
  cb_ref :: int
  cb_flags :: "int option"
  cb_nb_channel :: int
  cb_attach :: int
  cb_channels :: "nat option list"

record callback_ll =
  ll_cb :: nat
  ll_next :: "nat option"

record callback_ends =
  e_head :: "nat option"
  e_tail :: "nat option"

text \<open>The fields of a node but its children; a field that was never written is \<open>None\<close>.\<close>

record node =
  n_key :: "bytes option"
  n_ikey :: "int option"
  n_cb_list :: "nat option"
  n_data :: "nat option option"

datatype ctree = Tip | Branch nat ctree ctree

text \<open>Values handed to Lua, and what leaves the program.\<close>

text \<open>
  What the program pushes for a Lua function it calls: the error table of
  \<open>luv_push_async_error_raw\<close> has the fields code, message, source and path, and \<open>LNum n\<close> is the number
  that Lua makes of the \<open>n\<close> given to \<open>lua_pushinteger\<close>.
\<close>

datatype lua = LNil | LNum int | LStr bytes | LTable "(int \<times> lua) list"
  | LError "bytes option" bytes bytes "bytes option"

datatype effect =
    LuaCall int "lua list"
  | LuaUnref int
  | LuaError bytes
  | TimerStart nat int int
  | TimerStop nat
  | UvConnect nat nat
  | UvWrite nat nat bytes
  | UvReadStart nat
  | UvReadStop nat
  | UvClose nat bool

text \<open>
  A libuv handle or request of the program. \<open>h_data\<close> says whether its \<open>data\<close> field was set to the
  client context; \<open>h_repeat\<close> is the interval of a timer.
\<close>

record handle =
  h_data :: bool
  h_repeat :: int

text \<open>
  \<open>w_reqs\<close> and \<open>w_bufs\<close> are the free lists of requests and of read buffers (address and size),
  \<open>w_next\<close> is the next address that was never used.
\<close>

record world =
  w_chan :: "nat \<Rightarrow> channel option"
  w_call :: "nat \<Rightarrow> callback option"
  w_ll :: "nat \<Rightarrow> callback_ll option"
  w_ends :: "nat \<Rightarrow> callback_ends option"
  w_node :: "nat \<Rightarrow> node option"
  w_hand :: "nat \<Rightarrow> handle option"
  w_next :: nat
  w_reqs :: "nat list"
  w_bufs :: "(nat \<times> int) list"
  w_trace :: "effect list"

definition load :: "('a \<Rightarrow> 'b option) \<Rightarrow> 'a \<Rightarrow> 'b cr" where
  "load m a = (case m a of None \<Rightarrow> Flt UseAfterFree | Some x \<Rightarrow> Ok x)"

lemma load_simps [simp]: "m a = Some x \<Longrightarrow> load m a = Ok x" "m a = None \<Longrightarrow> load m a = Flt UseAfterFree"
  by (simp_all add: load_def)

definition emit :: "world \<Rightarrow> effect \<Rightarrow> world" where
  "emit w e = w\<lparr>w_trace := w_trace w @ [e]\<rparr>"

definition put_chan :: "world \<Rightarrow> nat \<Rightarrow> channel \<Rightarrow> world" where
  "put_chan w a x = w\<lparr>w_chan := (w_chan w)(a \<mapsto> x)\<rparr>"

definition put_call :: "world \<Rightarrow> nat \<Rightarrow> callback \<Rightarrow> world" where
  "put_call w a x = w\<lparr>w_call := (w_call w)(a \<mapsto> x)\<rparr>"

definition put_ll :: "world \<Rightarrow> nat \<Rightarrow> callback_ll \<Rightarrow> world" where
  "put_ll w a x = w\<lparr>w_ll := (w_ll w)(a \<mapsto> x)\<rparr>"

definition put_ends :: "world \<Rightarrow> nat \<Rightarrow> callback_ends \<Rightarrow> world" where
  "put_ends w a x = w\<lparr>w_ends := (w_ends w)(a \<mapsto> x)\<rparr>"

definition put_node :: "world \<Rightarrow> nat \<Rightarrow> node \<Rightarrow> world" where
  "put_node w a x = w\<lparr>w_node := (w_node w)(a \<mapsto> x)\<rparr>"

definition put_hand :: "world \<Rightarrow> nat \<Rightarrow> handle \<Rightarrow> world" where
  "put_hand w a x = w\<lparr>w_hand := (w_hand w)(a \<mapsto> x)\<rparr>"

text \<open>The next address, taken.\<close>

definition bump :: "world \<Rightarrow> world" where
  "bump w = w\<lparr>w_next := Suc (w_next w)\<rparr>"

lemmas put_defs = put_chan_def put_call_def put_ll_def put_ends_def put_node_def put_hand_def bump_def emit_def

section \<open>Channels and callbacks\<close>

text \<open>A field of a fresh block that nobody wrote holds what the allocator left there.\<close>

definition junk_field :: "cenv \<Rightarrow> nat \<Rightarrow> nat \<Rightarrow> int" where
  "junk_field env off n = (\<Sum>i<n. int (of_char (junk env (off + i))) * 256 ^ i)"

text \<open>The \<open>assert\<close>s on the target pointer are the callers' part: they pass a NULL variable.\<close>

definition create_channel :: "cenv \<Rightarrow> world \<Rightarrow> bytes \<Rightarrow> int \<times> nat option \<times> world" where
  "create_channel env w name =
     (if \<not> alloc_ok env 24 then (SNAIL_ERR, None, w)
      else
        let a = w_next w in
        if \<not> alloc_ok env (Suc (length name))
        then (SNAIL_ERR, Some a, put_chan (bump w) a
               \<lparr>ch_name = None, ch_ikey = junk_field env 8 8, ch_flags = c_int (junk_field env 16 4)\<rparr>)
        else (SNAIL_OK, Some a, put_chan (bump w) a \<lparr>ch_name = Some name, ch_ikey = 0, ch_flags = 0\<rparr>))"

definition create_timer_channel :: "cenv \<Rightarrow> world \<Rightarrow> int \<Rightarrow> int \<times> nat option \<times> world" where
  "create_timer_channel env w ikey =
     (if \<not> alloc_ok env 24 then (SNAIL_ERR, None, w)
      else
        let a = w_next w in
        (SNAIL_OK, Some a,
         put_chan (bump w) a \<lparr>ch_name = None, ch_ikey = ikey, ch_flags = CHANNEL_TIMER_EVENT\<rparr>))"

definition destroy_channel :: "world \<Rightarrow> nat option \<Rightarrow> world cr" where
  "destroy_channel w channel =
     cbind (c_assert (channel \<noteq> None)) (\<lambda>_.
     cbind (deref channel) (\<lambda>a.
     cbind (load (w_chan w) a) (\<lambda>_.
     Ok (w\<lparr>w_chan := (w_chan w)(a := None)\<rparr>))))"

definition create_callback :: "cenv \<Rightarrow> world \<Rightarrow> int \<Rightarrow> int \<Rightarrow> int \<times> nat option \<times> world" where
  "create_callback env w ref nb_channel =
     (if \<not> alloc_ok env 24 then (SNAIL_ERR, None, w)
      else
        let a = w_next w;
            cb = \<lparr>cb_ref = ref, cb_flags = None, cb_nb_channel = nb_channel, cb_attach = 0,
                  cb_channels = []\<rparr> in
        if \<not> alloc_ok env (nat (8 * nb_channel)) then (SNAIL_ERR, Some a, put_call (bump w) a cb)
        else (SNAIL_OK, Some a,
              put_call (bump w) a (cb\<lparr>cb_channels := replicate (nat nb_channel) None\<rparr>)))"

fun destroy_channels :: "nat option list \<Rightarrow> world \<Rightarrow> world cr" where
  "destroy_channels [] w = Ok w"
| "destroy_channels (c # cs) w = cbind (destroy_channel w c) (destroy_channels cs)"

definition destroy_callback :: "world \<Rightarrow> nat option \<Rightarrow> world cr" where
  "destroy_callback w callback =
     cbind (c_assert (callback \<noteq> None)) (\<lambda>_.
     cbind (deref callback) (\<lambda>a.
     cbind (load (w_call w) a) (\<lambda>cb.
     cbind (if int (length (cb_channels cb)) < cb_nb_channel cb then Flt OutOfBounds
            else destroy_channels (take (nat (cb_nb_channel cb)) (cb_channels cb)) w) (\<lambda>w.
     Ok (w\<lparr>w_call := (w_call w)(a := None)\<rparr>)))))"

section \<open>Lists of callbacks\<close>

definition wrap_cb :: "cenv \<Rightarrow> world \<Rightarrow> nat option \<Rightarrow> (int \<times> nat option \<times> world) cr" where
  "wrap_cb env w cb =
     cbind (c_assert (cb \<noteq> None)) (\<lambda>_.
     cbind (deref cb) (\<lambda>c.
     if \<not> alloc_ok env 16 then Ok (SNAIL_ERR, None, w)
     else Ok (SNAIL_OK, Some (w_next w),
              put_ll (bump w) (w_next w) \<lparr>ll_cb = c, ll_next = None\<rparr>)))"

definition destroy_wrapper :: "world \<Rightarrow> nat option \<Rightarrow> world cr" where
  "destroy_wrapper w wrapper =
     cbind (c_assert (wrapper \<noteq> None)) (\<lambda>_.
     cbind (deref wrapper) (\<lambda>a.
     cbind (load (w_ll w) a) (\<lambda>l.
     cbind (load (w_call w) (ll_cb l)) (\<lambda>cb.
     cbind (if cb_attach cb = 1 then destroy_callback w (Some (ll_cb l))
            else cbind (s_int (cb_attach cb - 1)) (\<lambda>n.
                 Ok (put_call w (ll_cb l) (cb\<lparr>cb_attach := n\<rparr>)))) (\<lambda>w.
     Ok (w\<lparr>w_ll := (w_ll w)(a := None)\<rparr>))))))"

text \<open>\<open>list\<close> is the address of the ends; the pointer the code passes is never NULL itself.\<close>

definition push_cb :: "world \<Rightarrow> nat option \<Rightarrow> nat option \<Rightarrow> world cr" where
  "push_cb w list source =
     cbind (c_assert (list \<noteq> None)) (\<lambda>_.
     cbind (c_assert (source \<noteq> None)) (\<lambda>_.
     cbind (deref list) (\<lambda>e.
     cbind (deref source) (\<lambda>s.
     cbind (load (w_ends w) e) (\<lambda>en.
     let en' = (if e_head en = None then en\<lparr>e_head := Some s\<rparr> else en) in
     cbind (case e_tail en' of
              None \<Rightarrow> Ok w
            | Some t \<Rightarrow> cbind (load (w_ll w) t) (\<lambda>l. Ok (put_ll w t (l\<lparr>ll_next := Some s\<rparr>)))) (\<lambda>w.
     let w = put_ends w e (en'\<lparr>e_tail := Some s\<rparr>) in
     cbind (load (w_ll w) s) (\<lambda>l.
     cbind (load (w_call w) (ll_cb l)) (\<lambda>cb.
     cbind (s_int (cb_attach cb + 1)) (\<lambda>n.
     Ok (put_call w (ll_cb l) (cb\<lparr>cb_attach := n\<rparr>)))))))))))"

text \<open>Returns the status and the copy made for the target, if there was a callback.\<close>

definition shift_cb :: "world \<Rightarrow> nat option \<Rightarrow> (int \<times> callback option \<times> world) cr" where
  "shift_cb w list =
     cbind (deref list) (\<lambda>e.
     cbind (load (w_ends w) e) (\<lambda>en.
     case e_head en of
       None \<Rightarrow> Ok (SNAIL_ERR, None, w)
     | Some p \<Rightarrow>
         cbind (load (w_ll w) p) (\<lambda>l.
         let en = en\<lparr>e_head := ll_next l\<rparr>;
             en = (if e_tail en = Some p then en\<lparr>e_tail := None\<rparr> else en) in
         cbind (load (w_call w) (ll_cb l)) (\<lambda>cb.
         cbind (destroy_wrapper (put_ends w e en) (Some p)) (\<lambda>w.
         Ok (SNAIL_OK, Some cb, w))))))"

text \<open>The walk over the cells; a list of more cells than addresses were ever used is cyclic.\<close>

fun destroy_cells :: "nat \<Rightarrow> nat option \<Rightarrow> world \<Rightarrow> world cr" where
  "destroy_cells n None w = Ok w"
| "destroy_cells 0 (Some p) w = Flt Diverges"
| "destroy_cells (Suc n) (Some p) w =
     cbind (load (w_ll w) p) (\<lambda>l.
     cbind (destroy_wrapper w (Some p)) (destroy_cells n (ll_next l)))"

definition destroy_list :: "world \<Rightarrow> nat option \<Rightarrow> world cr" where
  "destroy_list w cb_list =
     (case cb_list of
        None \<Rightarrow> Ok w
      | Some e \<Rightarrow>
          cbind (load (w_ends w) e) (\<lambda>en.
          cbind (destroy_cells (w_next w) (e_head en) w) (\<lambda>w.
          Ok (put_ends w e \<lparr>e_head = None, e_tail = None\<rparr>))))"

section \<open>Trees by name\<close>

text \<open>\<open>strncmp\<close> on zero-terminated strings given by their contents.\<close>

fun c_strncmp :: "bytes \<Rightarrow> bytes \<Rightarrow> nat \<Rightarrow> int" where
  "c_strncmp xs ys 0 = 0"
| "c_strncmp [] [] (Suc n) = 0"
| "c_strncmp [] (y # ys) (Suc n) = - int (of_char y)"
| "c_strncmp (x # xs) [] (Suc n) = int (of_char x)"
| "c_strncmp (x # xs) (y # ys) (Suc n) =
     (if x = y then c_strncmp xs ys n else int (of_char x) - int (of_char y))"

text \<open>A new node with its empty list, or what a refused allocation leaves of it.\<close>

definition new_node :: "cenv \<Rightarrow> world \<Rightarrow> node \<Rightarrow> int \<Rightarrow> int \<times> ctree \<times> nat option \<times> world" where
  "new_node env w nd ok =
     (let a = w_next w; e = Suc a in
      if \<not> alloc_ok env 16
      then (SNAIL_ERR, Branch a Tip Tip, None, put_node (bump w) a (nd\<lparr>n_cb_list := None, n_data := None\<rparr>))
      else (ok, Branch a Tip Tip, Some a,
            put_ends (put_node (bump (bump w)) a (nd\<lparr>n_cb_list := Some e, n_data := Some None\<rparr>))
              e \<lparr>e_head = None, e_tail = None\<rparr>))"

text \<open>The status, the new root, the leaf (left as it was on failure) and the store.\<close>

fun tree_insert :: "cenv \<Rightarrow> world \<Rightarrow> ctree \<Rightarrow> bytes \<Rightarrow> (int \<times> ctree \<times> nat option \<times> world) cr" where
  "tree_insert env w Tip key =
     (if \<not> alloc_ok env 48 then Ok (SNAIL_ERR, Tip, None, w)
      else Ok (new_node env w
             \<lparr>n_key = (if alloc_ok env (Suc (length key)) then Some key else None), n_ikey = None,
              n_cb_list = None, n_data = None\<rparr> SNAIL_OK))"
| "tree_insert env w (Branch a l r) key =
     cbind (load (w_node w) a) (\<lambda>nd.
     cbind (deref (n_key nd)) (\<lambda>k.
     let cmp = c_strncmp key k (length key) in
     if cmp < 0
     then cbind (tree_insert env w l key) (\<lambda>(st, l, leaf, w). Ok (st, Branch a l r, leaf, w))
     else if 0 < cmp
     then cbind (tree_insert env w r key) (\<lambda>(st, r, leaf, w). Ok (st, Branch a l r, leaf, w))
     else Ok (SNAIL_OK, Branch a l r, Some a, w)))"

text \<open>The list of the node found; the code asserts that there is a node.\<close>

fun tree_search :: "world \<Rightarrow> bytes \<Rightarrow> ctree \<Rightarrow> nat option cr" where
  "tree_search w key Tip = Flt AssertFail"
| "tree_search w key (Branch a l r) =
     cbind (load (w_node w) a) (\<lambda>nd.
     cbind (deref (n_key nd)) (\<lambda>k.
     let cmp = c_strncmp key k (length key) in
     if cmp = 0 then Ok (n_cb_list nd)
     else if cmp < 0 then tree_search w key l
     else tree_search w key r))"

section \<open>Trees by interval\<close>

definition never_written :: "'a option \<Rightarrow> 'a cr" where
  "never_written x = (case x of None \<Rightarrow> Flt Uninitialised | Some v \<Rightarrow> Ok v)"

fun insert_timer :: "cenv \<Rightarrow> world \<Rightarrow> ctree \<Rightarrow> int \<Rightarrow> (int \<times> ctree \<times> nat option \<times> world) cr" where
  "insert_timer env w Tip key =
     (if \<not> alloc_ok env 48 then Ok (SNAIL_ERR, Tip, None, w)
      else Ok (new_node env w
             \<lparr>n_key = None, n_ikey = Some key, n_cb_list = None, n_data = None\<rparr> 2))"
| "insert_timer env w (Branch a l r) key =
     cbind (load (w_node w) a) (\<lambda>nd.
     cbind (never_written (n_ikey nd)) (\<lambda>k.
     if key < k
     then cbind (insert_timer env w l key) (\<lambda>(st, l, leaf, w). Ok (st, Branch a l r, leaf, w))
     else if k < key
     then cbind (insert_timer env w r key) (\<lambda>(st, r, leaf, w). Ok (st, Branch a l r, leaf, w))
     else Ok (SNAIL_OK, Branch a l r, Some a, w)))"

fun search_timer :: "world \<Rightarrow> int \<Rightarrow> ctree \<Rightarrow> nat cr" where
  "search_timer w key Tip = Flt AssertFail"
| "search_timer w key (Branch a l r) =
     cbind (load (w_node w) a) (\<lambda>nd.
     cbind (never_written (n_ikey nd)) (\<lambda>k.
     if key = k then Ok a
     else if key < k then search_timer w key l
     else search_timer w key r))"

section \<open>Releasing a tree\<close>

text \<open>\<open>req_free\<close> and \<open>stop_timer\<close> of \<open>src/src/crazysnail.c\<close>, which the trees call.\<close>

definition req_free :: "world \<Rightarrow> nat \<Rightarrow> world" where
  "req_free w a = w\<lparr>w_reqs := a # w_reqs w\<rparr>"

definition stop_timer :: "world \<Rightarrow> nat \<Rightarrow> world" where
  "stop_timer w a = req_free (emit w (TimerStop a)) a"

fun destroy_tree :: "ctree \<Rightarrow> world \<Rightarrow> world cr" where
  "destroy_tree Tip w = Ok w"
| "destroy_tree (Branch a l r) w =
     cbind (destroy_tree l w) (\<lambda>w.
     cbind (destroy_tree r w) (\<lambda>w.
     cbind (load (w_node w) a) (\<lambda>nd.
     cbind (never_written (n_data nd)) (\<lambda>d.
     let w = (case d of None \<Rightarrow> w | Some h \<Rightarrow> stop_timer w h) in
     cbind (destroy_list w (n_cb_list nd)) (\<lambda>w.
     let w = (case n_cb_list nd of None \<Rightarrow> w | Some e \<Rightarrow> w\<lparr>w_ends := (w_ends w)(e := None)\<rparr>) in
     Ok (w\<lparr>w_node := (w_node w)(a := None)\<rparr>))))))"

end
