(* ===== verification/Cb_Queue.thy ===== *)
theory Cb_Queue
  imports Cb_Store
begin

text \<open>
  The lists of callbacks as queues. The client matches replies to commands by order alone, so
  what it relies on is stated as an interface, \<open>fifo\<close>, and the linked list of \<open>cb.c\<close> is shown
  to provide it; each callback taken out is released with its cell.
\<close>

section \<open>What a client of a queue relies on\<close>

datatype 'a qop = Enq 'a | Deq

fun run_ops :: "('a \<Rightarrow> 's \<Rightarrow> 's cr) \<Rightarrow> ('s \<Rightarrow> ('a option \<times> 's) cr) \<Rightarrow> 'a qop list \<Rightarrow> 's \<Rightarrow>
    ('a option list \<times> 's) cr" where
  "run_ops enq deq [] s = Ok ([], s)"
| "run_ops enq deq (Enq x # ops) s = cbind (enq x s) (run_ops enq deq ops)"
| "run_ops enq deq (Deq # ops) s =
     cbind (deq s) (\<lambda>(y, s). cbind (run_ops enq deq ops s) (\<lambda>(ys, s). Ok (y # ys, s)))"

text \<open>The same operations on a list: what is taken out, and what is left.\<close>

fun list_ops :: "'a qop list \<Rightarrow> 'a list \<Rightarrow> 'a option list \<times> 'a list" where
  "list_ops [] xs = ([], xs)"
| "list_ops (Enq x # ops) xs = list_ops ops (xs @ [x])"
| "list_ops (Deq # ops) [] = (let (ys, zs) = list_ops ops [] in (None # ys, zs))"
| "list_ops (Deq # ops) (x # xs) = (let (ys, zs) = list_ops ops xs in (Some x # ys, zs))"

locale fifo =
  fixes inv :: "'s \<Rightarrow> bool"
    and items :: "'s \<Rightarrow> 'a list"
    and enq :: "'a \<Rightarrow> 's \<Rightarrow> 's cr"
    and deq :: "'s \<Rightarrow> ('a option \<times> 's) cr"
  assumes enq_law: "inv s \<Longrightarrow> runs (enq x s) (\<lambda>s'. inv s' \<and> items s' = items s @ [x])"
    and deq_law: "inv s \<Longrightarrow> runs (deq s) (\<lambda>(y, s'). inv s' \<and>
      (case items s of [] \<Rightarrow> y = None \<and> items s' = [] | x # xs \<Rightarrow> y = Some x \<and> items s' = xs))"
begin

lemma run_ops_law:
  assumes "inv s"
  shows "runs (run_ops enq deq ops s) (\<lambda>(ys, s'). inv s' \<and> list_ops ops (items s) = (ys, items s'))"
  using assms
proof (induction ops arbitrary: s)
  case (Cons p ops)
  show ?case
  proof (cases p)
    case (Enq x)
    show ?thesis
      unfolding Enq run_ops.simps runs_cbind
      by (rule runs_mono [OF enq_law [OF Cons.prems]]) (use Cons.IH in fastforce)
  next
    case Deq
    show ?thesis
      unfolding Deq run_ops.simps runs_cbind
    proof (rule runs_mono [OF deq_law [OF Cons.prems]], clarify)
      fix y s'
      assume inv: "inv s'" and y: "case items s of [] \<Rightarrow> y = None \<and> items s' = []
        | x # xs \<Rightarrow> y = Some x \<and> items s' = xs"
      have "list_ops (Deq # ops) (items s) = (let (ys, zs) = list_ops ops (items s') in (y # ys, zs))"
        using y by (cases "items s") auto
      then show "runs (cbind (run_ops enq deq ops s') (\<lambda>(ys, s). Ok (y # ys, s)))
          (\<lambda>(ys, s'). inv s' \<and> list_ops (Deq # ops) (items s) = (ys, items s'))"
        using Cons.IH [OF inv] by (auto simp: runs_cbind elim!: runs_mono)
    qed
  qed
qed simp

text \<open>In particular what goes into an empty queue comes out in the same order.\<close>

lemma order_kept:
  assumes "inv s" and "items s = []"
  shows "runs (run_ops enq deq (map Enq xs @ replicate (length xs) Deq) s)
           (\<lambda>(ys, s'). inv s' \<and> ys = map Some xs \<and> items s' = [])"
proof -
  have take: "list_ops (replicate (length xs) Deq) xs = (map Some xs, [])" for xs :: "'a list"
    by (induction xs) auto
  have put: "list_ops (map Enq xs @ ops) zs = list_ops ops (zs @ xs)" for ops zs and xs :: "'a list"
    by (induction xs arbitrary: zs) auto
  have "list_ops (map Enq xs @ replicate (length xs) Deq) (items s) = (map Some xs, [])"
    using assms(2) put take by simp
  with run_ops_law [OF assms(1), of "map Enq xs @ replicate (length xs) Deq"] show ?thesis
    by (auto elim!: runs_mono)
qed

end

section \<open>A queue of callbacks in the store\<close>

text \<open>The cells from \<open>p\<close> on, each with the callback it holds.\<close>

fun chain :: "(nat \<Rightarrow> callback_ll option) \<Rightarrow> nat option \<Rightarrow> (nat \<times> nat) list \<Rightarrow> bool" where
  "chain m p [] \<longleftrightarrow> p = None"
| "chain m p ((x, c) # xs) \<longleftrightarrow>
     p = Some x \<and> (\<exists>n. m x = Some \<lparr>ll_cb = c, ll_next = n\<rparr> \<and> chain m n xs)"

lemma chain_other: "x \<notin> fst ` set xs \<Longrightarrow> chain (m(x := y)) p xs = chain m p xs"
  by (induction m p xs rule: chain.induct) auto

lemma chain_snoc:
  assumes "chain m p (xs @ [(t, ct)])" and "distinct (map fst (xs @ [(t, ct)]))"
    and "s \<notin> fst ` set (xs @ [(t, ct)])"
  shows "chain (m(t \<mapsto> \<lparr>ll_cb = ct, ll_next = Some s\<rparr>, s \<mapsto> \<lparr>ll_cb = c, ll_next = None\<rparr>)) p
           (xs @ [(t, ct), (s, c)])"
  using assms
proof (induction m p xs rule: chain.induct)
  case (2 m p x d xs)
  then show ?case by auto
qed auto

text \<open>A callback of a command: no channels, held by one cell.\<close>

definition command_cb :: "int \<Rightarrow> callback" where
  "command_cb r = \<lparr>cb_ref = r, cb_flags = None, cb_nb_channel = 0, cb_attach = 1, cb_channels = []\<rparr>"

type_synonym entry = "nat \<times> nat \<times> int"

abbreviation cell_of :: "entry \<Rightarrow> nat \<times> nat" where
  "cell_of \<equiv> \<lambda>(x, c, r). (x, c)"

definition world_fresh :: "world \<Rightarrow> bool" where
  "world_fresh w \<longleftrightarrow> (\<forall>a\<ge>w_next w. w_chan w a = None \<and> w_call w a = None \<and> w_ll w a = None \<and>
     w_ends w a = None \<and> w_node w a = None \<and> w_hand w a = None) \<and>
     (\<forall>a\<in>set (w_reqs w). a < w_next w)"

definition cb_queue :: "world \<Rightarrow> nat \<Rightarrow> entry list \<Rightarrow> bool" where
  "cb_queue w e xs \<longleftrightarrow> world_fresh w \<and>
     (\<exists>h. w_ends w e = Some \<lparr>e_head = h, e_tail = (if xs = [] then None else Some (fst (last xs)))\<rparr> \<and>
        chain (w_ll w) h (map cell_of xs)) \<and>
     distinct (map fst xs) \<and> distinct (map (fst \<circ> snd) xs) \<and>
     (\<forall>(x, c, r)\<in>set xs. w_call w c = Some (command_cb r))"

text \<open>
  How \<open>lua_client_command\<close> appends the callback of a command, and how \<open>on_read\<close> and the error
  paths take the next one.
\<close>

definition append_callback :: "cenv \<Rightarrow> world \<Rightarrow> nat option \<Rightarrow> int \<Rightarrow> world cr" where
  "append_callback env w list ref =
     (case create_callback env w ref 0 of
        (st, cb, w) \<Rightarrow>
          if st \<noteq> SNAIL_OK then Ok w
          else cbind (wrap_cb env w cb) (\<lambda>(st, wrapper, w).
               if st \<noteq> SNAIL_OK then Ok w else push_cb w list wrapper))"

lemma cb_queue_cell:
  assumes "cb_queue w e xs" and "(x, c, r) \<in> set xs"
  shows "\<exists>n. w_ll w x = Some \<lparr>ll_cb = c, ll_next = n\<rparr>" and "w_call w c = Some (command_cb r)"
    and "x < w_next w" and "c < w_next w"
proof -
  have "\<exists>n. m x = Some \<lparr>ll_cb = c, ll_next = n\<rparr>" if "chain m p ys" "(x, c) \<in> set ys" for m p ys
    using that by (induction m p ys rule: chain.induct) auto
  moreover have "(x, c) \<in> set (map cell_of xs)" using assms(2) by force
  moreover obtain h where "chain (w_ll w) h (map cell_of xs)"
    using assms(1) by (auto simp: cb_queue_def)
  ultimately show cell: "\<exists>n. w_ll w x = Some \<lparr>ll_cb = c, ll_next = n\<rparr>"
    by blast
  show call: "w_call w c = Some (command_cb r)" using assms by (auto simp: cb_queue_def)
  show "x < w_next w" "c < w_next w"
    using cell call assms(1) by (auto simp: cb_queue_def world_fresh_def not_less [symmetric])
qed

text \<open>What queue operations leave alone.\<close>

definition same_rest :: "world \<Rightarrow> world \<Rightarrow> bool" where
  "same_rest w w' \<longleftrightarrow> w_chan w' = w_chan w \<and> w_node w' = w_node w \<and> w_hand w' = w_hand w \<and>
     w_reqs w' = w_reqs w \<and> w_bufs w' = w_bufs w \<and> w_trace w' = w_trace w"

lemma append_callback_queue:
  assumes q: "cb_queue w e xs" and env: "alloc_ok env 24" "alloc_ok env 0" "alloc_ok env 16"
  shows "runs (append_callback env w (Some e) r) (\<lambda>w'.
           cb_queue w' e (xs @ [(Suc (w_next w), w_next w, r)]) \<and>
           w_call w' = (w_call w)(w_next w \<mapsto> command_cb r) \<and>
           dom (w_ll w') = insert (Suc (w_next w)) (dom (w_ll w)) \<and> same_rest w w')"
proof -
  let ?c = "w_next w" and ?x = "Suc (w_next w)"
  obtain h where ends: "w_ends w e = Some \<lparr>e_head = h, e_tail = (if xs = [] then None else Some (fst (last xs)))\<rparr>"
    and ch: "chain (w_ll w) h (map cell_of xs)" using q by (auto simp: cb_queue_def)
  have fresh: "world_fresh w" using q by (simp add: cb_queue_def)
  have new: "?x \<notin> fst ` set xs" "?c \<notin> (fst \<circ> snd) ` set xs"
    using cb_queue_cell(3,4) [OF q] by fastforce+
  show ?thesis
  proof (cases xs rule: rev_cases)
    case Nil
    then show ?thesis
      using q env ends ch
      by (auto simp: append_callback_def create_callback_def wrap_cb_def push_cb_def put_defs cb_flag_defs
          Let_def s_int_ok cb_queue_def world_fresh_def command_cb_def same_rest_def)
  next
    case (snoc ys z)
    obtain t ct rt where z: "z = (t, ct, rt)" by (cases z)
    obtain n where cell: "w_ll w t = Some \<lparr>ll_cb = ct, ll_next = n\<rparr>" and t: "t < w_next w"
      using cb_queue_cell(1,3) [OF q, of t ct rt] snoc z by auto
    have ends': "w_ends w e = Some \<lparr>e_head = h, e_tail = Some t\<rparr>" using ends snoc z by simp
    have h: "h \<noteq> None" using ch snoc by (cases ys) (auto simp: z)
    let ?m = "(w_ll w)(t \<mapsto> \<lparr>ll_cb = ct, ll_next = Some ?x\<rparr>, ?x \<mapsto> \<lparr>ll_cb = ?c, ll_next = None\<rparr>)"
    have ch': "chain ?m h (map cell_of (xs @ [(?x, ?c, r)]))"
      using chain_snoc [of "w_ll w" h "map cell_of ys" t ct ?x ?c] ch q new(1)
      by (auto simp: snoc z cb_queue_def comp_def split_def image_image)
    have swap: "(w_ll w)(?x \<mapsto> u, t \<mapsto> v) = (w_ll w)(t \<mapsto> v, ?x \<mapsto> u)" for u v
      using t by (simp add: fun_upd_twist)
    let ?w = "w\<lparr>w_next := Suc ?x, w_call := (w_call w)(?c \<mapsto> command_cb r), w_ll := ?m,
                w_ends := (w_ends w)(e \<mapsto> \<lparr>e_head = h, e_tail = Some ?x\<rparr>)\<rparr>"
    have "append_callback env w (Some e) r = Ok ?w"
      using env ends' h cell t
      by (auto simp: append_callback_def create_callback_def wrap_cb_def push_cb_def put_defs cb_flag_defs
          Let_def s_int_ok command_cb_def swap intro!: world.equality)
    moreover have "cb_queue ?w e (xs @ [(?x, ?c, r)])"
      unfolding cb_queue_def
    proof (intro conjI)
      show "world_fresh ?w" using fresh t ends by (auto simp: world_fresh_def)
      show "\<exists>h. w_ends ?w e = Some \<lparr>e_head = h, e_tail = (if xs @ [(?x, ?c, r)] = [] then None else Some (fst (last (xs @ [(?x, ?c, r)]))))\<rparr> \<and>
          chain (w_ll ?w) h (map cell_of (xs @ [(?x, ?c, r)]))"
        using ch' by simp
      show "\<forall>(x, c, r)\<in>set (xs @ [(?x, ?c, r)]). w_call ?w c = Some (command_cb r)"
        using q new(2) by (force simp: cb_queue_def)
    qed (use q new in \<open>auto simp: cb_queue_def\<close>)
    moreover have "dom ?m = insert ?x (dom (w_ll w))" using cell by auto
    ultimately show ?thesis by (simp add: same_rest_def)
  qed
qed

lemma shift_cb_queue:
  assumes q: "cb_queue w e xs"
  shows "runs (shift_cb w (Some e)) (\<lambda>(st, cb, w').
           case xs of
             [] \<Rightarrow> st = SNAIL_ERR \<and> cb = None \<and> w' = w
           | (x, c, r) # ys \<Rightarrow> st = SNAIL_OK \<and> cb = Some (command_cb r) \<and> cb_queue w' e ys \<and>
               w_call w' = (w_call w)(c := None) \<and> w_ll w' = (w_ll w)(x := None) \<and> same_rest w w')"
proof (cases xs)
  case Nil
  then show ?thesis using q by (auto simp: shift_cb_def cb_queue_def)
next
  case (Cons z ys)
  obtain x c r where z: "z = (x, c, r)" by (cases z)
  obtain n where cell: "w_ll w x = Some \<lparr>ll_cb = c, ll_next = n\<rparr>" and ch: "chain (w_ll w) n (map cell_of ys)"
    and ends: "w_ends w e = Some \<lparr>e_head = Some x, e_tail = Some (fst (last xs))\<rparr>"
    using q by (auto simp: cb_queue_def Cons z)
  have call: "w_call w c = Some (command_cb r)" using q by (auto simp: cb_queue_def Cons z)
  have dist: "x \<notin> fst ` set ys" "c \<notin> (fst \<circ> snd) ` set ys" "distinct (map fst ys)" "distinct (map (fst \<circ> snd) ys)"
    using q by (auto simp: cb_queue_def Cons z)
  have tail: "(fst (last xs) = x) = (ys = [])"
    using dist(1) by (auto simp: Cons z dest: last_in_set)
  let ?w = "w\<lparr>w_ends := (w_ends w)(e \<mapsto> \<lparr>e_head = n, e_tail = (if ys = [] then None else Some (fst (last ys)))\<rparr>),
              w_call := (w_call w)(c := None), w_ll := (w_ll w)(x := None)\<rparr>"
  have "shift_cb w (Some e) = Ok (SNAIL_OK, Some (command_cb r), ?w)"
    using cell ends call tail
    by (auto simp: shift_cb_def destroy_wrapper_def destroy_callback_def put_defs command_cb_def Let_def Cons
        intro!: world.equality)
  moreover have "cb_queue ?w e ys"
    unfolding cb_queue_def
  proof (intro conjI)
    show "world_fresh ?w" using q ends by (auto simp: cb_queue_def world_fresh_def)
    have "x \<notin> fst ` set (map cell_of ys)" using dist(1) by force
    then show "\<exists>h. w_ends ?w e = Some \<lparr>e_head = h, e_tail = (if ys = [] then None else Some (fst (last ys)))\<rparr> \<and>
        chain (w_ll ?w) h (map cell_of ys)"
      using chain_other ch by auto
    show "\<forall>(x, c, r)\<in>set ys. w_call ?w c = Some (command_cb r)"
      using q dist(2) by (force simp: cb_queue_def Cons z)
  qed (use dist in auto)
  ultimately show ?thesis by (simp add: Cons z same_rest_def)
qed

section \<open>The linked list is a queue\<close>

text \<open>The Lua references of the queued callbacks, read off the store.\<close>

fun walk_refs :: "nat \<Rightarrow> world \<Rightarrow> nat option \<Rightarrow> int list" where
  "walk_refs 0 w p = []"
| "walk_refs (Suc n) w None = []"
| "walk_refs (Suc n) w (Some p) =
     (case w_ll w p of
        None \<Rightarrow> []
      | Some l \<Rightarrow>
          (case w_call w (ll_cb l) of
             None \<Rightarrow> []
           | Some cb \<Rightarrow> cb_ref cb # walk_refs n w (ll_next l)))"

definition queue_refs :: "world \<Rightarrow> nat \<Rightarrow> int list" where
  "queue_refs w e = (case w_ends w e of None \<Rightarrow> [] | Some en \<Rightarrow> walk_refs (w_next w) w (e_head en))"

lemma walk_refs_chain:
  assumes "chain (w_ll w) p (map cell_of xs)" and "length xs \<le> n"
    and "\<forall>(x, c, r)\<in>set xs. w_call w c = Some (command_cb r)"
  shows "walk_refs n w p = map (snd \<circ> snd) xs"
  using assms
proof (induction xs arbitrary: n p)
  case Nil
  then show ?case by (cases n) auto
next
  case (Cons z xs)
  obtain x c r where "z = (x, c, r)" by (cases z)
  with Cons show ?case by (cases n) (auto simp: command_cb_def)
qed

lemma cb_queue_length: "cb_queue w e xs \<Longrightarrow> length xs \<le> w_next w"
proof -
  assume q: "cb_queue w e xs"
  have "fst ` set xs \<subseteq> {..<w_next w}" using cb_queue_cell(3) [OF q] by force
  then have "card (fst ` set xs) \<le> w_next w" using card_mono [of "{..<w_next w}"] by fastforce
  moreover have "card (fst ` set xs) = length xs"
    using q distinct_card [of "map fst xs"] by (simp add: cb_queue_def)
  ultimately show ?thesis by simp
qed

lemma queue_refs_eq: "cb_queue w e xs \<Longrightarrow> queue_refs w e = map (snd \<circ> snd) xs"
proof -
  assume q: "cb_queue w e xs"
  then obtain h where "w_ends w e = Some \<lparr>e_head = h, e_tail = (if xs = [] then None else Some (fst (last xs)))\<rparr>"
    and "chain (w_ll w) h (map cell_of xs)" and "\<forall>(x, c, r)\<in>set xs. w_call w c = Some (command_cb r)"
    by (auto simp: cb_queue_def)
  with walk_refs_chain [of w h xs "w_next w"] cb_queue_length [OF q] show ?thesis
    by (simp add: queue_refs_def)
qed

text \<open>A queue as one state: the allocator, the store and the address of the ends.\<close>

type_synonym queue_state = "cenv \<times> world \<times> nat"

definition queue_inv :: "queue_state \<Rightarrow> bool" where
  "queue_inv = (\<lambda>(env, w, e). grants_all env \<and> (\<exists>xs. cb_queue w e xs))"

definition queue_items :: "queue_state \<Rightarrow> int list" where
  "queue_items = (\<lambda>(env, w, e). queue_refs w e)"

definition queue_enq :: "int \<Rightarrow> queue_state \<Rightarrow> queue_state cr" where
  "queue_enq r = (\<lambda>(env, w, e). cbind (append_callback env w (Some e) r) (\<lambda>w. Ok (env, w, e)))"

definition queue_deq :: "queue_state \<Rightarrow> (int option \<times> queue_state) cr" where
  "queue_deq = (\<lambda>(env, w, e). cbind (shift_cb w (Some e)) (\<lambda>(st, cb, w).
     Ok (map_option cb_ref cb, (env, w, e))))"

interpretation commands: fifo queue_inv queue_items queue_enq queue_deq
proof
  fix s and r :: int
  assume inv: "queue_inv s"
  obtain env w e where s: "s = (env, w, e)" by (cases s)
  obtain xs where env: "grants_all env" and q: "cb_queue w e xs"
    using inv by (auto simp: queue_inv_def s)
  have "runs (append_callback env w (Some e) r) (\<lambda>w'. \<exists>z. cb_queue w' e (xs @ [z]) \<and> snd (snd z) = r)"
    using append_callback_queue [OF q, of env r] env by (auto elim!: runs_mono)
  then show "runs (queue_enq r s) (\<lambda>s'. queue_inv s' \<and> queue_items s' = queue_items s @ [r])"
    using env queue_refs_eq [OF q]
    by (auto simp: queue_enq_def s runs_cbind queue_inv_def queue_items_def queue_refs_eq elim!: runs_mono)
next
  fix s
  assume inv: "queue_inv s"
  obtain env w e where s: "s = (env, w, e)" by (cases s)
  obtain xs where env: "grants_all env" and q: "cb_queue w e xs"
    using inv by (auto simp: queue_inv_def s)
  have items: "queue_items s = map (snd \<circ> snd) xs" using queue_refs_eq [OF q] by (simp add: queue_items_def s)
  show "runs (queue_deq s) (\<lambda>(y, s'). queue_inv s' \<and>
      (case queue_items s of [] \<Rightarrow> y = None \<and> queue_items s' = []
       | x # xs \<Rightarrow> y = Some x \<and> queue_items s' = xs))"
  proof (cases xs)
    case Nil
    then show ?thesis
      using shift_cb_queue [OF q] env q items
      by (auto simp: queue_deq_def s runs_cbind queue_inv_def queue_items_def elim!: runs_mono)
  next
    case (Cons z ys)
    obtain x c r where "z = (x, c, r)" by (cases z)
    then show ?thesis
      using shift_cb_queue [OF q] env items Cons
      by (auto simp: queue_deq_def s runs_cbind queue_inv_def queue_items_def queue_refs_eq command_cb_def
          elim!: runs_mono)
  qed
qed

section \<open>Properties of the callback queue\<close>

text \<open>
  C37. Callbacks of commands come out in the order the commands were issued, for any interleaving of
  commands and replies: appending a callback and taking one off behave as on a list, an
  empty queue reporting that it is empty.
\<close>

theorem command_callbacks_fifo:
  assumes "grants_all env" and "cb_queue w e xs"
  shows "runs (run_ops queue_enq queue_deq ops (env, w, e)) (\<lambda>(ys, s').
           list_ops ops (queue_refs w e) = (ys, queue_items s'))"
proof -
  have "queue_inv (env, w, e)" using assms by (auto simp: queue_inv_def)
  from commands.run_ops_law [OF this, of ops] show ?thesis
    by (rule runs_mono) (auto simp: queue_items_def)
qed

definition queue_world :: world where
  "queue_world = \<lparr>w_chan = (\<lambda>_. None), w_call = (\<lambda>_. None), w_ll = (\<lambda>_. None),
     w_ends = (\<lambda>_. None)(0 \<mapsto> \<lparr>e_head = None, e_tail = None\<rparr>), w_node = (\<lambda>_. None), w_hand = (\<lambda>_. None), w_next = 1,
     w_reqs = [], w_bufs = [], w_trace = []\<rparr>"

lemma queue_world_empty: "cb_queue queue_world 0 []"
  by (simp add: cb_queue_def queue_world_def world_fresh_def)

theorem command_callbacks_fifo_witness:
  "runs (run_ops queue_enq queue_deq [Enq 7, Enq 9, Deq, Enq 4, Deq, Deq, Deq] (libc_env, queue_world, 0))
     (\<lambda>(ys, s'). ys = [Some 7, Some 9, Some 4, None] \<and> queue_items s' = [])"
  using command_callbacks_fifo [OF grants_all_libc_env queue_world_empty,
      of "[Enq 7, Enq 9, Deq, Enq 4, Deq, Deq, Deq]"] queue_refs_eq [OF queue_world_empty]
  by (auto elim!: runs_mono)

text \<open>
  A callback taken off leaves nothing behind: its list cell and the callback itself are
  released, and no other object of the store is touched.
\<close>

theorem shift_releases_callback:
  assumes "cb_queue w e ((x, c, r) # xs)"
  shows "runs (shift_cb w (Some e)) (\<lambda>(st, cb, w').
           st = SNAIL_OK \<and> map_option cb_ref cb = Some r \<and> cb_queue w' e xs \<and>
           w_call w' = (w_call w)(c := None) \<and> w_ll w' = (w_ll w)(x := None))"
  using shift_cb_queue [OF assms] by (auto simp: command_cb_def elim!: runs_mono)

theorem shift_releases_callback_witness:
  "runs (append_callback libc_env queue_world (Some 0) 5) (\<lambda>w.
     runs (shift_cb w (Some 0)) (\<lambda>(st, cb, w').
       map_option cb_ref cb = Some 5 \<and> w_call w' = w_call queue_world))"
proof (rule runs_mono [OF append_callback_queue [OF queue_world_empty, of libc_env 5]])
  fix w'
  assume "cb_queue w' 0 ([] @ [(Suc (w_next queue_world), w_next queue_world, 5)]) \<and>
    w_call w' = (w_call queue_world)(w_next queue_world \<mapsto> command_cb 5) \<and>
    dom (w_ll w') = insert (Suc (w_next queue_world)) (dom (w_ll queue_world)) \<and> same_rest queue_world w'"
  then show "runs (shift_cb w' (Some 0)) (\<lambda>(st, cb, w').
       map_option cb_ref cb = Some 5 \<and> w_call w' = w_call queue_world)"
    using shift_releases_callback [of w' 0 "Suc (Suc 0)" "Suc 0" 5 "[]"]
    by (auto simp: queue_world_def fun_eq_iff elim!: runs_mono)
qed (simp_all add: libc_env_def)


section \<open>Releasing a list\<close>

lemma destroy_wrapper_command:
  assumes "w_ll w x = Some \<lparr>ll_cb = c, ll_next = n\<rparr>" and "w_call w c = Some (command_cb r)"
  shows "destroy_wrapper w (Some x) = Ok (w\<lparr>w_call := (w_call w)(c := None), w_ll := (w_ll w)(x := None)\<rparr>)"
  using assms by (simp add: destroy_wrapper_def destroy_callback_def command_cb_def)

lemma destroy_cells_queue:
  assumes "chain (w_ll w) p (map cell_of xs)" and "\<forall>(x, c, r)\<in>set xs. w_call w c = Some (command_cb r)"
    and "distinct (map fst xs)" and "distinct (map (fst \<circ> snd) xs)" and "length xs \<le> n"
  shows "destroy_cells n p w = Ok (w\<lparr>w_call := w_call w |` (- (fst \<circ> snd) ` set xs),
           w_ll := w_ll w |` (- fst ` set xs)\<rparr>)"
  using assms
proof (induction xs arbitrary: n p w)
  case Nil
  then show ?case by (cases n) (auto simp: restrict_map_def intro!: world.equality)
next
  case (Cons z xs)
  obtain x c r where z: "z = (x, c, r)" by (cases z)
  obtain m where n: "n = Suc m" using Cons.prems(5) by (cases n) auto
  obtain q where cell: "p = Some x" "w_ll w x = Some \<lparr>ll_cb = c, ll_next = q\<rparr>"
    and ch: "chain (w_ll w) q (map cell_of xs)" using Cons.prems(1) by (auto simp: z)
  have call: "w_call w c = Some (command_cb r)" using Cons.prems(2) by (simp add: z)
  let ?w = "w\<lparr>w_call := (w_call w)(c := None), w_ll := (w_ll w)(x := None)\<rparr>"
  have "x \<notin> fst ` set (map cell_of xs)" using Cons.prems(3) by (force simp: z)
  then have ch': "chain (w_ll ?w) q (map cell_of xs)" using ch chain_other by simp
  have call': "\<forall>(x, c, r)\<in>set xs. w_call ?w c = Some (command_cb r)"
    using Cons.prems(2,4) by (force simp: z)
  have rest: "distinct (map fst xs)" "distinct (map (fst \<circ> snd) xs)" "length xs \<le> m"
    using Cons.prems(3,4,5) by (auto simp: z n comp_def)
  have "destroy_cells m q ?w = Ok (?w\<lparr>w_call := w_call ?w |` (- (fst \<circ> snd) ` set xs),
      w_ll := w_ll ?w |` (- fst ` set xs)\<rparr>)"
    by (rule Cons.IH [OF ch' call' rest])
  then have run: "destroy_cells n p w = Ok (?w\<lparr>w_call := w_call ?w |` (- (fst \<circ> snd) ` set xs),
      w_ll := w_ll ?w |` (- fst ` set xs)\<rparr>)"
    using cell destroy_wrapper_command [OF cell(2) call] by (simp add: n del: fun_upd_apply)
  have "w_call ?w |` (- (fst \<circ> snd) ` set xs) = w_call w |` (- (fst \<circ> snd) ` set (z # xs))"
    and "w_ll ?w |` (- fst ` set xs) = w_ll w |` (- fst ` set (z # xs))"
    by (auto simp: restrict_map_def fun_eq_iff z)
  with run show ?case by simp
qed

lemma destroy_list_queue:
  assumes "cb_queue w e xs"
  shows "runs (destroy_list w (Some e)) (\<lambda>w'.
           w_call w' = w_call w |` (- (fst \<circ> snd) ` set xs) \<and> w_ll w' = w_ll w |` (- fst ` set xs) \<and>
           w_node w' = w_node w \<and> w_chan w' = w_chan w \<and> (\<forall>b. b \<noteq> e \<longrightarrow> w_ends w' b = w_ends w b) \<and>
           cb_queue w' e [] \<and> w_hand w' = w_hand w \<and> w_trace w' = w_trace w \<and> w_reqs w' = w_reqs w \<and>
           w_next w' = w_next w)"
proof -
  obtain h t where ends: "w_ends w e = Some \<lparr>e_head = h, e_tail = t\<rparr>" and ch: "chain (w_ll w) h (map cell_of xs)"
    using assms by (auto simp: cb_queue_def)
  have "destroy_cells (w_next w) h w = Ok (w\<lparr>w_call := w_call w |` (- (fst \<circ> snd) ` set xs),
      w_ll := w_ll w |` (- fst ` set xs)\<rparr>)"
    using assms destroy_cells_queue [OF ch] cb_queue_length [OF assms] by (simp add: cb_queue_def)
  moreover have "world_fresh w" using assms by (simp add: cb_queue_def)
  ultimately show ?thesis
    using ends by (auto simp: destroy_list_def put_defs cb_queue_def world_fresh_def restrict_map_def)
qed

text \<open>
  \<open>destroy_list\<close> releases every cell of a list and every callback it holds, nothing else,
  and leaves the list empty and usable.
\<close>

theorem destroy_list_releases_all:
  assumes "cb_queue w e xs"
  shows "runs (destroy_list w (Some e)) (\<lambda>w'.
           w_call w' = w_call w |` (- (fst \<circ> snd) ` set xs) \<and> w_ll w' = w_ll w |` (- fst ` set xs) \<and>
           w_node w' = w_node w \<and> w_chan w' = w_chan w \<and> (\<forall>b. b \<noteq> e \<longrightarrow> w_ends w' b = w_ends w b) \<and>
           cb_queue w' e [])"
  by (rule runs_mono [OF destroy_list_queue [OF assms]]) simp

theorem destroy_list_releases_all_witness:
  "runs (append_callback libc_env queue_world (Some 0) 5) (\<lambda>w.
     runs (destroy_list w (Some 0)) (\<lambda>w'. w_call w' = w_call queue_world \<and> cb_queue w' 0 []))"
proof (rule runs_mono [OF append_callback_queue [OF queue_world_empty, of libc_env 5]])
  fix w'
  assume "cb_queue w' 0 ([] @ [(Suc (w_next queue_world), w_next queue_world, 5)]) \<and>
    w_call w' = (w_call queue_world)(w_next queue_world \<mapsto> command_cb 5) \<and>
    dom (w_ll w') = insert (Suc (w_next queue_world)) (dom (w_ll queue_world)) \<and> same_rest queue_world w'"
  then show "runs (destroy_list w' (Some 0)) (\<lambda>w'. w_call w' = w_call queue_world \<and> cb_queue w' 0 [])"
    using destroy_list_releases_all [of w' 0 "[(Suc (Suc 0), Suc 0, 5)]"]
    by (auto simp: queue_world_def fun_eq_iff restrict_map_def elim!: runs_mono)
qed (simp_all add: libc_env_def)

end
