(* ===== verification/Cb_Tree.thy ===== *)
theory Cb_Tree
  imports Cb_Queue "HOL-Library.Sublist"
begin

text \<open>
  The search trees of \<open>cb.c\<close>: \<open>insert\<close> and \<open>search\<close> by name, \<open>insert_timer\<close> and
  \<open>search_timer\<close> by interval. The interface \<open>registry\<close> says what the client relies on (a key
  put is found, and stays found); both trees provide it, and their properties rest on it.
\<close>


section \<open>What a client of a registry relies on\<close>

fun put_all :: "('k \<Rightarrow> 's \<Rightarrow> (nat \<times> 's) cr) \<Rightarrow> 'k list \<Rightarrow> 's \<Rightarrow> (nat list \<times> 's) cr" where
  "put_all put [] s = Ok ([], s)"
| "put_all put (k # ks) s =
     cbind (put k s) (\<lambda>(a, s). cbind (put_all put ks s) (\<lambda>(as, s). Ok (a # as, s)))"

locale registry =
  fixes inv :: "'s \<Rightarrow> bool"
    and find :: "'k \<Rightarrow> 's \<Rightarrow> nat option"
    and put :: "'k \<Rightarrow> 's \<Rightarrow> (nat \<times> 's) cr"
  assumes put_law: "inv s \<Longrightarrow> runs (put k s) (\<lambda>(a, s'). inv s' \<and> find k s' = Some a \<and>
      (\<forall>k' b. find k' s = Some b \<longrightarrow> find k' s' = Some b))"
begin

lemma put_all_law:
  assumes "inv s"
  shows "runs (put_all put ks s) (\<lambda>(as, s'). inv s' \<and> map (\<lambda>k. find k s') ks = map Some as \<and>
           (\<forall>k' b. find k' s = Some b \<longrightarrow> find k' s' = Some b))"
  using assms
proof (induction ks arbitrary: s)
  case (Cons k ks)
  show ?case
    unfolding put_all.simps runs_cbind
  proof (rule runs_mono [OF put_law [OF Cons.prems]], clarify)
    fix a s1
    assume s1: "inv s1" "find k s1 = Some a" "\<forall>k' b. find k' s = Some b \<longrightarrow> find k' s1 = Some b"
    show "runs (cbind (put_all put ks s1) (\<lambda>(as, s). Ok (a # as, s)))
        (\<lambda>(as, s'). inv s' \<and> map (\<lambda>k. find k s') (k # ks) = map Some as \<and>
           (\<forall>k' b. find k' s = Some b \<longrightarrow> find k' s' = Some b))"
      unfolding runs_cbind
      by (rule runs_mono [OF Cons.IH [OF s1(1)]]) (use s1 in auto)
  qed
qed simp

text \<open>Putting a key twice gives the same address, whatever was put in between.\<close>

lemma put_again:
  assumes "inv s"
  shows "runs (put_all put (k # ks @ [k]) s) (\<lambda>(as, s'). hd as = last as)"
proof (rule runs_mono [OF put_all_law [OF assms]], clarify)
  fix as s'
  assume "map (\<lambda>k. find k s') (k # ks @ [k]) = map Some as"
  then obtain a bs b where "as = a # bs @ [b]" "find k s' = Some a" "find k s' = Some b"
    by (auto simp: map_eq_Cons_conv Cons_eq_map_conv map_eq_append_conv append_eq_map_conv)
  then show "hd as = last as" by simp
qed

end

section \<open>Growing stores\<close>

text \<open>What an insertion may do to the store: add nodes and empty lists.\<close>

definition grows :: "world \<Rightarrow> world \<Rightarrow> bool" where
  "grows w w' \<longleftrightarrow> w_node w \<subseteq>\<^sub>m w_node w' \<and> w_ends w \<subseteq>\<^sub>m w_ends w' \<and> w_ll w' = w_ll w \<and>
     w_call w' = w_call w \<and> w_chan w' = w_chan w \<and> w_hand w' = w_hand w \<and> w_reqs w' = w_reqs w \<and> w_bufs w' = w_bufs w \<and> w_trace w' = w_trace w \<and>
     w_next w \<le> w_next w'"

lemma grows_refl [simp]: "grows w w"
  by (simp add: grows_def)

lemma map_le_fresh: "m a = None \<Longrightarrow> m \<subseteq>\<^sub>m m(a \<mapsto> x)"
  by (auto simp: map_le_def)

lemma grows_node: "grows w w' \<Longrightarrow> w_node w a = Some nd \<Longrightarrow> w_node w' a = Some nd"
  by (auto simp: grows_def map_le_def dom_def)

lemma new_node_grows:
  assumes "world_fresh w" and "alloc_ok env 16"
  shows "\<exists>w' e. new_node env w nd st = (st, Branch (w_next w) Tip Tip, Some (w_next w), w') \<and>
           w_node w' (w_next w) = Some (nd\<lparr>n_cb_list := Some e, n_data := Some None\<rparr>) \<and>
           e = Suc (w_next w) \<and> w_ends w' e = Some \<lparr>e_head = None, e_tail = None\<rparr> \<and>
           world_fresh w' \<and> grows w w'"
  using assms
  by (auto simp: new_node_def Let_def put_defs world_fresh_def grows_def intro!: map_le_fresh)

section \<open>Trees by name\<close>

lemma c_strncmp_self: "c_strncmp xs xs n = 0"
proof (induction xs arbitrary: n)
  case Nil
  then show ?case by (cases n) auto
next
  case (Cons x xs)
  then show ?case by (cases n) auto
qed

text \<open>Compared over the length of the first string, strings are equal when it is a prefix.\<close>

lemma of_char_NUL: "int (of_char x) = 0 \<longleftrightarrow> x = NUL"
proof -
  have "(of_char x :: nat) = of_char NUL \<longleftrightarrow> x = NUL" by (rule of_char_eq_iff)
  then show ?thesis by simp
qed

lemma c_strncmp_prefix:
  "NUL \<notin> set xs \<Longrightarrow> c_strncmp xs ys (length xs) = 0 \<longleftrightarrow> prefix xs ys"
proof (induction xs arbitrary: ys)
  case (Cons x xs)
  have x: "int (of_char x) \<noteq> 0" using Cons.prems by (metis list.set_intros(1) of_char_NUL)
  show ?case
  proof (cases ys)
    case Nil
    with x show ?thesis by simp
  next
    case (Cons y zs)
    have "int (of_char x) - int (of_char y) = 0 \<longleftrightarrow> x = y" by simp
    with Cons Cons.IH [of zs] Cons.prems show ?thesis by auto
  qed
qed simp

fun name_tree :: "world \<Rightarrow> ctree \<Rightarrow> bool" where
  "name_tree w Tip = True"
| "name_tree w (Branch a l r) =
     ((\<exists>nd k. w_node w a = Some nd \<and> n_key nd = Some k \<and> n_cb_list nd = Some (Suc a)) \<and>
      name_tree w l \<and> name_tree w r)"

fun tree_keys :: "world \<Rightarrow> ctree \<Rightarrow> bytes set" where
  "tree_keys w Tip = {}"
| "tree_keys w (Branch a l r) =
     {k. \<exists>nd. w_node w a = Some nd \<and> n_key nd = Some k} \<union> tree_keys w l \<union> tree_keys w r"

lemma name_tree_grows: "name_tree w t \<Longrightarrow> grows w w' \<Longrightarrow> name_tree w' t"
  by (induction t) (auto dest: grows_node)

lemma tree_search_grows: "name_tree w t \<Longrightarrow> grows w w' \<Longrightarrow> tree_search w' k t = tree_search w k t"
proof (induction t)
  case (Branch a l r)
  then obtain nd q where nd: "w_node w a = Some nd" "n_key nd = Some q" by auto
  with Branch have "w_node w' a = Some nd" by (simp add: grows_node)
  with nd Branch show ?case by (simp add: Let_def)
qed simp

lemma tree_keys_grows: "name_tree w t \<Longrightarrow> grows w w' \<Longrightarrow> tree_keys w' t = tree_keys w t"
proof (induction t)
  case (Branch a l r)
  then obtain nd where nd: "w_node w a = Some nd" by auto
  with Branch have "w_node w' a = Some nd" by (simp add: grows_node)
  with nd Branch show ?case by simp
qed simp

text \<open>A list found belongs to a node of which the name searched is a prefix.\<close>

lemma tree_search_prefix:
  assumes "name_tree w t" and "NUL \<notin> set key" and "tree_search w key t = Ok p"
  shows "\<exists>a nd k. p = Some (Suc a) \<and> w_node w a = Some nd \<and> n_key nd = Some k \<and> prefix key k \<and>
           k \<in> tree_keys w t"
  using assms
proof (induction t)
  case (Branch a l r)
  then obtain nd k where nd: "w_node w a = Some nd" "n_key nd = Some k" "n_cb_list nd = Some (Suc a)"
    and sub: "name_tree w l" "name_tree w r" by auto
  consider "c_strncmp key k (length key) < 0" | "0 < c_strncmp key k (length key)"
    | "c_strncmp key k (length key) = 0" by linarith
  then show ?case
  proof cases
    case 1
    with nd Branch.prems(3) have "tree_search w key l = Ok p" by (simp add: Let_def)
    with Branch.IH(1) sub Branch.prems(2) show ?thesis by (auto 0 4)
  next
    case 2
    with nd Branch.prems(3) have "tree_search w key r = Ok p" by (simp add: Let_def)
    with Branch.IH(2) sub Branch.prems(2) show ?thesis by (auto 0 4)
  next
    case 3
    with nd Branch.prems have "p = Some (Suc a)" "prefix key k" by (simp_all add: Let_def c_strncmp_prefix)
    with nd show ?thesis by auto
  qed
qed simp

text \<open>The only way a search fails is the assertion that there is a node.\<close>

lemma tree_search_cases:
  "name_tree w t \<Longrightarrow> tree_search w key t = Flt AssertFail \<or> (\<exists>e. tree_search w key t = Ok (Some e))"
proof (induction t)
  case (Branch a l r)
  then obtain nd k where "w_node w a = Some nd" "n_key nd = Some k" "n_cb_list nd = Some (Suc a)" by auto
  with Branch show ?case by (simp add: Let_def)
qed simp

definition name_inserted :: "world \<Rightarrow> ctree \<Rightarrow> bytes \<Rightarrow> int \<times> ctree \<times> nat option \<times> world \<Rightarrow> bool" where
  "name_inserted w t key = (\<lambda>(st, t', leaf, w'). st = SNAIL_OK \<and>
     (\<exists>a nd. leaf = Some a \<and> w_node w' a = Some nd \<and> n_cb_list nd = Some (Suc a) \<and>
        tree_search w' key t' = Ok (Some (Suc a))) \<and>
     name_tree w' t' \<and> world_fresh w' \<and> grows w w' \<and> tree_keys w' t' \<subseteq> insert key (tree_keys w t) \<and>
     (\<forall>k b. tree_search w k t = Ok b \<longrightarrow> tree_search w' k t' = Ok b))"

lemma tree_insert_ok:
  assumes "name_tree w t" and "world_fresh w" and "grants_all env"
  shows "runs (tree_insert env w t key) (name_inserted w t key)"
  using assms
proof (induction t)
  case Tip
  let ?nd = "\<lparr>n_key = Some key, n_ikey = None, n_cb_list = None, n_data = None\<rparr>"
  obtain w' e where w': "new_node env w ?nd SNAIL_OK = (SNAIL_OK, Branch (w_next w) Tip Tip, Some (w_next w), w')"
    "w_node w' (w_next w) = Some (?nd\<lparr>n_cb_list := Some e, n_data := Some None\<rparr>)"
    "e = Suc (w_next w)" "world_fresh w'" "grows w w'"
    using new_node_grows [OF Tip.prems(2), of env ?nd SNAIL_OK] Tip.prems(3) by auto
  then show ?case
    using Tip.prems(3) by (simp add: name_inserted_def c_strncmp_self)
next
  case (Branch a l r)
  from Branch.prems(1) obtain nd k where nd: "w_node w a = Some nd" "n_key nd = Some k" "n_cb_list nd = Some (Suc a)"
    and sub: "name_tree w l" "name_tree w r" by auto
  let ?cmp = "c_strncmp key k (length key)"
  consider (lt) "?cmp < 0" | (gt) "0 < ?cmp" | (eq) "?cmp = 0" by linarith
  then show ?case
  proof cases
    case lt
    have "name_inserted w (Branch a l r) key (st, Branch a l' r, leaf, w')"
      if ins: "name_inserted w l key (st, l', leaf, w')" for st l' leaf w'
    proof -
      from ins have g: "grows w w'" by (simp add: name_inserted_def)
      have nd': "w_node w' a = Some nd" using grows_node [OF g nd(1)] .
      have "tree_search w' q r = tree_search w q r" "name_tree w' r" "tree_keys w' r = tree_keys w r" for q
        using tree_search_grows [OF sub(2) g] name_tree_grows [OF sub(2) g] tree_keys_grows [OF sub(2) g]
        by simp_all
      with ins nd nd' lt show ?thesis by (auto simp: name_inserted_def Let_def)
    qed
    then have "runs (cbind (tree_insert env w l key) (\<lambda>(st, l, leaf, w). Ok (st, Branch a l r, leaf, w)))
        (name_inserted w (Branch a l r) key)"
      unfolding runs_cbind
      by (intro runs_mono [OF Branch.IH(1) [OF sub(1) Branch.prems(2,3)]]) (simp add: split_paired_all)
    with nd lt show ?thesis by (simp add: Let_def)
  next
    case gt
    have "name_inserted w (Branch a l r) key (st, Branch a l r', leaf, w')"
      if ins: "name_inserted w r key (st, r', leaf, w')" for st r' leaf w'
    proof -
      from ins have g: "grows w w'" by (simp add: name_inserted_def)
      have nd': "w_node w' a = Some nd" using grows_node [OF g nd(1)] .
      have "tree_search w' q l = tree_search w q l" "name_tree w' l" "tree_keys w' l = tree_keys w l" for q
        using tree_search_grows [OF sub(1) g] name_tree_grows [OF sub(1) g] tree_keys_grows [OF sub(1) g]
        by simp_all
      with ins nd nd' gt show ?thesis by (auto simp: name_inserted_def Let_def)
    qed
    then have "runs (cbind (tree_insert env w r key) (\<lambda>(st, r, leaf, w). Ok (st, Branch a l r, leaf, w)))
        (name_inserted w (Branch a l r) key)"
      unfolding runs_cbind
      by (intro runs_mono [OF Branch.IH(2) [OF sub(2) Branch.prems(2,3)]]) (simp add: split_paired_all)
    with nd gt show ?thesis by (simp add: Let_def)
  next
    case eq
    with nd Branch.prems sub show ?thesis by (auto simp: name_inserted_def Let_def)
  qed
qed

text \<open>The registry the client uses: insert, then the list of the leaf.\<close>

type_synonym tree_state = "cenv \<times> world \<times> ctree"

definition tree_inv :: "(world \<Rightarrow> ctree \<Rightarrow> bool) \<Rightarrow> tree_state \<Rightarrow> bool" where
  "tree_inv ok = (\<lambda>(env, w, t). grants_all env \<and> world_fresh w \<and> ok w t)"

definition leaf_list :: "world \<Rightarrow> nat option \<Rightarrow> nat cr" where
  "leaf_list w leaf =
     cbind (deref leaf) (\<lambda>a. cbind (load (w_node w) a) (\<lambda>nd. deref (n_cb_list nd)))"

definition name_put :: "bytes \<Rightarrow> tree_state \<Rightarrow> (nat \<times> tree_state) cr" where
  "name_put key = (\<lambda>(env, w, t).
     cbind (tree_insert env w t key) (\<lambda>(st, t, leaf, w).
     cbind (leaf_list w leaf) (\<lambda>e. Ok (e, env, w, t))))"

definition name_find :: "bytes \<Rightarrow> tree_state \<Rightarrow> nat option" where
  "name_find key = (\<lambda>(env, w, t). case tree_search w key t of Ok b \<Rightarrow> b | Flt _ \<Rightarrow> None)"

lemma name_put_runs:
  assumes "tree_inv name_tree s"
  shows "runs (name_put key s) (\<lambda>(e, s'). tree_inv name_tree s' \<and> name_find key s' = Some e \<and>
           (\<forall>k' b. name_find k' s = Some b \<longrightarrow> name_find k' s' = Some b))"
proof -
  obtain env w t where s: "s = (env, w, t)" by (cases s)
  from assms have "name_tree w t" "world_fresh w" and env: "grants_all env" by (simp_all add: tree_inv_def s)
  then have "runs (tree_insert env w t key) (name_inserted w t key)" by (rule tree_insert_ok)
  then obtain st t' leaf w' where ins: "tree_insert env w t key = Ok (st, t', leaf, w')"
    and post: "name_inserted w t key (st, t', leaf, w')"
    by (auto simp: runs_iff)
  have "name_find k' (env, w', t') = Some b" if "name_find k' (env, w, t) = Some b" for k' b
    using that post by (cases "tree_search w k' t") (auto simp: name_find_def name_inserted_def)
  with ins post env show ?thesis
    by (auto simp: name_put_def leaf_list_def tree_inv_def name_find_def name_inserted_def s)
qed

lemma put_all_keys:
  assumes "tree_inv name_tree (env, w, t)"
  shows "runs (put_all name_put ks (env, w, t)) (\<lambda>(es, env', w', t'). tree_inv name_tree (env', w', t') \<and>
           tree_keys w' t' \<subseteq> tree_keys w t \<union> set ks)"
  using assms
proof (induction ks arbitrary: env w t)
  case (Cons k ks)
  have "runs (name_put k (env, w, t)) (\<lambda>(e, env', w', t'). tree_inv name_tree (env', w', t') \<and>
      tree_keys w' t' \<subseteq> insert k (tree_keys w t))"
    using Cons.prems tree_insert_ok [of w t env k]
    by (auto simp: name_put_def tree_inv_def runs_iff leaf_list_def name_inserted_def)
  then show ?case
    unfolding put_all.simps runs_cbind
  proof (rule runs_mono, clarify)
    fix e env1 w1 t1
    assume inv: "tree_inv name_tree (env1, w1, t1)" and sub: "tree_keys w1 t1 \<subseteq> insert k (tree_keys w t)"
    show "runs (cbind (put_all name_put ks (env1, w1, t1)) (\<lambda>(as, s). Ok (e # as, s)))
        (\<lambda>(es, env', w', t'). tree_inv name_tree (env', w', t') \<and> tree_keys w' t' \<subseteq> tree_keys w t \<union> set (k # ks))"
    proof -
      obtain es env' w' t' where run: "put_all name_put ks (env1, w1, t1) = Ok (es, env', w', t')"
        and post: "tree_inv name_tree (env', w', t')" "tree_keys w' t' \<subseteq> tree_keys w1 t1 \<union> set ks"
        using Cons.IH [OF inv] by (auto simp: runs_iff)
      have "tree_keys w' t' \<subseteq> tree_keys w t \<union> set (k # ks)" using post(2) sub by auto
      with run post(1) show ?thesis by simp
    qed
  qed
qed simp

interpretation names: registry "tree_inv name_tree" name_find name_put
  by unfold_locales (rule name_put_runs)

section \<open>Trees by interval\<close>

fun timer_tree :: "world \<Rightarrow> ctree \<Rightarrow> bool" where
  "timer_tree w Tip = True"
| "timer_tree w (Branch a l r) =
     ((\<exists>nd k. w_node w a = Some nd \<and> n_ikey nd = Some k \<and> n_cb_list nd = Some (Suc a)) \<and>
      timer_tree w l \<and> timer_tree w r)"

lemma timer_tree_grows: "timer_tree w t \<Longrightarrow> grows w w' \<Longrightarrow> timer_tree w' t"
  by (induction t) (auto dest: grows_node)

lemma search_timer_grows: "timer_tree w t \<Longrightarrow> grows w w' \<Longrightarrow> search_timer w' k t = search_timer w k t"
proof (induction t)
  case (Branch a l r)
  then obtain nd q where nd: "w_node w a = Some nd" "n_ikey nd = Some q" by auto
  with Branch have "w_node w' a = Some nd" by (simp add: grows_node)
  with nd Branch show ?case by (simp add: never_written_def)
qed simp

text \<open>The interval of the node found is the one searched: no two intervals share a node.\<close>

lemma search_timer_key:
  "timer_tree w t \<Longrightarrow> search_timer w key t = Ok a \<Longrightarrow> \<exists>nd. w_node w a = Some nd \<and> n_ikey nd = Some key"
  by (induction t) (auto simp: never_written_def split: if_splits)

lemma insert_timer_found:
  "timer_tree w t \<Longrightarrow> search_timer w key t = Ok a \<Longrightarrow> insert_timer env w t key = Ok (0, t, Some a, w)"
  by (induction t) (auto simp: never_written_def cb_flag_defs split: if_splits)

text \<open>The status tells whether the interval is new: 2 for a new node, 0 for one found.\<close>

definition timer_inserted :: "world \<Rightarrow> ctree \<Rightarrow> int \<Rightarrow> int \<times> ctree \<times> nat option \<times> world \<Rightarrow> bool" where
  "timer_inserted w t key = (\<lambda>(st, t', leaf, w').
     (\<exists>a nd. leaf = Some a \<and> w_node w' a = Some nd \<and> n_cb_list nd = Some (Suc a) \<and>
        search_timer w' key t' = Ok a) \<and>
     timer_tree w' t' \<and> world_fresh w' \<and> grows w w' \<and>
     (\<forall>k b. search_timer w k t = Ok b \<longrightarrow> search_timer w' k t' = Ok b) \<and>
     st = (case search_timer w key t of Ok _ \<Rightarrow> 0 | Flt _ \<Rightarrow> 2))"

lemma insert_timer_ok:
  assumes "timer_tree w t" and "world_fresh w" and "grants_all env"
  shows "runs (insert_timer env w t key) (timer_inserted w t key)"
  using assms
proof (induction t)
  case Tip
  let ?nd = "\<lparr>n_key = None, n_ikey = Some key, n_cb_list = None, n_data = None\<rparr>"
  obtain w' e where w': "new_node env w ?nd 2 = (2, Branch (w_next w) Tip Tip, Some (w_next w), w')"
    "w_node w' (w_next w) = Some (?nd\<lparr>n_cb_list := Some e, n_data := Some None\<rparr>)"
    "e = Suc (w_next w)" "world_fresh w'" "grows w w'"
    using new_node_grows [OF Tip.prems(2), of env ?nd 2] Tip.prems(3) by auto
  then show ?case
    using Tip.prems(3) by (simp add: timer_inserted_def never_written_def)
next
  case (Branch a l r)
  from Branch.prems(1) obtain nd k where nd: "w_node w a = Some nd" "n_ikey nd = Some k" "n_cb_list nd = Some (Suc a)"
    and sub: "timer_tree w l" "timer_tree w r" by auto
  have ik: "never_written (Some x) = Ok x" for x :: int by (simp add: never_written_def)
  consider (lt) "key < k" | (gt) "k < key" | (eq) "key = k" by linarith
  then show ?case
  proof cases
    case lt
    have "timer_inserted w (Branch a l r) key (st, Branch a l' r, leaf, w')"
      if ins: "timer_inserted w l key (st, l', leaf, w')" for st l' leaf w'
    proof -
      from ins have g: "grows w w'" by (simp add: timer_inserted_def)
      have nd': "w_node w' a = Some nd" using grows_node [OF g nd(1)] .
      have "search_timer w' q r = search_timer w q r" "timer_tree w' r" for q
        using sub g by (blast intro: search_timer_grows timer_tree_grows)+
      with ins nd nd' lt show ?thesis by (simp add: timer_inserted_def ik)
    qed
    then have "runs (cbind (insert_timer env w l key) (\<lambda>(st, l, leaf, w). Ok (st, Branch a l r, leaf, w)))
        (timer_inserted w (Branch a l r) key)"
      unfolding runs_cbind
      by (intro runs_mono [OF Branch.IH(1) [OF sub(1) Branch.prems(2,3)]]) (simp add: split_paired_all)
    with nd lt show ?thesis by (simp add: ik)
  next
    case gt
    have "timer_inserted w (Branch a l r) key (st, Branch a l r', leaf, w')"
      if ins: "timer_inserted w r key (st, r', leaf, w')" for st r' leaf w'
    proof -
      from ins have g: "grows w w'" by (simp add: timer_inserted_def)
      have nd': "w_node w' a = Some nd" using grows_node [OF g nd(1)] .
      have "search_timer w' q l = search_timer w q l" "timer_tree w' l" for q
        using sub g by (blast intro: search_timer_grows timer_tree_grows)+
      with ins nd nd' gt show ?thesis by (simp add: timer_inserted_def ik)
    qed
    then have "runs (cbind (insert_timer env w r key) (\<lambda>(st, r, leaf, w). Ok (st, Branch a l r, leaf, w)))
        (timer_inserted w (Branch a l r) key)"
      unfolding runs_cbind
      by (intro runs_mono [OF Branch.IH(2) [OF sub(2) Branch.prems(2,3)]]) (simp add: split_paired_all)
    with nd gt show ?thesis by (simp add: ik)
  next
    case eq
    with nd Branch.prems sub show ?thesis by (simp add: timer_inserted_def ik cb_flag_defs)
  qed
qed

definition timer_put :: "int \<Rightarrow> tree_state \<Rightarrow> (nat \<times> tree_state) cr" where
  "timer_put key = (\<lambda>(env, w, t).
     cbind (insert_timer env w t key) (\<lambda>(st, t, leaf, w).
     cbind (deref leaf) (\<lambda>a. Ok (a, env, w, t))))"

definition timer_find :: "int \<Rightarrow> tree_state \<Rightarrow> nat option" where
  "timer_find key = (\<lambda>(env, w, t). case search_timer w key t of Ok a \<Rightarrow> Some a | Flt _ \<Rightarrow> None)"

lemma timer_put_runs:
  assumes "tree_inv timer_tree s"
  shows "runs (timer_put key s) (\<lambda>(a, s'). tree_inv timer_tree s' \<and> timer_find key s' = Some a \<and>
           (\<forall>k' b. timer_find k' s = Some b \<longrightarrow> timer_find k' s' = Some b))"
proof -
  obtain env w t where s: "s = (env, w, t)" by (cases s)
  from assms have "timer_tree w t" "world_fresh w" and env: "grants_all env" by (simp_all add: tree_inv_def s)
  then have "runs (insert_timer env w t key) (timer_inserted w t key)" by (rule insert_timer_ok)
  then obtain st t' leaf w' where ins: "insert_timer env w t key = Ok (st, t', leaf, w')"
    and post: "timer_inserted w t key (st, t', leaf, w')"
    by (auto simp: runs_iff)
  have "timer_find k' (env, w', t') = Some b" if "timer_find k' (env, w, t) = Some b" for k' b
    using that post by (cases "search_timer w k' t") (auto simp: timer_find_def timer_inserted_def)
  with ins post env show ?thesis
    by (auto simp: timer_put_def tree_inv_def timer_find_def timer_inserted_def s)
qed

interpretation timers: registry "tree_inv timer_tree" timer_find timer_put
  by unfold_locales (rule timer_put_runs)

section \<open>Properties of the trees\<close>

lemma tree_inv_empty:
  assumes "grants_all env" and "world_fresh w"
  shows "tree_inv name_tree (env, w, Tip)" and "tree_inv timer_tree (env, w, Tip)"
  using assms by (simp_all add: tree_inv_def)

lemma name_find_eq: "name_find k (env, w, t) = Some e \<Longrightarrow> tree_search w k t = Ok (Some e)"
  by (auto simp: name_find_def split: cr.splits)

lemma timer_find_eq: "timer_find k (env, w, t) = Some a \<Longrightarrow> search_timer w k t = Ok a"
  by (auto simp: timer_find_def split: cr.splits)

text \<open>
  C38. Whatever names are inserted into the tree of callbacks, in whatever order, every one of them is
  found afterwards, with the very list its insertion returned.
\<close>

theorem inserted_names_found:
  assumes "grants_all env" and "world_fresh w"
  shows "runs (put_all name_put ks (env, w, Tip)) (\<lambda>(es, env', w', t').
           map (\<lambda>k. tree_search w' k t') ks = map (\<lambda>e. Ok (Some e)) es)"
proof (rule runs_mono [OF names.put_all_law [OF tree_inv_empty(1) [OF assms]]], clarify)
  fix es env' w' t'
  assume "map (\<lambda>k. name_find k (env', w', t')) ks = map Some es"
  then show "map (\<lambda>k. tree_search w' k t') ks = map (\<lambda>e. Ok (Some e)) es"
    by (auto simp: list_eq_iff_nth_eq map_equality_iff dest!: name_find_eq)
qed

theorem inserted_names_found_witness:
  "runs (put_all name_put [''msg'', ''log'', ''zip'', ''msg''] (libc_env, queue_world, Tip)) (\<lambda>(es, env', w', t').
     map (\<lambda>k. tree_search w' k t') [''msg'', ''log'', ''zip'', ''msg''] = map (\<lambda>e. Ok (Some e)) es)"
  using queue_world_empty
  by (intro inserted_names_found) (simp_all add: cb_queue_def)

text \<open>
  Two names of which neither is a prefix of the other never share a list of callbacks,
  whatever names are inserted and in whatever order.
\<close>

theorem unrelated_names_apart:
  assumes "grants_all env" and "world_fresh w" and "\<forall>k\<in>set ks. NUL \<notin> set k"
    and "i < length ks" and "j < length ks" and "\<not> prefix (ks ! i) (ks ! j)" and "\<not> prefix (ks ! j) (ks ! i)"
  shows "runs (put_all name_put ks (env, w, Tip)) (\<lambda>(es, s'). es ! i \<noteq> es ! j)"
proof (rule runs_mono [OF names.put_all_law [OF tree_inv_empty(1) [OF assms(1,2)]]], clarify)
  fix es env' w' t'
  assume inv: "tree_inv name_tree (env', w', t')" and eq: "es ! i = es ! j"
    and "map (\<lambda>k. name_find k (env', w', t')) ks = map Some es"
  then have len: "length es = length ks" and found: "\<forall>n<length ks. name_find (ks ! n) (env', w', t') = Some (es ! n)"
    by (auto simp: list_eq_iff_nth_eq map_equality_iff)
  from inv have t: "name_tree w' t'" by (simp add: tree_inv_def)
  obtain a nd k where "es ! i = Suc a" "w_node w' a = Some nd" "n_key nd = Some k" "prefix (ks ! i) k"
    using tree_search_prefix [OF t _ name_find_eq, of "ks ! i"] found assms(3,4) by force
  moreover obtain b nd' k' where "es ! j = Suc b" "w_node w' b = Some nd'" "n_key nd' = Some k'" "prefix (ks ! j) k'"
    using tree_search_prefix [OF t _ name_find_eq, of "ks ! j"] found assms(3,5) by force
  ultimately have "prefix (ks ! i) k" "prefix (ks ! j) k" using eq by auto
  then show False using assms(6,7) prefix_same_cases by blast
qed

theorem unrelated_names_apart_witness:
  "runs (put_all name_put [''msg'', ''log''] (libc_env, queue_world, Tip)) (\<lambda>(es, s'). es ! 0 \<noteq> es ! 1)"
  using queue_world_empty
  by (intro unrelated_names_apart) (simp_all add: cb_queue_def)

text \<open>
  C39. The comparison covers the searched name only: a second name gets the list of the first exactly
  when it is a prefix of it, so that a channel can receive the messages of another one.
\<close>

theorem second_name_shares_iff_prefix:
  assumes "grants_all env" and "world_fresh w" and "NUL \<notin> set k2"
  shows "runs (put_all name_put [k1, k2] (env, w, Tip)) (\<lambda>(es, s'). es ! 0 = es ! 1 \<longleftrightarrow> prefix k2 k1)"
proof -
  let ?nd = "\<lambda>k. \<lparr>n_key = Some k, n_ikey = None, n_cb_list = None, n_data = None\<rparr>"
  obtain w1 where w1: "new_node env w (?nd k1) SNAIL_OK = (SNAIL_OK, Branch (w_next w) Tip Tip, Some (w_next w), w1)"
    "w_node w1 (w_next w) = Some (?nd k1\<lparr>n_cb_list := Some (Suc (w_next w)), n_data := Some None\<rparr>)"
    "world_fresh w1"
    using new_node_grows [OF assms(2), of env "?nd k1" SNAIL_OK] assms(1) by auto
  have lt: "w_next w < w_next w1"
    by (rule ccontr) (use w1(2,3) in \<open>auto simp: world_fresh_def\<close>)
  obtain w2 where w2: "new_node env w1 (?nd k2) SNAIL_OK = (SNAIL_OK, Branch (w_next w1) Tip Tip, Some (w_next w1), w2)"
    "w_node w2 (w_next w1) = Some (?nd k2\<lparr>n_cb_list := Some (Suc (w_next w1)), n_data := Some None\<rparr>)"
    using new_node_grows [OF w1(3), of env "?nd k2" SNAIL_OK] assms(1) by auto
  have "c_strncmp k2 k1 (length k2) = 0 \<longleftrightarrow> prefix k2 k1" using assms(3) by (rule c_strncmp_prefix)
  with w1 w2 lt assms(1) show ?thesis
    by (auto simp: name_put_def leaf_list_def Let_def)
qed

theorem second_name_shares_iff_prefix_witness:
  "runs (put_all name_put [''abc'', ''ab''] (libc_env, queue_world, Tip)) (\<lambda>(es, s'). es ! 0 = es ! 1)"
  using second_name_shares_iff_prefix [of libc_env queue_world "''ab''" "''abc''"] queue_world_empty
  by (auto simp: cb_queue_def elim!: runs_mono)

text \<open>
  Searching a name that is a prefix of no inserted name stops the program at the
  assertion of \<open>search\<close>; there is no error result.
\<close>

theorem missing_name_asserts:
  assumes "grants_all env" and "world_fresh w" and "NUL \<notin> set key" and "\<forall>k\<in>set ks. \<not> prefix key k"
  shows "runs (put_all name_put ks (env, w, Tip)) (\<lambda>(es, env', w', t').
           tree_search w' key t' = Flt AssertFail)"
proof (rule runs_mono [OF put_all_keys [OF tree_inv_empty(1) [OF assms(1,2)]]], clarify)
  fix es env' w' t'
  assume inv: "tree_inv name_tree (env', w', t')" and keys: "tree_keys w' t' \<subseteq> tree_keys w Tip \<union> set ks"
  have t: "name_tree w' t'" using inv by (simp add: tree_inv_def)
  show "tree_search w' key t' = Flt AssertFail"
    using tree_search_cases [OF t, of key] tree_search_prefix [OF t assms(3)] keys assms(4) by fastforce
qed

theorem missing_name_asserts_witness:
  "runs (put_all name_put [''msg'', ''log''] (libc_env, queue_world, Tip)) (\<lambda>(es, env', w', t').
     tree_search w' ''logs'' t' = Flt AssertFail)"
  using queue_world_empty
  by (intro missing_name_asserts) (simp_all add: cb_queue_def)

text \<open>
  C40. Timer intervals have a node each: two subscriptions share a node exactly when their intervals
  are equal, and the node found later is the one the insertion returned.
\<close>

theorem intervals_have_own_nodes:
  assumes "grants_all env" and "world_fresh w" and "i < length ks" and "j < length ks"
  shows "runs (put_all timer_put ks (env, w, Tip)) (\<lambda>(as, env', w', t').
           (as ! i = as ! j \<longleftrightarrow> ks ! i = ks ! j) \<and> search_timer w' (ks ! i) t' = Ok (as ! i))"
proof (rule runs_mono [OF timers.put_all_law [OF tree_inv_empty(2) [OF assms(1,2)]]], clarify)
  fix as env' w' t'
  assume inv: "tree_inv timer_tree (env', w', t')"
    and "map (\<lambda>k. timer_find k (env', w', t')) ks = map Some as"
  then have found: "n < length ks \<Longrightarrow> search_timer w' (ks ! n) t' = Ok (as ! n)" for n
    by (auto simp: list_eq_iff_nth_eq map_equality_iff dest!: spec [of _ n] timer_find_eq)
  from inv have t: "timer_tree w' t'" by (simp add: tree_inv_def)
  show "(as ! i = as ! j \<longleftrightarrow> ks ! i = ks ! j) \<and> search_timer w' (ks ! i) t' = Ok (as ! i)"
    using search_timer_key [OF t found [OF assms(3)]] search_timer_key [OF t found [OF assms(4)]]
      found [OF assms(3)] found [OF assms(4)] by auto
qed

theorem intervals_have_own_nodes_witness:
  "runs (put_all timer_put [250, 1000, 250] (libc_env, queue_world, Tip)) (\<lambda>(as, env', w', t').
     (as ! 0 = as ! 2 \<longleftrightarrow> [250::int, 1000, 250] ! 0 = [250, 1000, 250] ! 2) \<and>
     search_timer w' ([250, 1000, 250] ! 0) t' = Ok (as ! 0))"
  using queue_world_empty
  by (intro intervals_have_own_nodes) (simp_all add: cb_queue_def)

text \<open>
  \<open>insert_timer\<close> answers 2 for a new interval and 0 for one already there; the caller takes
  only an answer of at least 1 for success, so a second subscription with the same
  interval is never attached.
\<close>

theorem known_interval_answers_zero:
  assumes "grants_all env" and "world_fresh w" and "timer_tree w t"
  shows "runs (insert_timer env w t key) (\<lambda>(st, t', leaf, w').
           st = (case search_timer w key t of Ok a \<Rightarrow> 0 | Flt e \<Rightarrow> 2) \<and>
           runs (insert_timer env w' t' key) (\<lambda>(st', t'', leaf', w'').
             st' = 0 \<and> leaf' = leaf \<and> t'' = t' \<and> w'' = w'))"
proof (rule runs_mono [OF insert_timer_ok [OF assms(3,2,1), of key]], clarify)
  fix st t' leaf w'
  assume "timer_inserted w t key (st, t', leaf, w')"
  then show "st = (case search_timer w key t of Ok a \<Rightarrow> 0 | Flt e \<Rightarrow> 2) \<and>
      runs (insert_timer env w' t' key) (\<lambda>(st', t'', leaf', w''). st' = 0 \<and> leaf' = leaf \<and> t'' = t' \<and> w'' = w')"
    using insert_timer_found [of w' t' key _ env] by (auto simp: timer_inserted_def)
qed

theorem known_interval_answers_zero_witness:
  "runs (insert_timer libc_env queue_world Tip 250) (\<lambda>(st, t', leaf, w'). st = 2 \<and>
     runs (insert_timer libc_env w' t' 250) (\<lambda>(st', t'', leaf', w''). st' = 0))"
  using known_interval_answers_zero [of libc_env queue_world Tip 250] queue_world_empty
  by (auto simp: cb_queue_def elim!: runs_mono)

end
