(* ===== verification/Resp_Reader.thy ===== *)
theory Resp_Reader
  imports Sds_Text
begin

text \<open>
  \<open>src/src/hiredis-light.h\<close> and the reader of \<open>src/src/hiredis-light.c\<close>: the incremental
  parser of Redis replies, with its task stack, its input buffer and the reply objects it
  builds. Reply objects live in a store from addresses to objects, because the parser links a
  child into its parent through the parent's \<open>element\<close> array; \<open>freeReplyObject\<close> takes them out
  of the store again. The reader's function table is always \<open>defaultFunctions\<close> and its
  \<open>privdata\<close> always NULL in this program, so both fields are left out.
\<close>

section \<open>Reply objects\<close>

definition REDIS_ERR :: int where "REDIS_ERR = -1"
definition REDIS_OK :: int where "REDIS_OK = 0"

definition REDIS_ERR_IO :: int where "REDIS_ERR_IO = 1"
definition REDIS_ERR_PROTOCOL :: int where "REDIS_ERR_PROTOCOL = 4"
definition REDIS_ERR_OOM :: int where "REDIS_ERR_OOM = 5"

definition REDIS_REPLY_STRING :: int where "REDIS_REPLY_STRING = 1"
definition REDIS_REPLY_ARRAY :: int where "REDIS_REPLY_ARRAY = 2"
definition REDIS_REPLY_INTEGER :: int where "REDIS_REPLY_INTEGER = 3"
definition REDIS_REPLY_NIL :: int where "REDIS_REPLY_NIL = 4"
definition REDIS_REPLY_STATUS :: int where "REDIS_REPLY_STATUS = 5"
definition REDIS_REPLY_ERROR :: int where "REDIS_REPLY_ERROR = 6"

definition REDIS_READER_MAX_BUF :: int where "REDIS_READER_MAX_BUF = 1024 * 16"

lemmas reply_types = REDIS_REPLY_STRING_def REDIS_REPLY_ARRAY_def REDIS_REPLY_INTEGER_def
  REDIS_REPLY_NIL_def REDIS_REPLY_STATUS_def REDIS_REPLY_ERROR_def

lemmas redis_status = REDIS_ERR_def REDIS_OK_def

record redisReply =
  rr_type :: int
  rr_integer :: int
  rr_len :: int
  rr_str :: "bytes option"
  rr_elements :: int
  rr_element :: "nat option list option"

text \<open>The store of reply objects, and the next address that was never used.\<close>

record rstore =
  rs_map :: "nat \<Rightarrow> redisReply option"
  rs_next :: nat

definition rs_load :: "rstore \<Rightarrow> nat \<Rightarrow> redisReply cr" where
  "rs_load h a = (case rs_map h a of None \<Rightarrow> Flt UseAfterFree | Some r \<Rightarrow> Ok r)"

definition rs_put :: "rstore \<Rightarrow> nat \<Rightarrow> redisReply \<Rightarrow> rstore" where
  "rs_put h a r = h\<lparr>rs_map := (rs_map h)(a \<mapsto> r)\<rparr>"

definition rs_free :: "rstore \<Rightarrow> nat \<Rightarrow> rstore" where
  "rs_free h a = h\<lparr>rs_map := (rs_map h)(a := None)\<rparr>"

definition createReplyObject :: "cenv \<Rightarrow> rstore \<Rightarrow> int \<Rightarrow> (nat option \<times> rstore)" where
  "createReplyObject env h type =
     (if alloc_ok env 48
      then (Some (rs_next h),
            (rs_put h (rs_next h) \<lparr>rr_type = type, rr_integer = 0, rr_len = 0, rr_str = None,
                                    rr_elements = 0, rr_element = None\<rparr>)
              \<lparr>rs_next := Suc (rs_next h)\<rparr>)
      else (None, h))"

text \<open>
  Releasing an object releases the objects of its array first. The recursion follows pointers;
  \<open>fuel\<close> bounds its depth by the number of addresses ever used, which only a cyclic structure
  exceeds (and there the code exhausts its stack).
\<close>

fun free_elements :: "(nat \<Rightarrow> rstore \<Rightarrow> rstore cr) \<Rightarrow> nat option list \<Rightarrow> rstore \<Rightarrow> rstore cr" where
  "free_elements f [] h = Ok h"
| "free_elements f (None # ps) h = free_elements f ps h"
| "free_elements f (Some p # ps) h = cbind (f p h) (free_elements f ps)"

fun free_reply :: "nat \<Rightarrow> nat \<Rightarrow> rstore \<Rightarrow> rstore cr" where
  "free_reply 0 a h = Flt StackOverflow"
| "free_reply (Suc n) a h =
     cbind (rs_load h a) (\<lambda>r.
     cbind (if rr_type r = REDIS_REPLY_ARRAY
            then case rr_element r of
                   None \<Rightarrow> Ok h
                 | Some el \<Rightarrow>
                     if int (length el) < rr_elements r then Flt OutOfBounds
                     else free_elements (free_reply n) (take (nat (rr_elements r)) el) h
            else Ok h) (\<lambda>h.
     Ok (rs_free h a)))"

definition freeReplyObject :: "rstore \<Rightarrow> nat \<Rightarrow> rstore cr" where
  "freeReplyObject h a = free_reply (Suc (rs_next h)) a h"

section \<open>The reader\<close>

record redisReadTask =
  t_type :: int
  t_elements :: int
  t_idx :: int
  t_obj :: "nat option"
  t_parent :: "nat option"

record redisReader =
  r_err :: int
  r_errstr :: bytes
  r_buf :: sds
  r_pos :: int
  r_len :: int
  r_maxbuf :: int
  r_rstack :: "redisReadTask list"
  r_ridx :: int
  r_reply :: "nat option"
  r_store :: rstore

text \<open>A task is addressed by its index in the stack, which bounds every access to it.\<close>

definition task_at :: "redisReader \<Rightarrow> int \<Rightarrow> redisReadTask cr" where
  "task_at r i = (if 0 \<le> i \<and> i < int (length (r_rstack r)) then Ok (r_rstack r ! nat i) else Flt OutOfBounds)"

definition set_task :: "redisReader \<Rightarrow> int \<Rightarrow> redisReadTask \<Rightarrow> redisReader cr" where
  "set_task r i t =
     (if 0 \<le> i \<and> i < int (length (r_rstack r)) then Ok (r\<lparr>r_rstack := (r_rstack r)[nat i := t]\<rparr>)
      else Flt OutOfBounds)"

text \<open>The last lines of the four \<open>create\<close> functions: store the object in its parent's array.\<close>

definition link_parent :: "redisReader \<Rightarrow> redisReadTask \<Rightarrow> nat \<Rightarrow> redisReader cr" where
  "link_parent r task a =
     (case t_parent task of
        None \<Rightarrow> Ok r
      | Some k \<Rightarrow>
          cbind (task_at r (int k)) (\<lambda>pt.
          cbind (deref (t_obj pt)) (\<lambda>pa.
          cbind (rs_load (r_store r) pa) (\<lambda>parent.
          cbind (c_assert (rr_type parent = REDIS_REPLY_ARRAY)) (\<lambda>_.
          cbind (deref (rr_element parent)) (\<lambda>el.
          if 0 \<le> t_idx task \<and> t_idx task < int (length el)
          then Ok (r\<lparr>r_store := rs_put (r_store r) pa
                       (parent\<lparr>rr_element := Some (el[nat (t_idx task) := Some a])\<rparr>)\<rparr>)
          else Flt OutOfBounds))))))"

text \<open>\<open>str\<close> is the memory from the read pointer on; \<open>None\<close> as object is the NULL of a failed allocation.\<close>

definition createStringObject ::
  "cenv \<Rightarrow> redisReader \<Rightarrow> redisReadTask \<Rightarrow> bytes \<Rightarrow> int \<Rightarrow> (nat option \<times> redisReader) cr" where
  "createStringObject env r task str len =
     (let (obj, h) = createReplyObject env (r_store r) (t_type task) in
      case obj of
        None \<Rightarrow> Ok (None, r)
      | Some a \<Rightarrow>
          if \<not> alloc_ok env (nat (c_size (len + 1)))
          then cbind (freeReplyObject h a) (\<lambda>h. Ok (None, r\<lparr>r_store := h\<rparr>))
          else
            cbind (c_assert (t_type task = REDIS_REPLY_ERROR \<or> t_type task = REDIS_REPLY_STATUS \<or>
                             t_type task = REDIS_REPLY_STRING)) (\<lambda>_.
            cbind (mem_read str 0 len) (\<lambda>s.
            cbind (rs_load h a) (\<lambda>o'.
            let h = rs_put h a (o'\<lparr>rr_str := Some (s @ [NUL]), rr_len := c_int len\<rparr>) in
            cbind (link_parent (r\<lparr>r_store := h\<rparr>) task a) (\<lambda>r. Ok (Some a, r))))))"

definition createArrayObject ::
  "cenv \<Rightarrow> redisReader \<Rightarrow> redisReadTask \<Rightarrow> int \<Rightarrow> (nat option \<times> redisReader) cr" where
  "createArrayObject env r task elements =
     (let (obj, h) = createReplyObject env (r_store r) REDIS_REPLY_ARRAY in
      case obj of
        None \<Rightarrow> Ok (None, r)
      | Some a \<Rightarrow>
          if 0 < elements \<and> \<not> alloc_ok env (nat (8 * elements))
          then cbind (freeReplyObject h a) (\<lambda>h. Ok (None, r\<lparr>r_store := h\<rparr>))
          else
            cbind (rs_load h a) (\<lambda>o'.
            let el = (if 0 < elements then Some (replicate (nat elements) None) else None);
                h = rs_put h a (o'\<lparr>rr_element := el, rr_elements := c_size elements\<rparr>) in
            cbind (link_parent (r\<lparr>r_store := h\<rparr>) task a) (\<lambda>r. Ok (Some a, r))))"

definition createIntegerObject ::
  "cenv \<Rightarrow> redisReader \<Rightarrow> redisReadTask \<Rightarrow> int \<Rightarrow> (nat option \<times> redisReader) cr" where
  "createIntegerObject env r task v =
     (let (obj, h) = createReplyObject env (r_store r) REDIS_REPLY_INTEGER in
      case obj of
        None \<Rightarrow> Ok (None, r)
      | Some a \<Rightarrow>
          cbind (rs_load h a) (\<lambda>o'.
          cbind (link_parent (r\<lparr>r_store := rs_put h a (o'\<lparr>rr_integer := v\<rparr>)\<rparr>) task a) (\<lambda>r.
          Ok (Some a, r))))"

definition createNilObject ::
  "cenv \<Rightarrow> redisReader \<Rightarrow> redisReadTask \<Rightarrow> (nat option \<times> redisReader) cr" where
  "createNilObject env r task =
     (let (obj, h) = createReplyObject env (r_store r) REDIS_REPLY_NIL in
      case obj of
        None \<Rightarrow> Ok (None, r)
      | Some a \<Rightarrow> cbind (link_parent (r\<lparr>r_store := h\<rparr>) task a) (\<lambda>r. Ok (Some a, r)))"

section \<open>Errors\<close>

definition redisReaderSetError :: "redisReader \<Rightarrow> int \<Rightarrow> bytes \<Rightarrow> redisReader cr" where
  "redisReaderSetError r type str =
     cbind (case r_reply r of
              None \<Rightarrow> Ok r
            | Some a \<Rightarrow> cbind (freeReplyObject (r_store r) a) (\<lambda>h.
                         Ok (r\<lparr>r_store := h, r_reply := None\<rparr>))) (\<lambda>r.
     let r = (if r_buf r \<noteq> None then r\<lparr>r_buf := None, r_pos := 0, r_len := 0\<rparr> else r) in
     Ok (r\<lparr>r_ridx := -1, r_err := type, r_errstr := take 127 str\<rparr>))"

text \<open>\<open>snprintf\<close> of a formatted text into a buffer of \<open>n\<close> bytes.\<close>

definition c_snprintf :: "nat \<Rightarrow> bytes \<Rightarrow> bytes" where
  "c_snprintf n out = take (n - 1) out"

definition chrtos :: "nat \<Rightarrow> char \<Rightarrow> bytes" where
  "chrtos n byte =
     c_snprintf n
       (if byte = CHR 0x5C \<or> byte = CHR 0x22 then [CHR 0x22, CHR 0x5C, byte, CHR 0x22]
        else if byte = LF then [CHR 0x22, CHR 0x5C, CHR ''n'', CHR 0x22]
        else if byte = CR then [CHR 0x22, CHR 0x5C, CHR ''r'', CHR 0x22]
        else if byte = CHR 0x09 then [CHR 0x22, CHR 0x5C, CHR ''t'', CHR 0x22]
        else if byte = CHR 0x07 then [CHR 0x22, CHR 0x5C, CHR ''a'', CHR 0x22]
        else if byte = CHR 0x08 then [CHR 0x22, CHR 0x5C, CHR ''b'', CHR 0x22]
        else if c_isprint byte then [CHR 0x22, byte, CHR 0x22]
        else [CHR 0x22, CHR 0x5C, CHR ''x''] @ hex02 byte @ [CHR 0x22])"

definition redisReaderSetErrorProtocolByte :: "redisReader \<Rightarrow> char \<Rightarrow> redisReader cr" where
  "redisReaderSetErrorProtocolByte r byte =
     (let cbuf = chrtos 8 byte;
          sbuf = c_snprintf 128 (''Protocol error, got '' @ cbuf @ '' as reply type byte'')
      in redisReaderSetError r REDIS_ERR_PROTOCOL sbuf)"

definition redisReaderSetErrorOOM :: "redisReader \<Rightarrow> redisReader cr" where
  "redisReaderSetErrorOOM r = redisReaderSetError r REDIS_ERR_OOM ''Out of memory''"


section \<open>Reading from the buffer\<close>

text \<open>The memory from the read pointer \<open>r->buf + r->pos\<close> to the end of the block.\<close>

definition rd_ptr :: "redisReader \<Rightarrow> bytes cr" where
  "rd_ptr r =
     cbind (deref (r_buf r)) (\<lambda>sh.
     if 0 \<le> r_pos r \<and> r_pos r \<le> int (length (sh_buf sh))
     then Ok (drop (nat (r_pos r)) (sh_buf sh)) else Flt OutOfBounds)"

definition readBytes :: "redisReader \<Rightarrow> int \<Rightarrow> (bytes option \<times> redisReader) cr" where
  "readBytes r n =
     (if n \<le> c_size (r_len r - r_pos r)
      then cbind (rd_ptr r) (\<lambda>p. Ok (Some p, r\<lparr>r_pos := c_size (r_pos r + n)\<rparr>))
      else Ok (None, r))"

function (sequential) seek_cr :: "bytes \<Rightarrow> int \<Rightarrow> int \<Rightarrow> int cr" where
  "seek_cr s pos len =
     (if pos < len
      then cbind (mem_get s pos) (\<lambda>c. if c \<noteq> CR then seek_cr s (pos + 1) len else Ok pos)
      else Ok pos)"
  by pat_completeness auto
termination by (relation "measure (\<lambda>(s, pos, len). nat (len - pos))") auto

declare seek_cr.simps [simp del]

lemma seek_cr_ge: "seek_cr s pos len = Ok p \<Longrightarrow> pos \<le> p"
proof (induction s pos len rule: seek_cr.induct)
  case (1 s pos len)
  then show ?case
    by (subst (asm) (2) seek_cr.simps) (fastforce simp: cr_simps split: if_splits)
qed

function (sequential) seek_loop :: "bytes \<Rightarrow> int \<Rightarrow> int \<Rightarrow> int option cr" where
  "seek_loop s pos len =
     (if pos < len
      then cbind (seek_cr s pos len) (\<lambda>pos.
           cbind (mem_get s pos) (\<lambda>c.
           if c \<noteq> CR then Ok None
           else cbind (mem_get s (pos + 1)) (\<lambda>d.
                if d = LF then Ok (Some pos) else seek_loop s (pos + 1) len)))
      else Ok None)"
  by pat_completeness auto
termination
  by (relation "measure (\<lambda>(s, pos, len). nat (len - pos))") (auto dest: seek_cr_ge)

declare seek_loop.simps [simp del]

definition seekNewline :: "bytes \<Rightarrow> int \<Rightarrow> int option cr" where
  "seekNewline s len = seek_loop s 0 (c_int (c_size (len - 1)))"

text \<open>A \<open>char\<close> is signed on this platform.\<close>

definition schar :: "char \<Rightarrow> int" where
  "schar c = (let n = of_char c in if n < 128 then n else n - 256)"

fun digits_loop :: "int \<Rightarrow> bytes \<Rightarrow> int \<Rightarrow> int cr" where
  "digits_loop mult [] v = Flt OutOfBounds"
| "digits_loop mult (c # s) v =
     (if c = CR then s_llong (mult * v)
      else let dec = schar c - 48 in
        if 0 \<le> dec \<and> dec < 10
        then cbind (s_llong (v * 10)) (\<lambda>v. cbind (s_llong (v + dec)) (\<lambda>v. digits_loop mult s v))
        else Ok (- 1))"

definition readLongLong :: "bytes \<Rightarrow> int cr" where
  "readLongLong s =
     cbind (mem_get s 0) (\<lambda>c.
     if c = CHR ''-'' then digits_loop (- 1) (tl s) 0
     else if c = CHR ''+'' then digits_loop 1 (tl s) 0
     else digits_loop 1 s 0)"

definition readLine :: "redisReader \<Rightarrow> ((bytes \<times> int) option \<times> redisReader) cr" where
  "readLine r =
     cbind (rd_ptr r) (\<lambda>p.
     cbind (seekNewline p (c_size (r_len r - r_pos r))) (\<lambda>s.
     case s of
       None \<Rightarrow> Ok (None, r)
     | Some off \<Rightarrow>
         (let len = c_int off in
          cbind (s_int (len + 2)) (\<lambda>n.
          Ok (Some (p, len), r\<lparr>r_pos := c_size (r_pos r + n)\<rparr>)))))"

section \<open>The task stack\<close>

function (sequential) moveToNextTask :: "redisReader \<Rightarrow> redisReader cr" where
  "moveToNextTask r =
     (if r_ridx r < 0 then Ok r
      else if r_ridx r = 0 then Ok (r\<lparr>r_ridx := r_ridx r - 1\<rparr>)
      else
        cbind (task_at r (r_ridx r)) (\<lambda>cur.
        cbind (task_at r (r_ridx r - 1)) (\<lambda>prv.
        cbind (c_assert (t_type prv = REDIS_REPLY_ARRAY)) (\<lambda>_.
        cbind (s_int (t_elements prv - 1)) (\<lambda>last.
        if t_idx cur = last then moveToNextTask (r\<lparr>r_ridx := r_ridx r - 1\<rparr>)
        else
          cbind (c_assert (t_idx cur < t_elements prv)) (\<lambda>_.
          cbind (s_int (t_idx cur + 1)) (\<lambda>i.
          set_task r (r_ridx r) (cur\<lparr>t_type := - 1, t_elements := - 1, t_idx := i\<rparr>))))))))"
  by pat_completeness auto
termination by (relation "measure (\<lambda>r. nat (r_ridx r))") auto

declare moveToNextTask.simps [simp del]

section \<open>Processing one item\<close>

text \<open>Each returns the status and the reader.\<close>

definition set_root :: "redisReader \<Rightarrow> bool \<Rightarrow> nat option \<Rightarrow> redisReader" where
  "set_root r root obj = (if root then r\<lparr>r_reply := obj\<rparr> else r)"

definition processLineItem :: "cenv \<Rightarrow> redisReader \<Rightarrow> (int \<times> redisReader) cr" where
  "processLineItem env r =
     cbind (readLine r) (\<lambda>(line, r).
     case line of
       None \<Rightarrow> Ok (REDIS_ERR, r)
     | Some (p, len) \<Rightarrow>
         cbind (task_at r (r_ridx r)) (\<lambda>cur.
         cbind (if t_type cur = REDIS_REPLY_INTEGER
                then cbind (readLongLong p) (\<lambda>v. createIntegerObject env r cur v)
                else createStringObject env r cur p (c_size len)) (\<lambda>(obj, r).
         if obj = None then cbind (redisReaderSetErrorOOM r) (\<lambda>r. Ok (REDIS_ERR, r))
         else
           cbind (moveToNextTask (set_root r (r_ridx r = 0) obj)) (\<lambda>r.
           Ok (REDIS_OK, r)))))"

definition processBulkItem :: "cenv \<Rightarrow> redisReader \<Rightarrow> (int \<times> redisReader) cr" where
  "processBulkItem env r =
     cbind (task_at r (r_ridx r)) (\<lambda>cur.
     cbind (rd_ptr r) (\<lambda>p.
     cbind (seekNewline p (c_size (r_len r - r_pos r))) (\<lambda>s.
     case s of
       None \<Rightarrow> Ok (REDIS_ERR, r)
     | Some off \<Rightarrow>
         (let bytelen = c_size (off + 2) in
          cbind (readLongLong p) (\<lambda>len.
          cbind (if len < 0
                 then cbind (createNilObject env r cur) (\<lambda>(obj, r). Ok (True, obj, bytelen, r))
                 else
                   cbind (s_llong (len + 2)) (\<lambda>n.
                   let bytelen = c_size (bytelen + n) in
                   if c_size (r_pos r + bytelen) \<le> r_len r
                   then cbind (createStringObject env r cur (drop (nat (off + 2)) p) len)
                          (\<lambda>(obj, r). Ok (True, obj, bytelen, r))
                   else Ok (False, None, bytelen, r))) (\<lambda>(success, obj, bytelen, r).
          if \<not> success then Ok (REDIS_ERR, r)
          else if obj = None then cbind (redisReaderSetErrorOOM r) (\<lambda>r. Ok (REDIS_ERR, r))
          else
            let r = r\<lparr>r_pos := c_size (r_pos r + bytelen)\<rparr> in
            cbind (moveToNextTask (set_root r (r_ridx r = 0) obj)) (\<lambda>r.
            Ok (REDIS_OK, r))))))))"

text \<open>
  The push of a task for the first element: the fields of the new top are overwritten, its
  \<open>parent\<close> is the current task.
\<close>

definition push_task :: "redisReader \<Rightarrow> redisReadTask \<Rightarrow> int \<Rightarrow> nat option \<Rightarrow> redisReader cr" where
  "push_task r cur elements obj =
     cbind (set_task r (r_ridx r) (cur\<lparr>t_elements := c_int elements, t_obj := obj\<rparr>)) (\<lambda>r.
     let up = r_ridx r + 1 in
     set_task (r\<lparr>r_ridx := up\<rparr>) up
       \<lparr>t_type = - 1, t_elements = - 1, t_idx = 0, t_obj = None, t_parent = Some (nat (up - 1))\<rparr>)"

definition processMultiBulkItem :: "cenv \<Rightarrow> redisReader \<Rightarrow> (int \<times> redisReader) cr" where
  "processMultiBulkItem env r =
     cbind (task_at r (r_ridx r)) (\<lambda>cur.
     if r_ridx r = 8
     then cbind (redisReaderSetError r REDIS_ERR_PROTOCOL
                   ''No support for nested multi bulk replies with depth > 7'')
            (\<lambda>r. Ok (REDIS_ERR, r))
     else
       cbind (readLine r) (\<lambda>(line, r).
       case line of
         None \<Rightarrow> Ok (REDIS_ERR, r)
       | Some (p, _) \<Rightarrow>
           cbind (readLongLong p) (\<lambda>elements.
           let root = (r_ridx r = 0) in
           if elements = - 1
           then
             cbind (createNilObject env r cur) (\<lambda>(obj, r).
             if obj = None then cbind (redisReaderSetErrorOOM r) (\<lambda>r. Ok (REDIS_ERR, r))
             else cbind (moveToNextTask r) (\<lambda>r. Ok (REDIS_OK, set_root r root obj)))
           else
             cbind (createArrayObject env r cur (c_int elements)) (\<lambda>(obj, r).
             if obj = None then cbind (redisReaderSetErrorOOM r) (\<lambda>r. Ok (REDIS_ERR, r))
             else
               cbind (if 0 < elements then push_task r cur elements obj else moveToNextTask r) (\<lambda>r.
               Ok (REDIS_OK, set_root r root obj))))))"

definition reply_type_of :: "char \<Rightarrow> int option" where
  "reply_type_of c =
     (if c = CHR ''-'' then Some REDIS_REPLY_ERROR
      else if c = CHR ''+'' then Some REDIS_REPLY_STATUS
      else if c = CHR '':'' then Some REDIS_REPLY_INTEGER
      else if c = CHR ''$'' then Some REDIS_REPLY_STRING
      else if c = CHR ''*'' then Some REDIS_REPLY_ARRAY
      else None)"

definition process_typed :: "cenv \<Rightarrow> redisReader \<Rightarrow> (int \<times> redisReader) cr" where
  "process_typed env r =
     cbind (task_at r (r_ridx r)) (\<lambda>cur.
     if t_type cur = REDIS_REPLY_ERROR \<or> t_type cur = REDIS_REPLY_STATUS \<or>
        t_type cur = REDIS_REPLY_INTEGER then processLineItem env r
     else if t_type cur = REDIS_REPLY_STRING then processBulkItem env r
     else if t_type cur = REDIS_REPLY_ARRAY then processMultiBulkItem env r
     else Flt AssertFail)"

definition processItem :: "cenv \<Rightarrow> redisReader \<Rightarrow> (int \<times> redisReader) cr" where
  "processItem env r =
     cbind (task_at r (r_ridx r)) (\<lambda>cur.
     if t_type cur < 0
     then
       cbind (readBytes r 1) (\<lambda>(p, r).
       case p of
         None \<Rightarrow> Ok (REDIS_ERR, r)
       | Some p \<Rightarrow>
           cbind (mem_get p 0) (\<lambda>c.
           case reply_type_of c of
             None \<Rightarrow> cbind (redisReaderSetErrorProtocolByte r c) (\<lambda>r. Ok (REDIS_ERR, r))
           | Some ty \<Rightarrow>
               cbind (set_task r (r_ridx r) (cur\<lparr>t_type := ty\<rparr>)) (\<lambda>r. process_typed env r)))
     else process_typed env r)"

section \<open>The operations of the reader\<close>

definition REDIS_READER_SIZE :: int where "REDIS_READER_SIZE = 640"

definition task_zero :: redisReadTask where
  "task_zero = \<lparr>t_type = 0, t_elements = 0, t_idx = 0, t_obj = None, t_parent = None\<rparr>"

text \<open>The store \<open>h\<close> is what the earlier replies of the program occupy.\<close>

definition redisReaderCreate :: "cenv \<Rightarrow> rstore \<Rightarrow> redisReader option cr" where
  "redisReaderCreate env h =
     (if \<not> alloc_ok env (nat REDIS_READER_SIZE) then Ok None
      else
        cbind (sdsempty env) (\<lambda>buf.
        if buf = None then Ok None
        else Ok (Some \<lparr>r_err = 0, r_errstr = [], r_buf = buf, r_pos = 0, r_len = 0,
                       r_maxbuf = REDIS_READER_MAX_BUF, r_rstack = replicate 9 task_zero,
                       r_ridx = - 1, r_reply = None, r_store = h\<rparr>)))"

text \<open>The reader and its buffer go; what remains of it is the store.\<close>

definition redisReaderFree :: "redisReader \<Rightarrow> rstore cr" where
  "redisReaderFree r =
     (case r_reply r of None \<Rightarrow> Ok (r_store r) | Some a \<Rightarrow> freeReplyObject (r_store r) a)"

definition redisReaderFeed :: "cenv \<Rightarrow> redisReader \<Rightarrow> bytes option \<Rightarrow> int \<Rightarrow> (int \<times> redisReader) cr" where
  "redisReaderFeed env r buf len =
     (if r_err r \<noteq> 0 then Ok (REDIS_ERR, r)
      else case buf of
        None \<Rightarrow> Ok (REDIS_OK, r)
      | Some b \<Rightarrow>
          if len < 1 then Ok (REDIS_OK, r)
          else
            cbind (if r_len r = 0 \<and> r_maxbuf r \<noteq> 0
                   then cbind (deref (r_buf r)) (\<lambda>sh.
                        if r_maxbuf r < sdsavail sh
                        then cbind (sdsempty env) (\<lambda>nb.
                             cbind (c_assert (nb \<noteq> None)) (\<lambda>_.
                             Ok (r\<lparr>r_buf := nb, r_pos := 0\<rparr>)))
                        else Ok r)
                   else Ok r) (\<lambda>r.
            cbind (sdscatlen env (r_buf r) b len) (\<lambda>newbuf.
            case newbuf of
              None \<Rightarrow> cbind (redisReaderSetErrorOOM r) (\<lambda>r. Ok (REDIS_ERR, r))
            | Some sh \<Rightarrow> Ok (REDIS_OK, r\<lparr>r_buf := Some sh, r_len := sdslen sh\<rparr>))))"

definition root_task :: redisReadTask where
  "root_task = \<lparr>t_type = - 1, t_elements = - 1, t_idx = - 1, t_obj = None, t_parent = None\<rparr>"

text \<open>
  The loop over the items. Every item that is processed consumes input, so the number of
  bytes in the buffer bounds the iterations; running out of fuel is the fault \<open>Diverges\<close>.
\<close>

fun items_loop :: "nat \<Rightarrow> cenv \<Rightarrow> redisReader \<Rightarrow> redisReader cr" where
  "items_loop 0 env r = Flt Diverges"
| "items_loop (Suc n) env r =
     (if 0 \<le> r_ridx r
      then cbind (processItem env r) (\<lambda>(st, r).
           if st \<noteq> REDIS_OK then Ok r else items_loop n env r)
      else Ok r)"

definition discard_consumed :: "redisReader \<Rightarrow> redisReader cr" where
  "discard_consumed r =
     (if 1024 \<le> r_pos r
      then cbind (sdsrange (r_buf r) (c_int (r_pos r)) (- 1)) (\<lambda>b.
           cbind (deref b) (\<lambda>sh.
           Ok (r\<lparr>r_buf := b, r_pos := 0, r_len := sdslen sh\<rparr>)))
      else Ok r)"

definition redisReaderGetReply :: "cenv \<Rightarrow> redisReader \<Rightarrow> (int \<times> nat option \<times> redisReader) cr" where
  "redisReaderGetReply env r =
     (if r_err r \<noteq> 0 then Ok (REDIS_ERR, None, r)
      else if r_len r = 0 then Ok (REDIS_OK, None, r)
      else
        cbind (if r_ridx r = - 1
               then cbind (set_task r 0 root_task) (\<lambda>r. Ok (r\<lparr>r_ridx := 0\<rparr>)) else Ok r) (\<lambda>r.
        cbind (items_loop (Suc (nat (r_len r))) env r) (\<lambda>r.
        if r_err r \<noteq> 0 then Ok (REDIS_ERR, None, r)
        else
          cbind (discard_consumed r) (\<lambda>r.
          if r_ridx r = - 1 then Ok (REDIS_OK, r_reply r, r\<lparr>r_reply := None\<rparr>)
          else Ok (REDIS_OK, None, r)))))"

text \<open>
  \<open>redisContext\<close>: a copy of the reader's error, the socket, flags, the write buffer and the reader, of
  which the last two may be NULL.
\<close>

record redisContext =
  c_err :: int
  c_errstr :: bytes
  c_fd :: int
  c_flags :: int
  c_obuf :: "sdshdr option"
  c_reader :: "redisReader option"

text \<open>
  \<open>strerror\<close> is what \<open>strerror_r\<close> makes of the contents of the error text, for the \<open>errno\<close> of the moment.
\<close>

definition redisSetError :: "(bytes \<Rightarrow> bytes) \<Rightarrow> redisContext \<Rightarrow> int \<Rightarrow> bytes option \<Rightarrow> redisContext cr" where
  "redisSetError strerror c type str =
     (let c = c\<lparr>c_err := type\<rparr> in
      case str of
        Some s \<Rightarrow> Ok (c\<lparr>c_errstr := take 127 s\<rparr>)
      | None \<Rightarrow> cbind (c_assert (type = REDIS_ERR_IO)) (\<lambda>_. Ok (c\<lparr>c_errstr := strerror (c_errstr c)\<rparr>)))"

text \<open>The socket that is closed, if there is one, and the store without the reader's reply.\<close>

definition redisFree :: "redisContext \<Rightarrow> (int list \<times> rstore option) cr" where
  "redisFree c =
     (let closed = (if 0 < c_fd c then [c_fd c] else []) in
      case c_reader c of
        None \<Rightarrow> Ok (closed, None)
      | Some r \<Rightarrow> cbind (redisReaderFree r) (\<lambda>h. Ok (closed, Some h)))"

definition redisGetReplyFromReader ::
  "cenv \<Rightarrow> (bytes \<Rightarrow> bytes) \<Rightarrow> redisContext \<Rightarrow> (int \<times> nat option \<times> redisContext) cr" where
  "redisGetReplyFromReader env strerror c =
     cbind (deref (c_reader c)) (\<lambda>r.
     cbind (redisReaderGetReply env r) (\<lambda>(st, reply, r).
     let c = c\<lparr>c_reader := Some r\<rparr> in
     if st = REDIS_ERR
     then cbind (redisSetError strerror c (r_err r) (Some (r_errstr r))) (\<lambda>c. Ok (REDIS_ERR, reply, c))
     else Ok (REDIS_OK, reply, c)))"

end
