(* ===== verification/Resp_Protocol.thy ===== *)
theory Resp_Protocol
  imports Resp_Reader
begin

text \<open>
  The abstract specification of the reply parser: replies as a datatype, their encoding on
  the wire, and a machine that consumes unread bytes with a stack of open arrays, without
  tasks, store or buffer. Its theorems are about the protocol alone: an encoded reply is read
  back as it was, and cutting the input into pieces does not change what is read. The theory
  \<open>Resp_Refine\<close> shows that the C code implements this machine.
\<close>

section \<open>Replies and their encoding\<close>

datatype resp = RString bytes | RStatus bytes | RError bytes | RInteger int | RNil | RArray "resp list"

fun encode :: "resp \<Rightarrow> bytes" where
  "encode (RString s) = CHR ''$'' # int_dec (int (length s)) @ crlf @ s @ crlf"
| "encode (RStatus s) = CHR ''+'' # s @ crlf"
| "encode (RError s) = CHR ''-'' # s @ crlf"
| "encode (RInteger i) = CHR '':'' # int_dec i @ crlf"
| "encode RNil = ''$-1'' @ crlf"
| "encode (RArray ts) = CHR ''*'' # int_dec (int (length ts)) @ crlf @ concat (map encode ts)"

section \<open>Lines and numbers\<close>

fun find_crlf :: "bytes \<Rightarrow> nat option" where
  "find_crlf [] = None"
| "find_crlf [c] = None"
| "find_crlf (c # d # u) = (if c = CR \<and> d = LF then Some 0 else map_option Suc (find_crlf (d # u)))"

text \<open>The number a line holds, or \<open>None\<close> where computing it overflows a \<open>long long\<close>.\<close>

definition line_number :: "bytes \<Rightarrow> int option" where
  "line_number l = (case readLongLong (l @ [CR]) of Ok v \<Rightarrow> Some v | Flt _ \<Rightarrow> None)"

lemma find_crlf_append: "find_crlf u = Some k \<Longrightarrow> find_crlf (u @ v) = Some k"
  by (induction u arbitrary: k rule: find_crlf.induct) (auto split: if_splits)

lemma find_crlf_bound: "find_crlf u = Some k \<Longrightarrow> Suc (Suc k) \<le> length u"
  by (induction u arbitrary: k rule: find_crlf.induct) (auto split: if_splits)

lemma find_crlf_at: "find_crlf u = Some k \<Longrightarrow> u ! k = CR \<and> u ! Suc k = LF"
  by (induction u arbitrary: k rule: find_crlf.induct) (auto split: if_splits)

lemma find_crlf_split:
  assumes "find_crlf u = Some k"
  shows "u = take k u @ crlf @ drop (k + 2) u"
proof -
  have le: "Suc (Suc k) \<le> length u" using assms by (rule find_crlf_bound)
  have "drop k u = u ! k # u ! Suc k # drop (Suc (Suc k)) u"
    using le by (simp add: Cons_nth_drop_Suc)
  then have "drop k u = crlf @ drop (k + 2) u"
    using find_crlf_at [OF assms] by (simp add: crlf_def)
  then show ?thesis by (metis append_take_drop_id)
qed

lemma find_crlf_line: "find_crlf s = None \<Longrightarrow> find_crlf (s @ crlf @ v) = Some (length s)"
proof (induction s rule: find_crlf.induct)
  case (2 c)
  then show ?case by (simp add: crlf_def)
next
  case (3 c d u)
  then show ?case by (auto split: if_splits)
qed (simp add: crlf_def)

lemma find_crlf_no_CR: "CR \<notin> set s \<Longrightarrow> find_crlf s = None"
  by (induction s rule: find_crlf.induct) auto

lemma schar_digit: "d < 10 \<Longrightarrow> schar (digit_char d) = int d + 48"
  using of_char_digit [of d] of_nat_of_char [where 'a = int, of "digit_char d"]
  by (simp add: schar_def Let_def)

lemma digit_char_code: "digit_char d = c \<Longrightarrow> d < 10 \<Longrightarrow> (of_char c :: nat) = 48 + d"
  by auto

lemma digit_not_CR [simp]: "d < 10 \<Longrightarrow> digit_char d \<noteq> CR"
  by (auto dest: digit_char_code)

lemma digits_loop_nat_dec:
  "n < 2 ^ 63 \<Longrightarrow> digits_loop m (nat_dec n @ s) 0 = digits_loop m s (int n)"
proof (induction n arbitrary: s rule: nat_dec.induct)
  case (1 n)
  show ?case
  proof (cases "n < 10")
    case True
    then show ?thesis
      by (simp add: nat_dec_small digit_not_CR schar_digit s_llong_ok)
  next
    case False
    let ?d = "n mod 10"
    have d: "?d < 10" by simp
    have n: "int (n div 10) * 10 + int ?d = int n"
      by presburger
    have IH: "digits_loop m (nat_dec (n div 10) @ digit_char ?d # s) 0 =
        digits_loop m (digit_char ?d # s) (int (n div 10))"
      using 1 False by simp
    have "s_llong (int (n div 10) * 10) = Ok (int (n div 10) * 10)"
      using "1.prems" by (intro s_llong_ok) auto
    moreover have "s_llong (int (n div 10) * 10 + int ?d) = Ok (int n)"
      unfolding n using "1.prems" by (intro s_llong_ok) auto
    ultimately have "digits_loop m (digit_char ?d # s) (int (n div 10)) = digits_loop m s (int n)"
      using digit_not_CR [OF d] schar_digit [OF d] d by (simp add: add.commute)
    with IH False show ?thesis by (simp add: nat_dec_step)
  qed
qed

lemma nat_dec_hd:
  obtains d ds where "nat_dec n = digit_char d # ds" and "d < 10"
proof -
  obtain c ds where eq: "nat_dec n = c # ds"
    using nat_dec_nonempty [of n] by (cases "nat_dec n") auto
  then obtain d where "d < 10" "c = digit_char d"
    using nat_dec_digits [of c n] by auto
  with eq that show thesis by blast
qed

lemma digit_not_sign: "d < 10 \<Longrightarrow> digit_char d \<noteq> CHR ''-''" "d < 10 \<Longrightarrow> digit_char d \<noteq> CHR ''+''"
  by (auto dest: digit_char_code)

lemma readLongLong_int_dec:
  assumes "- (2 ^ 63) < i" and "i < 2 ^ 63"
  shows "readLongLong (int_dec i @ CR # s) = Ok i"
proof (cases "i < 0")
  case True
  then show ?thesis
    using assms digits_loop_nat_dec [of "nat (- i)" "- 1" "CR # s"]
    by (simp add: readLongLong_def int_dec_def mem_get_def s_llong_ok)
next
  case False
  obtain d ds where hd: "nat_dec (nat i) = digit_char d # ds" and d: "d < 10"
    by (rule nat_dec_hd)
  have "readLongLong (int_dec i @ CR # s) = digits_loop 1 (nat_dec (nat i) @ CR # s) 0"
    using False digit_not_sign [OF d] hd by (simp add: readLongLong_def int_dec_def mem_get_def)
  then show ?thesis
    using assms False digits_loop_nat_dec [of "nat i" 1 "CR # s"] by (simp add: s_llong_ok)
qed

lemma line_number_int_dec:
  "- (2 ^ 63) < i \<Longrightarrow> i < 2 ^ 63 \<Longrightarrow> line_number (int_dec i) = Some i"
  by (simp add: line_number_def readLongLong_int_dec)

text \<open>What follows the line does not matter: the conversion stops at its end.\<close>

lemma digits_loop_stop: "digits_loop m (l @ CR # s) v = digits_loop m (l @ CR # s') v"
  by (induction l arbitrary: v) (simp_all add: Let_def cong: cbind_cong)

lemma readLongLong_stop: "readLongLong (l @ CR # s) = readLongLong (l @ CR # s')"
  using digits_loop_stop [of _ l s 0 s'] digits_loop_stop [of _ "tl l" s 0 s']
  by (cases l) (simp_all add: readLongLong_def mem_get_def)

lemma digits_loop_fault: "digits_loop m (l @ CR # s) v = Flt e \<Longrightarrow> e = SignedOverflow"
proof (induction l arbitrary: v)
  case (Cons c l)
  then show ?case
    by (auto simp: Let_def s_llong_def split: if_splits)
qed (simp add: s_llong_def split: if_splits)

lemma readLongLong_line: "readLongLong (l @ CR # s) =
  (case line_number l of Some v \<Rightarrow> Ok v | None \<Rightarrow> Flt SignedOverflow)"
proof (cases "readLongLong (l @ [CR])")
  case (Ok v)
  then show ?thesis
    using readLongLong_stop [of l s "[]"] by (simp add: line_number_def)
next
  case (Flt e)
  then have "e = SignedOverflow"
    using digits_loop_fault [of _ l "[]" 0 e] digits_loop_fault [of _ "tl l" "[]" 0 e]
    by (cases l) (auto simp: readLongLong_def mem_get_def s_llong_def split: if_splits)
  then show ?thesis
    using Flt readLongLong_stop [of l s "[]"] by (simp add: line_number_def)
qed

lemma int_dec_no_CR: "CR \<notin> set (int_dec i)"
  using nat_dec_digits [of CR "nat (- i)"] nat_dec_digits [of CR "nat i"]
  by (auto simp: int_dec_def dest: digit_not_CR [THEN notE, OF _ sym])

lemma find_crlf_int_dec [simp]: "find_crlf (int_dec i @ crlf @ v) = Some (length (int_dec i))"
  by (rule find_crlf_line) (simp add: find_crlf_no_CR int_dec_no_CR)

section \<open>The abstract parser\<close>

text \<open>
  An open array: how many elements it was announced to have, and those already read. The
  innermost comes first. A stack of \<open>d\<close> open arrays is the code's \<open>ridx = d\<close>.
\<close>

type_synonym frames = "(nat \<times> resp list) list"

datatype outcome =
    Blocked frames int bytes \<comment> \<open>more input is needed; the type byte may be read already\<close>
  | Next frames bytes \<comment> \<open>an item inside an open array is complete\<close>
  | Done resp bytes \<comment> \<open>a whole reply, and the bytes after it\<close>
  | Bad bytes \<comment> \<open>a protocol error with its message\<close>
  | Undef \<comment> \<open>a number outside the range where the code's behaviour is defined and sane\<close>

fun finish :: "resp \<Rightarrow> frames \<Rightarrow> bytes \<Rightarrow> outcome" where
  "finish t [] u = Done t u"
| "finish t ((n, ds) # fs) u =
     (if Suc (length ds) = n then finish (RArray (ds @ [t])) fs u else Next ((n, ds @ [t]) # fs) u)"

definition line_item :: "frames \<Rightarrow> int \<Rightarrow> bytes \<Rightarrow> outcome" where
  "line_item fs ty u =
     (case find_crlf u of
        None \<Rightarrow> Blocked fs ty u
      | Some k \<Rightarrow>
          if ty = REDIS_REPLY_INTEGER
          then (case line_number (take k u) of
                  None \<Rightarrow> Undef
                | Some v \<Rightarrow> finish (RInteger v) fs (drop (k + 2) u))
          else if ty = REDIS_REPLY_STATUS then finish (RStatus (take k u)) fs (drop (k + 2) u)
          else finish (RError (take k u)) fs (drop (k + 2) u))"

definition bulk_item :: "frames \<Rightarrow> int \<Rightarrow> bytes \<Rightarrow> outcome" where
  "bulk_item fs ty u =
     (case find_crlf u of
        None \<Rightarrow> Blocked fs ty u
      | Some k \<Rightarrow>
          (case line_number (take k u) of
             None \<Rightarrow> Undef
           | Some l \<Rightarrow>
               if l < 0 then finish RNil fs (drop (k + 2) u)
               else if 2 ^ 63 - 2 \<le> l then Undef
               else if k + 2 + nat l + 2 \<le> length u
               then finish (RString (take (nat l) (drop (k + 2) u))) fs (drop (k + 2 + nat l + 2) u)
               else Blocked fs ty u))"

definition nested_msg :: bytes where
  "nested_msg = ''No support for nested multi bulk replies with depth > 7''"

definition multi_item :: "frames \<Rightarrow> int \<Rightarrow> bytes \<Rightarrow> outcome" where
  "multi_item fs ty u =
     (if length fs = 8 then Bad nested_msg
      else case find_crlf u of
        None \<Rightarrow> Blocked fs ty u
      | Some k \<Rightarrow>
          (case line_number (take k u) of
             None \<Rightarrow> Undef
           | Some n \<Rightarrow>
               if n = - 1 then finish RNil fs (drop (k + 2) u)
               else if n < - 1 \<or> 2 ^ 31 \<le> n then Undef
               else if n = 0 then finish (RArray []) fs (drop (k + 2) u)
               else Next ((nat n, []) # fs) (drop (k + 2) u)))"

definition typed_item :: "frames \<Rightarrow> int \<Rightarrow> bytes \<Rightarrow> outcome" where
  "typed_item fs ty u =
     (if ty = REDIS_REPLY_ERROR \<or> ty = REDIS_REPLY_STATUS \<or> ty = REDIS_REPLY_INTEGER
      then line_item fs ty u
      else if ty = REDIS_REPLY_STRING then bulk_item fs ty u
      else multi_item fs ty u)"

definition bad_type_msg :: "char \<Rightarrow> bytes" where
  "bad_type_msg c = ''Protocol error, got '' @ chrtos 8 c @ '' as reply type byte''"

definition item :: "frames \<Rightarrow> int \<Rightarrow> bytes \<Rightarrow> outcome" where
  "item fs ty u =
     (if ty < 0
      then case u of
             [] \<Rightarrow> Blocked fs ty u
           | c # u' \<Rightarrow>
               (case reply_type_of c of
                  None \<Rightarrow> Bad (bad_type_msg c)
                | Some ty' \<Rightarrow> typed_item fs ty' u')
      else typed_item fs ty u)"

text \<open>Every item consumes input, its line at least.\<close>

lemma finish_cases:
  "(\<exists>t' . finish t fs u = Done t' u) \<or> (\<exists>fs'. finish t fs u = Next fs' u \<and> fs' \<noteq> [])"
  by (induction t fs u rule: finish.induct) auto

lemma finish_rest:
  "finish t fs u = Next fs' u' \<Longrightarrow> u' = u" "finish t fs u = Done t' u' \<Longrightarrow> u' = u"
  by (induction t fs u rule: finish.induct) (auto split: if_splits)

lemma finish_not:
  "finish t fs u \<noteq> Blocked fs' ty u'" "finish t fs u \<noteq> Bad m" "finish t fs u \<noteq> Undef"
  using finish_cases [of t fs u] by auto

lemmas item_defs = line_item_def bulk_item_def multi_item_def

lemmas outcome_splits = option.splits if_splits list.splits

lemma typed_item_consumes:
  "typed_item fs ty u = Next fs' u' \<Longrightarrow> Suc (length u') < length u"
  "typed_item fs ty u = Done t u' \<Longrightarrow> Suc (length u') < length u"
  using find_crlf_bound [of u]
  by (force simp: typed_item_def item_defs dest!: finish_rest split: outcome_splits)+

lemma item_consumes:
  "item fs ty u = Next fs' u' \<Longrightarrow> Suc (length u') < length u"
  "item fs ty u = Done t u' \<Longrightarrow> Suc (length u') < length u"
  by (force simp: item_def dest: typed_item_consumes split: outcome_splits)+

function prun :: "frames \<Rightarrow> int \<Rightarrow> bytes \<Rightarrow> outcome" where
  "prun fs ty u = (case item fs ty u of Next fs' u' \<Rightarrow> prun fs' (- 1) u' | out \<Rightarrow> out)"
  by pat_completeness auto
termination
  by (relation "measure (\<lambda>(fs, ty, u). length u)") (auto dest: item_consumes)

declare prun.simps [simp del]

section \<open>Pieces of input\<close>

text \<open>
  An item read from \<open>u\<close> is read the same way when more bytes follow; a blocked item takes up
  where it stopped.
\<close>

definition push_back :: "bytes \<Rightarrow> outcome \<Rightarrow> outcome" where
  "push_back v out =
     (case out of Next fs u \<Rightarrow> Next fs (u @ v) | Done t u \<Rightarrow> Done t (u @ v)
      | Blocked fs ty u \<Rightarrow> Blocked fs ty (u @ v) | Bad m \<Rightarrow> Bad m | Undef \<Rightarrow> Undef)"

lemma push_back_simps [simp]:
  "push_back v (Next fs u) = Next fs (u @ v)"
  "push_back v (Done t u) = Done t (u @ v)"
  "push_back v (Bad m) = Bad m"
  "push_back v Undef = Undef"
  "push_back v (Blocked fs ty u) = Blocked fs ty (u @ v)"
  by (simp_all add: push_back_def)

lemma finish_push_back: "finish t fs (u @ v) = push_back v (finish t fs u)"
  by (induction t fs u rule: finish.induct) auto

definition resume :: "bytes \<Rightarrow> (frames \<Rightarrow> int \<Rightarrow> bytes \<Rightarrow> outcome) \<Rightarrow> outcome \<Rightarrow> outcome" where
  "resume v f out =
     (case out of Blocked fs ty u \<Rightarrow> f fs ty (u @ v) | out \<Rightarrow> push_back v out)"

lemma resume_simps [simp]:
  "resume v f (Next fs u) = Next fs (u @ v)"
  "resume v f (Done t u) = Done t (u @ v)"
  "resume v f (Bad m) = Bad m"
  "resume v f Undef = Undef"
  "resume v f (Blocked fs ty u) = f fs ty (u @ v)"
  by (simp_all add: resume_def)

lemma resume_finish [simp]: "resume v f (finish t fs u) = finish t fs (u @ v)"
  using finish_cases [of t fs u] by (auto simp: finish_push_back)

lemma line_item_append: "line_item fs ty (u @ v) = resume v line_item (line_item fs ty u)"
proof (cases "find_crlf u")
  case (Some k)
  then have "k + 2 \<le> length u" using find_crlf_bound by fastforce
  with Some find_crlf_append [OF Some] show ?thesis
    by (simp add: line_item_def split: option.split)
qed (simp add: line_item_def)

lemma bulk_item_append: "bulk_item fs ty (u @ v) = resume v bulk_item (bulk_item fs ty u)"
proof (cases "find_crlf u")
  case (Some k)
  then have "k + 2 \<le> length u" using find_crlf_bound by fastforce
  with Some find_crlf_append [OF Some] show ?thesis
    by (simp add: bulk_item_def split: option.split)
qed (simp add: bulk_item_def)

lemma multi_item_append: "multi_item fs ty (u @ v) = resume v multi_item (multi_item fs ty u)"
proof (cases "find_crlf u")
  case (Some k)
  then have "k + 2 \<le> length u" using find_crlf_bound by fastforce
  with Some find_crlf_append [OF Some] show ?thesis
    by (simp add: multi_item_def split: option.split)
qed (simp add: multi_item_def)

lemma typed_item_blocked:
  "typed_item fs ty u = Blocked fs' ty' u' \<Longrightarrow> fs' = fs \<and> ty' = ty \<and> u' = u"
  by (auto simp: typed_item_def item_defs finish_not split: outcome_splits)

lemma typed_item_append: "typed_item fs ty (u @ v) = resume v typed_item (typed_item fs ty u)"
proof -
  have swap: "resume v f (f fs ty u) = resume v typed_item (f fs ty u)"
    if "\<And>u. typed_item fs ty u = f fs ty u" for f
    using that typed_item_blocked [of fs ty u]
    by (cases "f fs ty u") auto
  consider (line) "\<And>u. typed_item fs ty u = line_item fs ty u"
    | (bulk) "\<And>u. typed_item fs ty u = bulk_item fs ty u"
    | (multi) "\<And>u. typed_item fs ty u = multi_item fs ty u"
  proof (cases "ty = REDIS_REPLY_ERROR \<or> ty = REDIS_REPLY_STATUS \<or> ty = REDIS_REPLY_INTEGER")
    case True
    then have "typed_item fs ty u = line_item fs ty u" for u by (simp add: typed_item_def)
    then show thesis by (rule line)
  next
    case other: False
    show thesis
    proof (cases "ty = REDIS_REPLY_STRING")
      case True
      then have "typed_item fs ty u = bulk_item fs ty u" for u
        using other by (simp add: typed_item_def)
      then show thesis by (rule bulk)
    next
      case False
      then have "typed_item fs ty u = multi_item fs ty u" for u
        using other by (simp add: typed_item_def)
      then show thesis by (rule multi)
    qed
  qed
  then show ?thesis
    by cases (simp_all add: swap line_item_append bulk_item_append multi_item_append)
qed

lemma reply_type_of_pos: "reply_type_of c = Some ty \<Longrightarrow> 0 < ty"
  by (auto simp: reply_type_of_def reply_types split: if_splits)

lemma item_typed: "0 \<le> ty \<Longrightarrow> item fs ty u = typed_item fs ty u"
  by (simp add: item_def)

lemma resume_typed:
  assumes "0 \<le> ty"
  shows "resume v item (typed_item fs ty u) = resume v typed_item (typed_item fs ty u)"
  using assms typed_item_blocked [of fs ty u]
  by (cases "typed_item fs ty u") (auto simp: item_typed)

lemma item_append: "item fs ty (u @ v) = resume v item (item fs ty u)"
proof (cases "ty < 0")
  case False
  then show ?thesis
    using resume_typed [of ty v fs u] by (simp add: item_def typed_item_append)
next
  case True
  show ?thesis
  proof (cases u)
    case Nil
    with True show ?thesis by (simp add: item_def)
  next
    case (Cons c u')
    show ?thesis
    proof (cases "reply_type_of c")
      case (Some ty')
      then have "0 \<le> ty'" using reply_type_of_pos by fastforce
      with True Cons Some show ?thesis
        by (simp add: item_def [of fs ty] typed_item_append resume_typed)
    qed (use True Cons in \<open>simp add: item_def\<close>)
  qed
qed

lemma prun_append: "prun fs ty (u @ v) = resume v prun (prun fs ty u)"
proof (induction fs ty u rule: prun.induct)
  case (1 fs ty u)
  show ?case
  proof (cases "item fs ty u")
    case (Next fs' u')
    then show ?thesis
      using 1 [OF Next] by (simp add: prun.simps [of fs ty] item_append)
  next
    case (Blocked fs' ty' u')
    then show ?thesis
      by (simp add: prun.simps [of fs ty u] prun.simps [of fs ty "u @ v"] prun.simps [of fs' ty'] item_append)
  qed (simp_all add: prun.simps [of fs ty] item_append)
qed

text \<open>All replies in a stretch of input, and the state in which the machine waits for more.\<close>

lemma prun_consumes: "prun fs ty u = Done t u' \<Longrightarrow> Suc (length u') < length u"
proof (induction fs ty u rule: prun.induct)
  case (1 fs ty u)
  show ?case
  proof (cases "item fs ty u")
    case (Next fs' u1)
    then show ?thesis
      using 1 item_consumes(1) [OF Next] by (simp add: prun.simps [of fs ty])
  qed (use 1 item_consumes in \<open>auto simp: prun.simps [of fs ty]\<close>)
qed

function drain :: "frames \<Rightarrow> int \<Rightarrow> bytes \<Rightarrow> resp list \<times> outcome" where
  "drain fs ty u =
     (case prun fs ty u of
        Done t u' \<Rightarrow> (let (ts, out) = drain [] (- 1) u' in (t # ts, out))
      | out \<Rightarrow> ([], out))"
  by pat_completeness auto
termination
  by (relation "measure (\<lambda>(fs, ty, u). length u)") (auto dest: prun_consumes)

declare drain.simps [simp del]

lemma drain_append:
  "drain fs ty (u @ v) =
    (case drain fs ty u of
       (ts, Blocked fs' ty' u') \<Rightarrow> (let (ts', out) = drain fs' ty' (u' @ v) in (ts @ ts', out))
     | (ts, out) \<Rightarrow> (ts, push_back v out))"
proof (induction fs ty u rule: drain.induct)
  case (1 fs ty u)
  show ?case
  proof (cases "prun fs ty u")
    case (Done t u')
    then show ?thesis
      using 1 [OF Done] by (simp add: drain.simps [of fs ty] prun_append split: prod.split outcome.split)
  next
    case (Blocked fs' ty' u')
    then show ?thesis
      by (simp add: drain.simps [of fs ty u] drain.simps [of fs ty "u @ v"] drain.simps [of fs' ty']
          prun_append [of fs ty])
  next
    case (Next fs' u')
    then show ?thesis
      by (simp add: drain.simps [of fs ty] prun_append)
  qed (simp_all add: drain.simps [of fs ty] prun_append)
qed

section \<open>Reading back an encoded reply\<close>

text \<open>What the wire format and the parser can carry at \<open>d\<close> open arrays.\<close>

fun wf_resp :: "nat \<Rightarrow> resp \<Rightarrow> bool" where
  "wf_resp d (RString s) = (length s < 2 ^ 30)"
| "wf_resp d (RStatus s) = (find_crlf s = None)"
| "wf_resp d (RError s) = (find_crlf s = None)"
| "wf_resp d (RInteger i) = (- (2 ^ 63) < i \<and> i < 2 ^ 63)"
| "wf_resp d RNil = True"
| "wf_resp d (RArray ts) = (d < 8 \<and> length ts < 2 ^ 31 \<and> (\<forall>t\<in>set ts. wf_resp (Suc d) t))"

definition continue_run :: "outcome \<Rightarrow> outcome" where
  "continue_run out = (case out of Next fs u \<Rightarrow> prun fs (- 1) u | out \<Rightarrow> out)"

lemma prun_item: "prun fs ty u = continue_run (item fs ty u)"
  by (simp add: continue_run_def prun.simps [of fs ty u])

lemmas encode_items = item_def typed_item_def item_defs reply_type_of_def reply_types

lemma prun_elements:
  assumes "\<And>t fs u. t \<in> set ts \<Longrightarrow> length fs = d \<Longrightarrow>
             prun fs (- 1) (encode t @ u) = continue_run (finish t fs u)"
    and "length fs = d - 1" "0 < d" and "n = length ds + length ts" and "ts \<noteq> []"
  shows "prun ((n, ds) # fs) (- 1) (concat (map encode ts) @ u) =
         continue_run (finish (RArray (ds @ ts)) fs u)"
  using assms
proof (induction ts arbitrary: ds)
  case (Cons t ts)
  have t: "prun ((n, ds) # fs) (- 1) (encode t @ concat (map encode ts) @ u) =
      continue_run (finish t ((n, ds) # fs) (concat (map encode ts) @ u))"
    using Cons.prems by (intro Cons.prems(1)) auto
  show ?case
  proof (cases "ts = []")
    case True
    with t Cons.prems show ?thesis by simp
  next
    case False
    have "prun ((n, ds @ [t]) # fs) (- 1) (concat (map encode ts) @ u) =
        continue_run (finish (RArray ((ds @ [t]) @ ts)) fs u)"
      using Cons.prems False by (intro Cons.IH) auto
    with t False Cons.prems show ?thesis
      by (simp add: continue_run_def)
  qed
qed simp

lemma int_dec_minus_one: "int_dec (- 1) = ''-1''"
  by (simp add: int_dec_def nat_dec_small digit_char_def char_of_def bit_0)

lemma prun_encode:
  "wf_resp (length fs) t \<Longrightarrow> prun fs (- 1) (encode t @ u) = continue_run (finish t fs u)"
proof (induction t arbitrary: fs u)
  case (RString s)
  let ?l = "int_dec (int (length s))"
  have line: "find_crlf (?l @ crlf @ s @ crlf @ u) = Some (length ?l)" by simp
  have "item fs (- 1) (encode (RString s) @ u) = finish (RString s) fs u"
    using RString line line_number_int_dec [of "int (length s)"]
    by (simp add: encode_items) (simp add: crlf_def)
  then show ?case by (simp add: prun_item)
next
  case (RStatus s)
  then have "item fs (- 1) (encode (RStatus s) @ u) = finish (RStatus s) fs u"
    by (simp add: encode_items find_crlf_line) (simp add: crlf_def)
  then show ?case by (simp add: prun_item)
next
  case (RError s)
  then have "item fs (- 1) (encode (RError s) @ u) = finish (RError s) fs u"
    by (simp add: encode_items find_crlf_line) (simp add: crlf_def)
  then show ?case by (simp add: prun_item)
next
  case (RInteger i)
  then have "item fs (- 1) (encode (RInteger i) @ u) = finish (RInteger i) fs u"
    by (simp add: encode_items line_number_int_dec) (simp add: crlf_def)
  then show ?case by (simp add: prun_item)
next
  case RNil
  have "item fs (- 1) (encode RNil @ u) = finish RNil fs u"
    using find_crlf_int_dec [of "- 1" u] line_number_int_dec [of "- 1"]
    by (simp add: encode_items int_dec_minus_one) (simp add: crlf_def)
  then show ?case by (simp add: prun_item)
next
  case (RArray ts)
  let ?l = "int_dec (int (length ts))" and ?body = "concat (map encode ts) @ u"
  have line: "find_crlf (?l @ crlf @ ?body) = Some (length ?l)" by simp
  have num: "line_number ?l = Some (int (length ts))"
    using RArray.prems by (intro line_number_int_dec) auto
  have rest: "drop (length ?l + 2) (?l @ crlf @ ?body) = ?body"
    by (simp add: crlf_def)
  show ?case
  proof (cases "ts = []")
    case True
    then have "item fs (- 1) (encode (RArray ts) @ u) = finish (RArray []) fs u"
      using RArray.prems line num rest by (simp add: encode_items)
    then show ?thesis using True by (simp add: prun_item)
  next
    case False
    then have "item fs (- 1) (encode (RArray ts) @ u) = Next ((length ts, []) # fs) ?body"
      using RArray.prems line num rest by (simp add: encode_items)
    moreover have "prun ((length ts, []) # fs) (- 1) ?body = continue_run (finish (RArray ([] @ ts)) fs u)"
      using RArray False by (intro prun_elements [where d = "Suc (length fs)"]) auto
    ultimately show ?thesis by (simp add: prun_item continue_run_def)
  qed
qed

lemma prun_encode_root: "wf_resp 0 t \<Longrightarrow> prun [] (- 1) (encode t @ u) = Done t u"
  using prun_encode [of "[]" t u] by (simp add: continue_run_def)

lemma drain_encode:
  "(\<forall>t\<in>set ts. wf_resp 0 t) \<Longrightarrow>
   drain [] (- 1) (concat (map encode ts)) = (ts, Blocked [] (- 1) [])"
proof (induction ts)
  case Nil
  then show ?case by (simp add: drain.simps prun.simps item_def)
next
  case (Cons t ts)
  then show ?case
    by (simp add: drain.simps [of "[]" "- 1" "encode t @ concat (map encode ts)"] prun_encode_root)
qed

end
