(* ===== verification/Resp_Store.thy ===== *)
theory Resp_Store
  imports Resp_Protocol
begin

text \<open>
  How replies lie in the store of reply objects: a reply occupies consecutive addresses, its
  root first, and so do the arrays the parser still has open. \<open>store_of h0 os\<close> is the store
  \<open>h0\<close> extended by the objects \<open>os\<close>. The lemmas say what allocation, linking and release do
  to such a store.
\<close>

section \<open>Replies in the store\<close>

fun rsize :: "resp \<Rightarrow> nat" where
  "rsize (RArray ts) = Suc (sum_list (map rsize ts))"
| "rsize _ = 1"

abbreviation fsize :: "resp list \<Rightarrow> nat" where
  "fsize ts \<equiv> sum_list (map rsize ts)"

text \<open>The addresses of consecutive replies whose objects start at \<open>a\<close>.\<close>

fun addrs :: "nat \<Rightarrow> resp list \<Rightarrow> nat list" where
  "addrs a [] = []"
| "addrs a (t # ts) = a # addrs (a + rsize t) ts"

definition arr_obj :: "nat \<Rightarrow> nat option list option \<Rightarrow> redisReply" where
  "arr_obj n el = \<lparr>rr_type = REDIS_REPLY_ARRAY, rr_integer = 0, rr_len = 0, rr_str = None,
                  rr_elements = int n, rr_element = el\<rparr>"

definition text_obj :: "int \<Rightarrow> bytes \<Rightarrow> redisReply" where
  "text_obj ty s = \<lparr>rr_type = ty, rr_integer = 0, rr_len = int (length s), rr_str = Some (s @ [NUL]),
                   rr_elements = 0, rr_element = None\<rparr>"

definition new_obj :: "int \<Rightarrow> redisReply" where
  "new_obj ty = \<lparr>rr_type = ty, rr_integer = 0, rr_len = 0, rr_str = None, rr_elements = 0,
                rr_element = None\<rparr>"

text \<open>The objects of a reply whose root is at address \<open>a\<close>, in the order of their addresses.\<close>

fun layout :: "nat \<Rightarrow> resp \<Rightarrow> redisReply list"
and layouts :: "nat \<Rightarrow> resp list \<Rightarrow> redisReply list" where
  "layout a (RString s) = [text_obj REDIS_REPLY_STRING s]"
| "layout a (RStatus s) = [text_obj REDIS_REPLY_STATUS s]"
| "layout a (RError s) = [text_obj REDIS_REPLY_ERROR s]"
| "layout a (RInteger i) = [(new_obj REDIS_REPLY_INTEGER)\<lparr>rr_integer := i\<rparr>]"
| "layout a RNil = [new_obj REDIS_REPLY_NIL]"
| "layout a (RArray ts) =
     arr_obj (length ts) (if ts = [] then None else Some (map Some (addrs (Suc a) ts))) #
     layouts (Suc a) ts"
| "layouts a [] = []"
| "layouts a (t # ts) = layout a t @ layouts (a + rsize t) ts"

lemma rsize_pos [simp]: "0 < rsize t"
  by (cases t) auto

lemma length_layout [simp]:
  "length (layout a t) = rsize t" "length (layouts a ts) = fsize ts"
  by (induction a t and a ts rule: layout_layouts.induct) auto

lemma length_addrs [simp]: "length (addrs a ts) = length ts"
  by (induction ts arbitrary: a) auto

lemma addrs_append: "addrs a (ts @ us) = addrs a ts @ addrs (a + fsize ts) us"
  by (induction ts arbitrary: a) (auto simp: add.assoc)

lemma layouts_append: "layouts a (ts @ us) = layouts a ts @ layouts (a + fsize ts) us"
  by (induction ts arbitrary: a) (auto simp: add.assoc)

text \<open>A store that extends \<open>h0\<close> by the objects \<open>os\<close>, at consecutive addresses.\<close>

definition store_of :: "rstore \<Rightarrow> redisReply list \<Rightarrow> rstore" where
  "store_of h0 os =
     \<lparr>rs_map = (\<lambda>a. if rs_next h0 \<le> a \<and> a < rs_next h0 + length os
                   then Some (os ! (a - rs_next h0)) else rs_map h0 a),
      rs_next = rs_next h0 + length os\<rparr>"

lemma store_of_Nil [simp]: "store_of h0 [] = h0"
  by (auto intro!: rstore.equality simp: store_of_def fun_eq_iff)

lemma store_of_next [simp]: "rs_next (store_of h0 os) = rs_next h0 + length os"
  by (simp add: store_of_def)

lemma store_of_store_of: "store_of (store_of h0 os) os' = store_of h0 (os @ os')"
  by (auto simp: store_of_def nth_append fun_eq_iff)

lemma rs_load_store_of:
  "i < length os \<Longrightarrow> rs_load (store_of h0 os) (rs_next h0 + i) = Ok (os ! i)"
  by (simp add: rs_load_def store_of_def)

lemma rs_put_store_of:
  "i < length os \<Longrightarrow> rs_put (store_of h0 os) (rs_next h0 + i) o' = store_of h0 (os[i := o'])"
  by (auto simp: rs_put_def store_of_def fun_eq_iff nth_list_update)

lemma create_store_of:
  "createReplyObject env (store_of h0 os) ty =
   (if alloc_ok env 48 then (Some (rs_next h0 + length os), store_of h0 (os @ [new_obj ty]))
    else (None, store_of h0 os))"
  by (auto simp: createReplyObject_def store_of_def rs_put_def new_obj_def fun_eq_iff nth_append
      less_Suc_eq)

section \<open>Open arrays in the store\<close>

fun used :: "frames \<Rightarrow> nat" where
  "used [] = 0"
| "used ((n, ds) # fs) = used fs + Suc (fsize ds)"

definition open_obj :: "nat \<Rightarrow> nat \<Rightarrow> resp list \<Rightarrow> nat option \<Rightarrow> redisReply" where
  "open_obj n a ds l =
     arr_obj n (Some (map Some (addrs (Suc a) ds) @
       (case l of None \<Rightarrow> replicate (n - length ds) None
        | Some x \<Rightarrow> Some x # replicate (n - Suc (length ds)) None)))"

text \<open>
  The objects of a stack of open arrays, outermost first. \<open>l\<close> is the object linked behind the
  innermost array's complete elements, if there is one already.
\<close>

fun seg :: "nat \<Rightarrow> frames \<Rightarrow> nat option \<Rightarrow> redisReply list" where
  "seg b [] l = []"
| "seg b ((n, ds) # fs) l =
     seg b fs (Some (b + used fs)) @ open_obj n (b + used fs) ds l # layouts (Suc (b + used fs)) ds"

lemma length_seg [simp]: "length (seg b fs l) = used fs"
  by (induction fs arbitrary: l) auto

lemma seg_nth: "seg b ((n, ds) # fs) l ! used fs = open_obj n (b + used fs) ds l"
  by (simp add: nth_append)

lemma seg_link:
  "(seg b ((n, ds) # fs) l @ os) [used fs := open_obj n (b + used fs) ds l'] =
   seg b ((n, ds) # fs) l' @ os"
  by (simp add: list_update_append)

text \<open>An object complete in its place: the innermost array has one more element, or is complete.\<close>

lemma seg_more:
  assumes "Suc (length ds) < n"
  shows "seg b ((n, ds) # fs) (Some (b + used ((n, ds) # fs))) @ layout (b + used ((n, ds) # fs)) t =
         seg b ((n, ds @ [t]) # fs) None"
  using assms by (simp add: open_obj_def addrs_append layouts_append add.assoc)

lemma seg_full:
  assumes "Suc (length ds) = n"
  shows "seg b ((n, ds) # fs) (Some (b + used ((n, ds) # fs))) @ layout (b + used ((n, ds) # fs)) t =
         seg b fs (Some (b + used fs)) @ layout (b + used fs) (RArray (ds @ [t]))"
  using assms by (auto simp: open_obj_def addrs_append layouts_append add.assoc)

section \<open>Releasing replies\<close>

definition at :: "rstore \<Rightarrow> nat \<Rightarrow> redisReply list \<Rightarrow> bool" where
  "at h a os \<longleftrightarrow> (\<forall>i<length os. rs_map h (a + i) = Some (os ! i))"

definition clear_range :: "rstore \<Rightarrow> nat \<Rightarrow> nat \<Rightarrow> rstore" where
  "clear_range h a n = h\<lparr>rs_map := (\<lambda>x. if a \<le> x \<and> x < a + n then None else rs_map h x)\<rparr>"

lemma at_append: "at h a (os @ os') \<longleftrightarrow> at h a os \<and> at h (a + length os) os'"
proof
  assume L: "at h a (os @ os')"
  have "rs_map h (a + length os + i) = Some (os' ! i)" if "i < length os'" for i
    using L that unfolding at_def
    by (metis add.assoc add_less_cancel_left length_append nth_append_length_plus)
  moreover have "rs_map h (a + i) = Some (os ! i)" if "i < length os" for i
    using L that unfolding at_def by (metis length_append nth_append trans_less_add1)
  ultimately show "at h a os \<and> at h (a + length os) os'" by (simp add: at_def)
next
  assume R: "at h a os \<and> at h (a + length os) os'"
  show "at h a (os @ os')"
    unfolding at_def
  proof (intro allI impI)
    fix i assume i: "i < length (os @ os')"
    show "rs_map h (a + i) = Some ((os @ os') ! i)"
    proof (cases "i < length os")
      case False
      then obtain j where "i = length os + j" using le_Suc_ex by (metis not_less)
      with R i show ?thesis by (simp add: at_def add.assoc)
    qed (use R in \<open>simp add: at_def nth_append\<close>)
  qed
qed

lemma at_Cons: "at h a (x # os) \<longleftrightarrow> rs_map h a = Some x \<and> at h (Suc a) os"
  using at_append [of h a "[x]" os] by (simp add: at_def)

lemma at_Nil [simp]: "at h a []"
  by (simp add: at_def)

lemma at_clear:
  "at h a os \<Longrightarrow> a + length os \<le> b \<or> b + n \<le> a \<Longrightarrow> at (clear_range h b n) a os"
  by (auto simp: at_def clear_range_def)

lemma at_store_of: "at (store_of h0 os) (rs_next h0) os"
  by (simp add: at_def store_of_def)

lemma clear_range_0 [simp]: "clear_range h a 0 = h"
  by (auto intro!: rstore.equality simp: clear_range_def fun_eq_iff)

lemma clear_range_join: "clear_range (clear_range h a m) (a + m) n = clear_range h a (m + n)"
  by (auto simp: clear_range_def fun_eq_iff)

lemma rs_free_clear: "rs_free (clear_range h (Suc a) n) a = clear_range h a (Suc n)"
  by (auto simp: clear_range_def rs_free_def fun_eq_iff)

lemma clear_store_of:
  "(\<forall>a\<ge>rs_next h0. rs_map h0 a = None) \<Longrightarrow>
   rs_map (clear_range (store_of h0 os) (rs_next h0) (length os)) = rs_map h0"
  by (auto simp: clear_range_def store_of_def fun_eq_iff)

lemma free_layout:
  "at h a (layout a t) \<Longrightarrow> rsize t \<le> n \<Longrightarrow> free_reply n a h = Ok (clear_range h a (rsize t))"
  "at h a (layouts a ts) \<Longrightarrow> fsize ts \<le> n \<Longrightarrow>
   free_elements (free_reply n) (map Some (addrs a ts)) h = Ok (clear_range h a (fsize ts))"
proof (induction a t and a ts arbitrary: h n and h n rule: layout_layouts.induct)
  case (6 a ts)
  then obtain k where n: "n = Suc k" by (cases n) auto
  have obj: "rs_map h a = Some (arr_obj (length ts) (if ts = [] then None else Some (map Some (addrs (Suc a) ts))))"
    and sub: "at h (Suc a) (layouts (Suc a) ts)"
    using 6 by (simp_all add: at_Cons)
  have "free_elements (free_reply k) (map Some (addrs (Suc a) ts)) h = Ok (clear_range h (Suc a) (fsize ts))"
    using 6 n sub by simp
  with obj show ?case
    by (simp add: n rs_load_def arr_obj_def rs_free_clear [symmetric])
next
  case (8 a t ts)
  have "at h a (layout a t)" "at h (a + rsize t) (layouts (a + rsize t) ts)"
    using 8 by (simp_all add: at_append)
  with 8 show ?case
    by (simp add: clear_range_join at_clear)
qed (case_tac [!] n; simp add: at_Cons rs_load_def text_obj_def new_obj_def reply_types rs_free_clear [symmetric])+

text \<open>
  Releasing the outermost open array releases every complete element and every inner open
  array; \<open>os\<close> are the objects reachable through the innermost link.
\<close>

definition frames_ok :: "frames \<Rightarrow> bool" where
  "frames_ok fs \<longleftrightarrow> (\<forall>(n, ds)\<in>set fs. length ds < n \<and> n < 2 ^ 31)"

lemma frames_ok_simps [simp]:
  "frames_ok []"
  "frames_ok ((n, ds) # fs) \<longleftrightarrow> length ds < n \<and> n < 2 ^ 31 \<and> frames_ok fs"
  by (auto simp: frames_ok_def)

definition frees :: "nat \<Rightarrow> nat \<Rightarrow> redisReply list \<Rightarrow> bool" where
  "frees k a os \<longleftrightarrow>
     (\<forall>n h. k \<le> n \<longrightarrow> at h a os \<longrightarrow> free_reply n a h = Ok (clear_range h a (length os)))"

lemma frees_layout: "frees (rsize t) a (layout a t)"
  using free_layout(1) by (auto simp: frees_def)

lemma free_elements_append:
  "free_elements f (ps @ qs) h = cbind (free_elements f ps h) (free_elements f qs)"
proof (induction ps arbitrary: h)
  case (Cons p ps)
  then have "free_elements f (ps @ qs) = (\<lambda>h. cbind (free_elements f ps h) (free_elements f qs))"
    by (simp add: fun_eq_iff)
  then show ?case by (cases p) (simp_all add: cbind_assoc)
qed simp

lemma free_elements_None: "free_elements f (replicate n None) h = Ok h"
  by (induction n) auto

definition link_objs :: "nat option \<Rightarrow> nat \<Rightarrow> redisReply list \<Rightarrow> nat \<Rightarrow> bool" where
  "link_objs l a os k \<longleftrightarrow>
     (case l of None \<Rightarrow> os = [] | Some x \<Rightarrow> x = a \<and> frees k a os)"

lemma frees_open:
  assumes "length ds < n" and l: "link_objs l (Suc a + fsize ds) os k"
  shows "frees (Suc (k + fsize ds)) a (open_obj n a ds l # layouts (Suc a) ds @ os)"
  unfolding frees_def
proof (intro allI impI)
  fix m h
  assume m: "Suc (k + fsize ds) \<le> m" and h: "at h a (open_obj n a ds l # layouts (Suc a) ds @ os)"
  then obtain j where j: "m = Suc j" by (cases m) auto
  have obj: "rs_map h a = Some (open_obj n a ds l)" and el: "at h (Suc a) (layouts (Suc a) ds)"
    and os: "at h (Suc a + fsize ds) os"
    using h by (auto simp: at_Cons at_append)
  define h1 where "h1 = clear_range h (Suc a) (fsize ds)"
  have done_el: "free_elements (free_reply j) (map Some (addrs (Suc a) ds)) h = Ok h1"
    unfolding h1_def using el m j by (intro free_layout(2)) auto
  have os1: "at h1 (Suc a + fsize ds) os"
    unfolding h1_def using os by (intro at_clear) auto
  have fin: "clear_range h1 (Suc a + fsize ds) (length os) = clear_range h (Suc a) (fsize ds + length os)"
    unfolding h1_def by (rule clear_range_join)
  show "free_reply m a h = Ok (clear_range h a (length (open_obj n a ds l # layouts (Suc a) ds @ os)))"
  proof (cases l)
    case None
    then have "os = []" using l by (simp add: link_objs_def)
    with None obj done_el fin assms(1) show ?thesis
      by (simp add: j rs_load_def open_obj_def arr_obj_def free_elements_append free_elements_None
          rs_free_clear [symmetric])
  next
    case (Some x)
    then have x: "x = Suc a + fsize ds" and "frees k x os" using l by (auto simp: link_objs_def)
    then have "free_reply j x h1 = Ok (clear_range h1 x (length os))"
      using os1 m j unfolding frees_def by auto
    with Some x obj done_el fin assms(1) show ?thesis
      by (simp add: j rs_load_def open_obj_def arr_obj_def free_elements_append free_elements_None
          rs_free_clear [symmetric])
  qed
qed

lemma frees_seg:
  assumes "frames_ok fs" and "fs \<noteq> []" and "link_objs l (b + used fs) os k"
  shows "frees (k + used fs) b (seg b fs l @ os)"
  using assms
proof (induction fs arbitrary: l os k)
  case (Cons f fs)
  obtain n ds where f: "f = (n, ds)" by (cases f)
  let ?a = "b + used fs"
  let ?os = "open_obj n ?a ds l # layouts (Suc ?a) ds @ os"
  have top: "frees (Suc (k + fsize ds)) ?a ?os"
    using Cons.prems by (intro frees_open) (auto simp: f add.assoc)
  show ?case
  proof (cases "fs = []")
    case True
    with top show ?thesis by (simp add: f)
  next
    case False
    have "frees (Suc (k + fsize ds) + used fs) b (seg b fs (Some ?a) @ ?os)"
      using Cons.prems False top by (intro Cons.IH) (auto simp: f link_objs_def)
    then show ?thesis by (simp add: f ac_simps)
  qed
qed simp

lemma free_open:
  assumes "frames_ok fs" "fs \<noteq> []" and h: "\<forall>a\<ge>rs_next h0. rs_map h0 a = None"
    and m: "rs_map h = rs_map (store_of h0 (seg (rs_next h0) fs None))" "rs_next h0 + used fs \<le> rs_next h"
  shows "\<exists>h'. freeReplyObject h (rs_next h0) = Ok h' \<and> rs_map h' = rs_map h0 \<and> rs_next h' = rs_next h"
proof -
  let ?b = "rs_next h0" and ?s = "seg (rs_next h0) fs None"
  have "frees (0 + used fs) ?b (?s @ [])"
    using assms(1,2) by (intro frees_seg) (simp_all add: link_objs_def)
  moreover have "at h ?b ?s"
    using at_store_of [of h0 ?s] m by (simp add: at_def)
  ultimately have "freeReplyObject h ?b = Ok (clear_range h ?b (used fs))"
    using m(2) by (simp add: freeReplyObject_def frees_def del: free_reply.simps)
  moreover have "rs_map (clear_range h ?b (used fs)) = rs_map h0"
    using clear_store_of [OF h, of ?s] m(1) by (simp add: clear_range_def cong: if_cong)
  ultimately show ?thesis by (simp add: clear_range_def)
qed

lemma free_done:
  assumes h: "\<forall>a\<ge>rs_next h0. rs_map h0 a = None"
  shows "\<exists>h'. freeReplyObject (store_of h0 (layout (rs_next h0) t)) (rs_next h0) = Ok h' \<and>
              rs_map h' = rs_map h0"
proof -
  let ?b = "rs_next h0" and ?h = "store_of h0 (layout (rs_next h0) t)"
  have "at ?h ?b (layout ?b t)" by (rule at_store_of)
  then have "freeReplyObject ?h ?b = Ok (clear_range ?h ?b (rsize t))"
    unfolding freeReplyObject_def by (intro free_layout(1)) auto
  with clear_store_of [OF h, of "layout ?b t"] show ?thesis by simp
qed

end
