(* ===== verification/Resp_Refine.thy ===== *)
theory Resp_Refine
  imports Resp_Store
begin

text \<open>
  The refinement: the reader of \<open>Resp_Reader\<close>, with its buffer, task stack and store of reply
  objects, implements the abstract parser of \<open>Resp_Protocol\<close> for every input. \<open>reader_at\<close>
  is the abstraction relation and invariant; each function of the code is shown to respect
  it, first the buffer, then the stack, then creation, errors and the item functions.
\<close>

section \<open>Finding the end of a line\<close>

lemma seek_cr_skip:
  "pos < n \<Longrightarrow> mem_get s pos = Ok c \<Longrightarrow> c \<noteq> CR \<Longrightarrow> seek_cr s pos n = seek_cr s (pos + 1) n"
  by (subst seek_cr.simps) simp

lemma seek_cr_stop: "mem_get s pos = Ok CR \<Longrightarrow> seek_cr s pos n = Ok pos"
  by (subst seek_cr.simps) simp

lemma seek_cr_end: "n \<le> pos \<Longrightarrow> seek_cr s pos n = Ok pos"
  by (subst seek_cr.simps) simp

lemma seek_loop_end: "n \<le> pos \<Longrightarrow> seek_loop s pos n = Ok None"
  by (subst seek_loop.simps) simp

lemma seek_loop_CR:
  "pos < n \<Longrightarrow> mem_get s pos = Ok CR \<Longrightarrow> mem_get s (pos + 1) = Ok d \<Longrightarrow>
   seek_loop s pos n = (if d = LF then Ok (Some pos) else seek_loop s (pos + 1) n)"
  by (subst seek_loop.simps) (simp add: seek_cr_stop)

lemma seek_loop_skip:
  assumes "pos < n" and "mem_get s pos = Ok c" and "c \<noteq> CR"
    and "mem_get s n = Ok e" and "mem_get s (n + 1) = Ok f" and "f \<noteq> LF"
  shows "seek_loop s pos n = seek_loop s (pos + 1) n"
proof (cases "pos + 1 < n")
  case True
  with assms show ?thesis
    by (subst (1 2) seek_loop.simps) (simp add: seek_cr_skip)
next
  case False
  then have n: "n = pos + 1" using assms(1) by simp
  then have "seek_cr s pos n = Ok n" using assms by (simp add: seek_cr_skip seek_cr_end)
  then show ?thesis
    using assms n by (subst seek_loop.simps) (simp add: seek_loop_end)
qed

lemma seek_loop_find:
  assumes "u = pre @ w"
  shows "seek_loop (u @ NUL # rest) (int (length pre)) (int (length u) - 1) =
         Ok (map_option (\<lambda>k. int (length pre + k)) (find_crlf w))"
  using assms
proof (induction w arbitrary: pre rule: find_crlf.induct)
  case (3 c d w)
  let ?s = "u @ NUL # rest" and ?p = "int (length pre)" and ?n = "int (length u) - 1"
  have lt: "?p < ?n" using 3 by simp
  have c: "mem_get ?s ?p = Ok c" and d: "mem_get ?s (?p + 1) = Ok d"
    using 3 by (simp_all add: mem_get_def nth_append nat_add_distrib)
  have IH: "seek_loop ?s (?p + 1) ?n = Ok (map_option (\<lambda>k. int (length (pre @ [c]) + k)) (find_crlf (d # w)))"
    if "\<not> (c = CR \<and> d = LF)"
    using "3.IH" [OF that, of "pre @ [c]"] "3.prems" by (simp add: add.commute)
  have last: "mem_get ?s ?n = Ok (u ! (length u - 1))" "mem_get ?s (?n + 1) = Ok NUL"
  proof -
    have n: "?n = int (length u - 1)" "?n + 1 = int (length u)" and len: "0 < length u"
      using 3 by simp_all
    show "mem_get ?s ?n = Ok (u ! (length u - 1))"
      unfolding n(1) using len by (subst mem_get_ok) (simp_all add: nth_append)
    show "mem_get ?s (?n + 1) = Ok NUL"
      unfolding n(2) by (subst mem_get_ok) (simp_all add: nth_append)
  qed
  show ?case
  proof (cases "c = CR")
    case True
    then show ?thesis
      using seek_loop_CR [OF lt] c d IH by (auto simp: option.map_comp o_def ac_simps)
  next
    case False
    then show ?thesis
      using seek_loop_skip [OF lt c False last] IH by (auto simp: option.map_comp o_def ac_simps)
  qed
qed (simp_all add: seek_loop_end)

lemma seekNewline_find:
  assumes "length u < 2 ^ 31"
  shows "seekNewline (u @ NUL # rest) (int (length u)) = Ok (map_option int (find_crlf u))"
proof -
  have "c_int (c_size (int (length u) - 1)) = int (length u) - 1"
    using assms by (simp add: c_int_c_size c_int_id)
  then show ?thesis
    using seek_loop_find [of u "[]" u rest] by (simp add: seekNewline_def)
qed

section \<open>The unread input of a reader\<close>

text \<open>
  \<open>u\<close> is what the reader has received and not consumed. Its buffer holds consumed bytes before
  it, and the terminator the search for a line end runs into behind it.
\<close>

definition buffer_at :: "bytes \<Rightarrow> redisReader \<Rightarrow> bool" where
  "buffer_at u r \<longleftrightarrow>
     (\<exists>sh pre. r_buf r = Some sh \<and> sds_rep sh (pre @ u) \<and> r_pos r = int (length pre) \<and>
        r_len r = int (length pre + length u) \<and> length pre + length u < 2 ^ 30)"

lemma buffer_atE:
  assumes "buffer_at u r"
  obtains sh pre rest where "r_buf r = Some sh" and "sh = sds_of (pre @ u) rest"
    and "length pre + length u + length rest < 2 ^ 31" and "r_pos r = int (length pre)"
    and "r_len r = int (length pre + length u)" and "length pre + length u < 2 ^ 30"
  using assms by (fastforce simp: buffer_at_def elim!: sds_repE)

lemma buffer_at_cong:
  "r_buf r' = r_buf r \<Longrightarrow> r_pos r' = r_pos r \<Longrightarrow> r_len r' = r_len r \<Longrightarrow>
   buffer_at u r' = buffer_at u r"
  by (simp add: buffer_at_def)

lemma buffer_rd_ptr:
  assumes "buffer_at u r"
  obtains rest where "rd_ptr r = Ok (u @ NUL # rest)"
proof -
  from assms obtain sh pre rest where "r_buf r = Some sh" "sh = sds_of (pre @ u) rest"
    "r_pos r = int (length pre)" by (elim buffer_atE)
  then have "rd_ptr r = Ok (u @ NUL # rest)" by (simp add: rd_ptr_def)
  with that show thesis by blast
qed

lemma buffer_avail:
  assumes "buffer_at u r"
  shows "c_size (r_len r - r_pos r) = int (length u)" "length u < 2 ^ 30"
  using assms by (auto elim!: buffer_atE simp: c_size_id)

lemma buffer_consume:
  assumes "buffer_at u r" and "k \<le> length u"
  shows "c_size (r_pos r + int k) = r_pos r + int k"
    and "buffer_at (drop k u) (r\<lparr>r_pos := r_pos r + int k\<rparr>)"
proof -
  from assms(1) obtain sh pre rest where sh: "r_buf r = Some sh" "sh = sds_of (pre @ u) rest"
    and cap: "length pre + length u + length rest < 2 ^ 31" and pos: "r_pos r = int (length pre)"
    and len: "r_len r = int (length pre + length u)" and lim: "length pre + length u < 2 ^ 30"
    by (elim buffer_atE)
  show "c_size (r_pos r + int k) = r_pos r + int k"
    using pos lim assms(2) by (simp add: c_size_id)
  have "sds_rep sh ((pre @ take k u) @ drop k u)"
    using sh cap by (auto intro: sds_repI)
  then show "buffer_at (drop k u) (r\<lparr>r_pos := r_pos r + int k\<rparr>)"
    unfolding buffer_at_def using sh(1) pos len lim assms(2)
    by (intro exI [of _ sh] exI [of _ "pre @ take k u"]) simp
qed

lemma buffer_seek:
  assumes "buffer_at u r" and "rd_ptr r = Ok (u @ NUL # rest)"
  shows "seekNewline (u @ NUL # rest) (c_size (r_len r - r_pos r)) = Ok (map_option int (find_crlf u))"
  using buffer_avail [OF assms(1)] seekNewline_find [of u rest] by simp

text \<open>\<open>readLine\<close> and \<open>readBytes\<close> on the unread input.\<close>

lemma readLine_none:
  assumes "buffer_at u r" and "find_crlf u = None"
  shows "readLine r = Ok (None, r)"
proof -
  obtain rest where p: "rd_ptr r = Ok (u @ NUL # rest)"
    using assms(1) by (rule buffer_rd_ptr)
  then show ?thesis
    using buffer_seek [OF assms(1) p] assms(2) by (simp add: readLine_def)
qed

lemma readLine_some:
  assumes "buffer_at u r" and "find_crlf u = Some k" and p: "rd_ptr r = Ok (u @ NUL # rest)"
  shows "readLine r = Ok (Some (u @ NUL # rest, int k), r\<lparr>r_pos := r_pos r + int (k + 2)\<rparr>)"
proof -
  have k: "k + 2 \<le> length u" using find_crlf_bound [OF assms(2)] by simp
  then have "int k < 2 ^ 30" using buffer_avail(2) [OF assms(1)] by simp
  then show ?thesis
    using assms buffer_seek [OF assms(1) p] buffer_consume(1) [OF assms(1) k]
    by (simp add: readLine_def Let_def c_int_id s_int_ok ac_simps)
qed

lemma readBytes_one:
  assumes "buffer_at u r"
  shows "u = [] \<Longrightarrow> readBytes r 1 = Ok (None, r)"
    and "u = c # u' \<Longrightarrow> rd_ptr r = Ok (u @ NUL # rest) \<Longrightarrow>
         readBytes r 1 = Ok (Some (u @ NUL # rest), r\<lparr>r_pos := r_pos r + 1\<rparr>)"
  using assms buffer_consume(1) [OF assms, of 1] by (auto simp: readBytes_def buffer_avail(1))

text \<open>The number on the first line.\<close>

lemma readLongLong_unread:
  assumes "find_crlf u = Some k"
  shows "readLongLong (u @ s) =
         (case line_number (take k u) of Some v \<Rightarrow> Ok v | None \<Rightarrow> Flt SignedOverflow)"
  using readLongLong_line [of "take k u" "LF # drop (k + 2) u @ s"] find_crlf_split [OF assms]
  by (metis append.assoc append_Cons append_Nil crlf_def)


section \<open>The task stack\<close>

definition cur_idx :: "frames \<Rightarrow> int" where
  "cur_idx fs = (case fs of [] \<Rightarrow> - 1 | (n, ds) # _ \<Rightarrow> int (length ds))"

definition parent_of :: "frames \<Rightarrow> nat option" where
  "parent_of fs = (case fs of [] \<Rightarrow> None | _ # fs' \<Rightarrow> Some (length fs'))"

lemma cur_idx_simps [simp]: "cur_idx [] = - 1" "cur_idx ((n, ds) # fs) = int (length ds)"
  by (simp_all add: cur_idx_def)

lemma parent_of_simps [simp]: "parent_of [] = None" "parent_of (f # fs) = Some (length fs)"
  by (simp_all add: parent_of_def)

text \<open>The tasks of the open arrays; \<open>b\<close> is the address of the outermost.\<close>

fun tasks_at :: "nat \<Rightarrow> redisReadTask list \<Rightarrow> frames \<Rightarrow> bool" where
  "tasks_at b st [] = True"
| "tasks_at b st ((n, ds) # fs) =
     (st ! length fs = \<lparr>t_type = REDIS_REPLY_ARRAY, t_elements = int n, t_idx = cur_idx fs,
                       t_obj = Some (b + used fs), t_parent = parent_of fs\<rparr> \<and>
      tasks_at b st fs)"

lemma tasks_at_update: "length fs \<le> i \<Longrightarrow> tasks_at b (st[i := t]) fs = tasks_at b st fs"
  by (induction b st fs rule: tasks_at.induct) auto

definition stack_at :: "nat \<Rightarrow> frames \<Rightarrow> int \<Rightarrow> redisReader \<Rightarrow> bool" where
  "stack_at b fs ty r \<longleftrightarrow>
     length (r_rstack r) = 9 \<and> length fs \<le> 8 \<and> frames_ok fs \<and> r_ridx r = int (length fs) \<and>
     tasks_at b (r_rstack r) fs \<and>
     t_type (r_rstack r ! length fs) = ty \<and> t_idx (r_rstack r ! length fs) = cur_idx fs \<and>
     t_parent (r_rstack r ! length fs) = parent_of fs"

lemma stack_at_cong:
  "r_rstack r' = r_rstack r \<Longrightarrow> r_ridx r' = r_ridx r \<Longrightarrow> stack_at b fs ty r' = stack_at b fs ty r"
  by (simp add: stack_at_def)

lemma stack_cur:
  "stack_at b fs ty r \<Longrightarrow> task_at r (r_ridx r) = Ok (r_rstack r ! length fs)"
  by (simp add: stack_at_def task_at_def)

section \<open>The relation\<close>

definition root_of :: "rstore \<Rightarrow> frames \<Rightarrow> nat option" where
  "root_of h0 fs = (if fs = [] then None else Some (rs_next h0))"

definition reader_core :: "rstore \<Rightarrow> frames \<Rightarrow> int \<Rightarrow> bytes \<Rightarrow> nat option \<Rightarrow> redisReader \<Rightarrow> bool" where
  "reader_core h0 fs ty u rp r \<longleftrightarrow>
     r_err r = 0 \<and> buffer_at u r \<and> stack_at (rs_next h0) fs ty r \<and> r_reply r = rp \<and>
     r_store r = store_of h0 (seg (rs_next h0) fs None)"

definition type_ok :: "frames \<Rightarrow> int \<Rightarrow> bool" where
  "type_ok fs ty \<longleftrightarrow>
     ty = - 1 \<or> ty \<in> {REDIS_REPLY_ERROR, REDIS_REPLY_STATUS, REDIS_REPLY_INTEGER, REDIS_REPLY_STRING} \<or>
     ty = REDIS_REPLY_ARRAY \<and> length fs < 8"

definition reader_at :: "rstore \<Rightarrow> frames \<Rightarrow> int \<Rightarrow> bytes \<Rightarrow> redisReader \<Rightarrow> bool" where
  "reader_at h0 fs ty u r \<longleftrightarrow> reader_core h0 fs ty u (root_of h0 fs) r \<and> type_ok fs ty"

text \<open>A reply is complete in the reader and not yet handed out.\<close>

definition reader_done :: "rstore \<Rightarrow> resp \<Rightarrow> bytes \<Rightarrow> nat option \<Rightarrow> redisReader \<Rightarrow> bool" where
  "reader_done h0 t u rp r \<longleftrightarrow>
     r_err r = 0 \<and> buffer_at u r \<and> length (r_rstack r) = 9 \<and> r_ridx r = - 1 \<and> r_reply r = rp \<and>
     r_store r = store_of h0 (layout (rs_next h0) t)"

text \<open>The object of \<open>t\<close> is created and linked, and the task stack not yet advanced.\<close>

definition placed :: "rstore \<Rightarrow> resp \<Rightarrow> frames \<Rightarrow> bytes \<Rightarrow> nat option \<Rightarrow> redisReader \<Rightarrow> bool" where
  "placed h0 t fs u rp r \<longleftrightarrow>
     r_err r = 0 \<and> buffer_at u r \<and> (\<exists>ty. stack_at (rs_next h0) fs ty r) \<and> r_reply r = rp \<and>
     r_store r = store_of h0 (seg (rs_next h0) fs (Some (rs_next h0 + used fs)) @
                              layout (rs_next h0 + used fs) t)"

definition moved :: "rstore \<Rightarrow> nat option \<Rightarrow> outcome \<Rightarrow> redisReader \<Rightarrow> bool" where
  "moved h0 rp out r \<longleftrightarrow>
     (case out of Next fs u \<Rightarrow> fs \<noteq> [] \<and> reader_core h0 fs (- 1) u rp r
      | Done t u \<Rightarrow> reader_done h0 t u rp r | _ \<Rightarrow> False)"

lemma moveToNextTask_refines:
  "placed h0 t fs u rp r \<Longrightarrow> runs (moveToNextTask r) (moved h0 rp (finish t fs u))"
proof (induction t fs u arbitrary: r rule: finish.induct)
  case (1 t u)
  then have "moveToNextTask r = Ok (r\<lparr>r_ridx := - 1\<rparr>)"
    by (subst moveToNextTask.simps) (auto simp: placed_def stack_at_def)
  with 1 show ?case
    by (auto simp: placed_def moved_def reader_done_def stack_at_def buffer_at_def)
next
  case (2 t n ds fs u)
  let ?b = "rs_next h0" and ?st = "r_rstack r"
  have st: "stack_at ?b ((n, ds) # fs) (t_type (?st ! Suc (length fs))) r"
    and ok: "r_err r = 0" "buffer_at u r" "r_reply r = rp"
    and store: "r_store r = store_of h0 (seg ?b ((n, ds) # fs) (Some (?b + used ((n, ds) # fs))) @
                              layout (?b + used ((n, ds) # fs)) t)"
    using "2.prems" by (auto simp: placed_def stack_at_def)
  have n: "length ds < n" "n < 2 ^ 31" using st by (auto simp: stack_at_def)
  have last: "s_int (int n - 1) = Ok (int n - 1)" "s_int (int (length ds) + 1) = Ok (int (length ds) + 1)"
    using n by (simp_all add: s_int_ok)
  have prv: "?st ! length fs = \<lparr>t_type = REDIS_REPLY_ARRAY, t_elements = int n, t_idx = cur_idx fs,
                       t_obj = Some (?b + used fs), t_parent = parent_of fs\<rparr>"
    using st by (simp add: stack_at_def)
  let ?cur = "?st ! Suc (length fs)"
  have move: "moveToNextTask r =
      (if int (length ds) = int n - 1 then moveToNextTask (r\<lparr>r_ridx := int (length fs)\<rparr>)
       else Ok (r\<lparr>r_rstack := ?st[Suc (length fs) := ?cur\<lparr>t_type := - 1, t_elements := - 1,
                                    t_idx := int (length ds) + 1\<rparr>]\<rparr>))"
    using st prv n last
    by (subst moveToNextTask.simps) (simp add: stack_at_def task_at_def set_task_def nat_add_distrib)
  show ?case
  proof (cases "Suc (length ds) = n")
    case True
    have full: "r_store r = store_of h0 (seg ?b fs (Some (?b + used fs)) @
                                          layout (?b + used fs) (RArray (ds @ [t])))"
      unfolding store by (simp only: seg_full [OF True])
    have "placed h0 (RArray (ds @ [t])) fs u rp (r\<lparr>r_ridx := int (length fs)\<rparr>)"
      using st ok full prv True
      by (simp add: placed_def stack_at_def cong: buffer_at_cong)
    then show ?thesis
      using "2.IH" True move by auto
  next
    case False
    let ?r = "r\<lparr>r_rstack := ?st[Suc (length fs) := ?cur\<lparr>t_type := - 1, t_elements := - 1,
                                    t_idx := int (length ds) + 1\<rparr>]\<rparr>"
    have lt: "Suc (length ds) < n" using False n by simp
    have more: "r_store r = store_of h0 (seg ?b ((n, ds @ [t]) # fs) None)"
      unfolding store by (simp only: seg_more [OF lt])
    have "buffer_at u ?r" using ok(2) by (simp add: buffer_at_def)
    moreover have "stack_at ?b ((n, ds @ [t]) # fs) (- 1) ?r"
      using st lt by (simp add: stack_at_def tasks_at_update)
    ultimately have "reader_core h0 ((n, ds @ [t]) # fs) (- 1) u rp ?r"
      using ok more by (simp add: reader_core_def del: seg.simps)
    then show ?thesis
      using False n move by (simp add: moved_def)
  qed
qed


section \<open>Creating and linking objects\<close>

lemma link_parent_refines:
  assumes st: "stack_at (rs_next h0) fs ty r"
    and store: "r_store r = store_of h0 (seg (rs_next h0) fs None @ os)"
    and cur: "cur = r_rstack r ! length fs" and a: "a = rs_next h0 + used fs"
  shows "link_parent r cur a = Ok (r\<lparr>r_store := store_of h0 (seg (rs_next h0) fs (Some a) @ os)\<rparr>)"
proof (cases fs)
  case Nil
  then show ?thesis using assms by (simp add: link_parent_def stack_at_def) 
next
  case (Cons f fs')
  obtain n ds where f: "f = (n, ds)" by (cases f)
  let ?b = "rs_next h0" and ?s = "seg (rs_next h0) fs None @ os"
  have n: "length ds < n" using st by (simp add: stack_at_def Cons f)
  have nth: "?s ! used fs' = open_obj n (?b + used fs') ds None"
    by (simp add: Cons f nth_append)
  have load: "rs_load (r_store r) (?b + used fs') = Ok (open_obj n (?b + used fs') ds None)"
    unfolding store by (subst rs_load_store_of) (simp_all add: nth, simp add: Cons f)
  obtain m where m: "n - length ds = Suc m" "n - Suc (length ds) = m" 
    using n by (metis Suc_diff_Suc)
  let ?o = "(open_obj n (?b + used fs') ds None)
    \<lparr>rr_element := Some ((map Some (addrs (Suc (?b + used fs')) ds) @ replicate (n - length ds) None)
                        [length ds := Some a])\<rparr>"
  have upd: "?o = open_obj n (?b + used fs') ds (Some a)"
    by (simp add: open_obj_def arr_obj_def m list_update_append)
  have put: "rs_put (r_store r) (?b + used fs') (open_obj n (?b + used fs') ds (Some a)) =
      store_of h0 (seg ?b fs (Some a) @ os)"
    unfolding store using seg_link [of ?b n ds fs' None os "Some a"]
    by (subst rs_put_store_of) (simp_all add: Cons f del: seg.simps)
  have "t_idx cur = int (length ds)" "t_parent cur = Some (length fs')"
    using st cur by (auto simp: stack_at_def Cons f)
  moreover have "task_at r (int (length fs')) = Ok \<lparr>t_type = REDIS_REPLY_ARRAY, t_elements = int n,
      t_idx = cur_idx fs', t_obj = Some (?b + used fs'), t_parent = parent_of fs'\<rparr>"
    using st by (simp add: stack_at_def task_at_def Cons f)
  ultimately show ?thesis
    using load put upd n by (simp add: link_parent_def) (simp add: open_obj_def arr_obj_def)
qed

text \<open>A creating function links its objects, or gives up without trace but a used-up address.\<close>

definition gave_up :: "redisReader \<Rightarrow> redisReader \<Rightarrow> bool" where
  "gave_up r r' \<longleftrightarrow>
     (\<exists>h. r' = r\<lparr>r_store := h\<rparr> \<and> rs_map h = rs_map (r_store r) \<and> rs_next (r_store r) \<le> rs_next h)"

lemma gave_up_self [simp]: "gave_up r r"
  unfolding gave_up_def by (rule exI [of _ "r_store r"]) simp

lemma gave_up_store:
  "rs_map h = rs_map (r_store r) \<Longrightarrow> rs_next (r_store r) \<le> rs_next h \<Longrightarrow> gave_up r (r\<lparr>r_store := h\<rparr>)"
  by (auto simp: gave_up_def)

definition created :: "cenv \<Rightarrow> rstore \<Rightarrow> frames \<Rightarrow> redisReply list \<Rightarrow> redisReader \<Rightarrow>
    nat option \<times> redisReader \<Rightarrow> bool" where
  "created env h0 fs os r x \<longleftrightarrow>
     (case x of
        (Some a, r') \<Rightarrow> a = rs_next h0 + used fs \<and>
           r' = r\<lparr>r_store := store_of h0 (seg (rs_next h0) fs (Some a) @ os)\<rparr>
      | (None, r') \<Rightarrow> \<not> grants_all env \<and> gave_up r r')"

lemma created_simps [simp]:
  "created env h0 fs os r (Some a, r') \<longleftrightarrow> a = rs_next h0 + used fs \<and>
     r' = r\<lparr>r_store := store_of h0 (seg (rs_next h0) fs (Some a) @ os)\<rparr>"
  "created env h0 fs os r (None, r') \<longleftrightarrow> \<not> grants_all env \<and> gave_up r r'"
  by (simp_all add: created_def)

text \<open>The object in front of which everything is in place.\<close>

lemma new_obj_put:
  "rs_load (store_of h0 (os @ [x])) (rs_next h0 + length os) = Ok x"
  "rs_put (store_of h0 (os @ [x])) (rs_next h0 + length os) y = store_of h0 (os @ [y])"
  using rs_load_store_of [of "length os" "os @ [x]" h0] rs_put_store_of [of "length os" "os @ [x]" h0 y]
  by simp_all

lemma undo_create:
  assumes "\<forall>a\<ge>rs_next h0. rs_map h0 a = None" and "rr_type x \<noteq> REDIS_REPLY_ARRAY \<or> rr_element x = None"
  shows "\<exists>h. freeReplyObject (store_of h0 (os @ [x])) (rs_next h0 + length os) = Ok h \<and>
             rs_map h = rs_map (store_of h0 os) \<and> rs_next (store_of h0 os) \<le> rs_next h"
proof -
  let ?a = "rs_next h0 + length os"
  have "freeReplyObject (store_of h0 (os @ [x])) ?a = Ok (rs_free (store_of h0 (os @ [x])) ?a)"
    using assms(2) new_obj_put(1) [of h0 os x] by (auto simp: freeReplyObject_def)
  moreover have "rs_map (rs_free (store_of h0 (os @ [x])) ?a) = rs_map (store_of h0 os)"
    using assms(1) by (auto simp: rs_free_def store_of_def fun_eq_iff nth_append)
  ultimately show ?thesis by (simp add: rs_free_def)
qed

lemma stack_at_store [simp]: "stack_at b fs ty (r\<lparr>r_store := h\<rparr>) = stack_at b fs ty r"
  by (simp add: stack_at_def)

text \<open>Where a creating function starts: the current task, with everything before it in place.\<close>

definition creating :: "rstore \<Rightarrow> frames \<Rightarrow> int \<Rightarrow> redisReader \<Rightarrow> redisReadTask \<Rightarrow> bool" where
  "creating h0 fs ty r cur \<longleftrightarrow>
     stack_at (rs_next h0) fs ty r \<and> r_store r = store_of h0 (seg (rs_next h0) fs None) \<and>
     cur = r_rstack r ! length fs \<and> (\<forall>a\<ge>rs_next h0. rs_map h0 a = None)"

lemma creating_store: "creating h0 fs ty r cur \<Longrightarrow> r_store r = store_of h0 (seg (rs_next h0) fs None)"
  by (simp add: creating_def)

lemma link_new:
  assumes "creating h0 fs ty r cur"
  shows "link_parent (r\<lparr>r_store := store_of h0 (seg (rs_next h0) fs None @ os)\<rparr>) cur (rs_next h0 + used fs) =
   Ok (r\<lparr>r_store := store_of h0 (seg (rs_next h0) fs (Some (rs_next h0 + used fs)) @ os)\<rparr>)"
  using assms by (subst link_parent_refines [where fs = fs]) (auto simp: creating_def)

lemma createNilObject_refines:
  assumes "creating h0 fs ty r cur"
  shows "runs (createNilObject env r cur) (created env h0 fs (layout a RNil) r)"
  using link_new [OF assms, of "[new_obj REDIS_REPLY_NIL]"]
  by (auto simp: createNilObject_def creating_store [OF assms] create_store_of)

lemma createIntegerObject_refines:
  assumes "creating h0 fs ty r cur"
  shows "runs (createIntegerObject env r cur v) (created env h0 fs (layout a (RInteger v)) r)"
  using link_new [OF assms, of "[(new_obj REDIS_REPLY_INTEGER)\<lparr>rr_integer := v\<rparr>]"]
    new_obj_put [of h0 "seg (rs_next h0) fs None"]
  by (auto simp: createIntegerObject_def creating_store [OF assms] create_store_of)

lemma createStringObject_refines:
  assumes cr: "creating h0 fs ty r cur"
    and ty: "ty \<in> {REDIS_REPLY_ERROR, REDIS_REPLY_STATUS, REDIS_REPLY_STRING}"
    and s: "s = take n str" "n \<le> length str" "n < 2 ^ 30"
  shows "runs (createStringObject env r cur str (int n)) (created env h0 fs [text_obj ty s] r)"
proof -
  have t: "t_type cur = ty" using cr by (simp add: creating_def stack_at_def)
  have fresh: "\<forall>a\<ge>rs_next h0. rs_map h0 a = None" using cr by (simp add: creating_def)
  have neq: "ty \<noteq> REDIS_REPLY_ARRAY" using ty by (auto simp: reply_types)
  have obj: "(new_obj ty)\<lparr>rr_str := Some (s @ [NUL]), rr_len := int n\<rparr> = text_obj ty s"
    using s by (simp add: new_obj_def text_obj_def)
  have undo: "\<exists>h. freeReplyObject (store_of h0 (seg (rs_next h0) fs None @ [new_obj ty]))
        (rs_next h0 + used fs) = Ok h \<and> rs_map h = rs_map (store_of h0 (seg (rs_next h0) fs None)) \<and>
        rs_next (store_of h0 (seg (rs_next h0) fs None)) \<le> rs_next h"
    using undo_create [OF fresh, of "new_obj ty" "seg (rs_next h0) fs None"] neq
    by (simp add: new_obj_def)
  show ?thesis
    using link_new [OF cr, of "[text_obj ty s]"] new_obj_put [of h0 "seg (rs_next h0) fs None"] undo s ty obj
    by (auto simp: createStringObject_def creating_store [OF cr] create_store_of t mem_read_def c_int_id Let_def
        intro!: gave_up_store)
qed

lemma createArrayObject_empty:
  assumes "creating h0 fs ty r cur"
  shows "runs (createArrayObject env r cur 0) (created env h0 fs (layout a (RArray [])) r)"
proof -
  have obj: "(new_obj REDIS_REPLY_ARRAY)\<lparr>rr_element := None, rr_elements := 0\<rparr> = arr_obj 0 None"
    by (simp add: new_obj_def arr_obj_def)
  show ?thesis
    using link_new [OF assms, of "[arr_obj 0 None]"] new_obj_put [of h0 "seg (rs_next h0) fs None"] obj
    by (auto simp: createArrayObject_def creating_store [OF assms] create_store_of c_size_id Let_def)
qed

lemma createArrayObject_refines:
  assumes cr: "creating h0 fs ty r cur" and n: "0 < n" "n < 2 ^ 31"
  shows "runs (createArrayObject env r cur (int n))
           (created env h0 fs [open_obj n (rs_next h0 + used fs) [] None] r)"
proof -
  have fresh: "\<forall>a\<ge>rs_next h0. rs_map h0 a = None" using cr by (simp add: creating_def)
  have obj: "(new_obj REDIS_REPLY_ARRAY)\<lparr>rr_element := Some (replicate n None), rr_elements := int n\<rparr> =
      open_obj n (rs_next h0 + used fs) [] None"
    by (simp add: new_obj_def arr_obj_def open_obj_def)
  have undo: "\<exists>h. freeReplyObject (store_of h0 (seg (rs_next h0) fs None @ [new_obj REDIS_REPLY_ARRAY]))
        (rs_next h0 + used fs) = Ok h \<and> rs_map h = rs_map (store_of h0 (seg (rs_next h0) fs None)) \<and>
        rs_next (store_of h0 (seg (rs_next h0) fs None)) \<le> rs_next h"
    using undo_create [OF fresh, of "new_obj REDIS_REPLY_ARRAY" "seg (rs_next h0) fs None"]
    by (simp add: new_obj_def)
  show ?thesis
    using link_new [OF cr, of "[open_obj n (rs_next h0 + used fs) [] None]"]
      new_obj_put [of h0 "seg (rs_next h0) fs None"] undo n obj
    by (auto simp: createArrayObject_def creating_store [OF cr] create_store_of c_size_id Let_def
        intro!: gave_up_store)
qed


section \<open>Errors release everything\<close>

definition failed :: "rstore \<Rightarrow> int \<Rightarrow> bytes \<Rightarrow> redisReader \<Rightarrow> bool" where
  "failed h0 type msg r \<longleftrightarrow>
     r_err r = type \<and> r_errstr r = take 127 msg \<and> r_buf r = None \<and> r_ridx r = - 1 \<and>
     r_reply r = None \<and> rs_map (r_store r) = rs_map h0"

definition fresh :: "rstore \<Rightarrow> bool" where
  "fresh h \<longleftrightarrow> (\<forall>a\<ge>rs_next h. rs_map h a = None)"

lemma fresh_store_of: "fresh h0 \<Longrightarrow> fresh (store_of h0 os)"
  by (auto simp: fresh_def store_of_def)

text \<open>A reader in trouble: its reply, if it has one, is the outermost open array.\<close>

definition troubled :: "rstore \<Rightarrow> frames \<Rightarrow> redisReader \<Rightarrow> bool" where
  "troubled h0 fs r \<longleftrightarrow>
     fresh h0 \<and> frames_ok fs \<and> r_buf r \<noteq> None \<and> r_reply r = root_of h0 fs \<and>
     rs_map (r_store r) = rs_map (store_of h0 (seg (rs_next h0) fs None)) \<and>
     rs_next h0 + used fs \<le> rs_next (r_store r)"

lemma redisReaderSetError_refines:
  assumes "troubled h0 fs r"
  shows "runs (redisReaderSetError r type msg) (failed h0 type msg)"
proof (cases "fs = []")
  case True
  with assms show ?thesis
    by (auto simp: redisReaderSetError_def troubled_def root_of_def failed_def)
next
  case False
  with assms obtain h' where "freeReplyObject (r_store r) (rs_next h0) = Ok h'" "rs_map h' = rs_map h0"
    using free_open [of fs h0 "r_store r"] by (auto simp: troubled_def fresh_def)
  with assms False show ?thesis
    by (auto simp: redisReaderSetError_def troubled_def root_of_def failed_def Let_def)
qed

lemma reader_troubled:
  assumes "reader_core h0 fs ty u (root_of h0 fs) r" and "fresh h0" and "gave_up r r'"
  shows "troubled h0 fs r'"
  using assms
  by (auto simp: reader_core_def troubled_def gave_up_def stack_at_def elim!: buffer_atE)

section \<open>One item\<close>

text \<open>What a status and a reader mean as an outcome of the abstract parser.\<close>

fun refines :: "rstore \<Rightarrow> outcome \<Rightarrow> int \<times> redisReader \<Rightarrow> bool" where
  "refines h0 (Blocked fs ty u) (st, r) = (st = REDIS_ERR \<and> reader_at h0 fs ty u r)"
| "refines h0 (Next fs u) (st, r) = (st = REDIS_OK \<and> reader_at h0 fs (- 1) u r)"
| "refines h0 (Done t u) (st, r) = (st = REDIS_OK \<and> reader_done h0 t u (Some (rs_next h0)) r)"
| "refines h0 (Bad m) (st, r) = (st = REDIS_ERR \<and> failed h0 REDIS_ERR_PROTOCOL m r)"
| "refines h0 Undef (st, r) = False"

definition out_of_memory :: "cenv \<Rightarrow> rstore \<Rightarrow> redisReader \<Rightarrow> bool" where
  "out_of_memory env h0 r \<longleftrightarrow> \<not> grants_all env \<and> failed h0 REDIS_ERR_OOM ''Out of memory'' r"

definition item_post :: "cenv \<Rightarrow> rstore \<Rightarrow> outcome \<Rightarrow> int \<times> redisReader \<Rightarrow> bool" where
  "item_post env h0 out x \<longleftrightarrow> refines h0 out x \<or> fst x = REDIS_ERR \<and> out_of_memory env h0 (snd x)"

lemma oom_refines:
  assumes "reader_core h0 fs ty u (root_of h0 fs) r" and "fresh h0" and "gave_up r r'"
    and "\<not> grants_all env"
  shows "runs (cbind (redisReaderSetErrorOOM r') (\<lambda>r. Ok (REDIS_ERR, r))) (item_post env h0 out)"
  using redisReaderSetError_refines [OF reader_troubled [OF assms(1-3)], of REDIS_ERR_OOM "''Out of memory''"]
    assms(4)
  by (auto simp: redisReaderSetErrorOOM_def item_post_def out_of_memory_def cr_simps elim!: runs_mono)

lemma reader_creating:
  "reader_core h0 fs ty u rp r \<Longrightarrow> fresh h0 \<Longrightarrow> creating h0 fs ty r (r_rstack r ! length fs)"
  by (simp add: reader_core_def creating_def fresh_def)

lemma reader_core_pos:
  "reader_core h0 fs ty u rp r \<Longrightarrow> k \<le> length u \<Longrightarrow>
   reader_core h0 fs ty (drop k u) rp (r\<lparr>r_pos := r_pos r + int k\<rparr>)"
  by (simp add: reader_core_def buffer_consume(2) stack_at_def)

lemma moved_refines:
  assumes "moved h0 (Some (rs_next h0)) (finish t fs u) r"
  shows "refines h0 (finish t fs u) (REDIS_OK, r)"
  using finish_cases [of t fs u] assms
  by (auto simp: moved_def reader_at_def root_of_def type_ok_def)

text \<open>Creation of a complete object, then the root pointer, then the task stack.\<close>

lemma place_refines:
  assumes core: "reader_core h0 fs ty u (root_of h0 fs) r" and fr: "fresh h0"
    and mk: "runs mk (created env h0 fs (layout (rs_next h0 + used fs) t) r)"
  shows "runs (cbind mk (\<lambda>(obj, r).
           if obj = None then cbind (redisReaderSetErrorOOM r) (\<lambda>r. Ok (REDIS_ERR, r))
           else cbind (moveToNextTask (set_root r (r_ridx r = 0) obj)) (\<lambda>r. Ok (REDIS_OK, r))))
         (item_post env h0 (finish t fs u))"
  unfolding runs_cbind [of mk]
proof (rule runs_mono [OF mk], clarify)
  fix obj r'
  assume post: "created env h0 fs (layout (rs_next h0 + used fs) t) r (obj, r')"
  show "runs (if obj = None then cbind (redisReaderSetErrorOOM r') (\<lambda>r. Ok (REDIS_ERR, r))
           else cbind (moveToNextTask (set_root r' (r_ridx r' = 0) obj)) (\<lambda>r. Ok (REDIS_OK, r)))
         (item_post env h0 (finish t fs u))"
  proof (cases obj)
    case None
    with post show ?thesis by (simp add: oom_refines [OF core fr])
  next
    case (Some a)
    have "placed h0 t fs u (Some (rs_next h0)) (set_root r' (r_ridx r' = 0) obj)"
      using post Some core
      by (auto simp: placed_def reader_core_def set_root_def root_of_def stack_at_def buffer_at_def)
    then have "runs (moveToNextTask (set_root r' (r_ridx r' = 0) obj))
        (moved h0 (Some (rs_next h0)) (finish t fs u))"
      by (rule moveToNextTask_refines)
    with Some show ?thesis
      by (auto simp: item_post_def cr_simps moved_refines elim!: runs_mono)
  qed
qed

lemma text_layout:
  "layout a (RString s) = [text_obj REDIS_REPLY_STRING s]"
  "layout a (RStatus s) = [text_obj REDIS_REPLY_STATUS s]"
  "layout a (RError s) = [text_obj REDIS_REPLY_ERROR s]"
  by simp_all

lemma processLineItem_refines:
  assumes core: "reader_core h0 fs ty u (root_of h0 fs) r" and fr: "fresh h0"
    and ty: "ty \<in> {REDIS_REPLY_ERROR, REDIS_REPLY_STATUS, REDIS_REPLY_INTEGER}"
    and ndef: "line_item fs ty u \<noteq> Undef"
  shows "runs (processLineItem env r) (item_post env h0 (line_item fs ty u))"
proof -
  have buf: "buffer_at u r" using core by (simp add: reader_core_def)
  show ?thesis
  proof (cases "find_crlf u")
    case None
    have "type_ok fs ty" using ty by (auto simp: type_ok_def)
    with None core show ?thesis
      by (simp add: processLineItem_def readLine_none [OF buf None] line_item_def item_post_def reader_at_def)
  next
    case (Some k)
    obtain rest where p: "rd_ptr r = Ok (u @ NUL # rest)" using buf by (rule buffer_rd_ptr)
    let ?r = "r\<lparr>r_pos := r_pos r + int (k + 2)\<rparr>" and ?u = "drop (k + 2) u"
    have k: "k + 2 \<le> length u" using find_crlf_bound [OF Some] by simp
    have klt: "k < 2 ^ 30" "k \<le> length (u @ NUL # rest)" using k buffer_avail(2) [OF buf] by auto
    have core': "reader_core h0 fs ty ?u (root_of h0 fs) ?r"
      using core k by (rule reader_core_pos)
    then have cr: "creating h0 fs ty ?r (r_rstack ?r ! length fs)" using fr by (rule reader_creating)
    have st: "stack_at (rs_next h0) fs ty ?r" using core' by (simp add: reader_core_def)
    have cur: "task_at ?r (r_ridx ?r) = Ok (r_rstack ?r ! length fs)" by (rule stack_cur [OF st])
    have type: "t_type (r_rstack ?r ! length fs) = ty" using st by (simp add: stack_at_def)
    have take: "take k u = take k (u @ NUL # rest)" using k by simp
    have sz: "c_size (int k) = int k" using klt by (simp add: c_size_id)
    note place = place_refines [OF core' fr]
    note line = processLineItem_def readLine_some [OF buf Some p] line_item_def Some
    show ?thesis
    proof (cases "ty = REDIS_REPLY_INTEGER")
      case True
      then obtain v where v: "line_number (take k u) = Some v"
        using ndef Some by (auto simp: line_item_def split: option.splits)
      then have num: "readLongLong (u @ NUL # rest) = Ok v"
        by (simp add: readLongLong_unread [OF Some])
      have "runs (createIntegerObject env ?r (r_rstack ?r ! length fs) v)
          (created env h0 fs (layout (rs_next h0 + used fs) (RInteger v)) ?r)"
        using cr by (rule createIntegerObject_refines)
      from place [OF this] True v num cur type show ?thesis
        by (simp add: line)
    next
      case False
      with ty have ty': "ty \<in> {REDIS_REPLY_ERROR, REDIS_REPLY_STATUS, REDIS_REPLY_STRING}" by auto
      define t where "t = (if ty = REDIS_REPLY_STATUS then RStatus (take k u) else RError (take k u))"
      have "layout (rs_next h0 + used fs) t = [text_obj ty (take k u)]"
        using ty False by (auto simp: t_def)
      then have "runs (createStringObject env ?r (r_rstack ?r ! length fs) (u @ NUL # rest) (int k))
          (created env h0 fs (layout (rs_next h0 + used fs) t) ?r)"
        using createStringObject_refines [OF cr ty' take] klt by simp
      from place [OF this] False ty cur type sz show ?thesis
        by (auto simp: line t_def)
    qed
  qed
qed


text \<open>The object of a bulk item is created before the cursor moves over it.\<close>

lemma created_pos:
  assumes "created env h0 fs os r (obj, r')"
  shows "created env h0 fs os (r\<lparr>r_pos := p\<rparr>) (obj, r'\<lparr>r_pos := p\<rparr>)"
proof (cases obj)
  case None
  with assms obtain h where "r' = r\<lparr>r_store := h\<rparr>" and "rs_map h = rs_map (r_store r)"
    "rs_next (r_store r) \<le> rs_next h" by (auto simp: gave_up_def)
  then have "gave_up (r\<lparr>r_pos := p\<rparr>) (r'\<lparr>r_pos := p\<rparr>)"
    unfolding gave_up_def by (intro exI [of _ h]) (auto intro!: redisReader.equality)
  with None assms show ?thesis by simp
next
  case (Some a)
  with assms show ?thesis by (auto intro!: redisReader.equality)
qed

lemma place_bulk:
  assumes core: "reader_core h0 fs ty u (root_of h0 fs) r" and fr: "fresh h0"
    and mk: "runs mk (created env h0 fs (layout (rs_next h0 + used fs) t) r)" and k: "k \<le> length u"
  shows "runs (cbind mk (\<lambda>(obj, r).
           if obj = None then cbind (redisReaderSetErrorOOM r) (\<lambda>r. Ok (REDIS_ERR, r))
           else let r = r\<lparr>r_pos := c_size (r_pos r + int k)\<rparr> in
             cbind (moveToNextTask (set_root r (r_ridx r = 0) obj)) (\<lambda>r. Ok (REDIS_OK, r))))
         (item_post env h0 (finish t fs (drop k u)))"
  unfolding runs_cbind [of mk]
proof (rule runs_mono [OF mk], clarify)
  fix obj r'
  assume post: "created env h0 fs (layout (rs_next h0 + used fs) t) r (obj, r')"
  let ?r = "r\<lparr>r_pos := r_pos r + int k\<rparr>" and ?r' = "r'\<lparr>r_pos := r_pos r + int k\<rparr>"
  show "runs (if obj = None then cbind (redisReaderSetErrorOOM r') (\<lambda>r. Ok (REDIS_ERR, r))
           else let r = r'\<lparr>r_pos := c_size (r_pos r' + int k)\<rparr> in
             cbind (moveToNextTask (set_root r (r_ridx r = 0) obj)) (\<lambda>r. Ok (REDIS_OK, r)))
         (item_post env h0 (finish t fs (drop k u)))"
  proof (cases obj)
    case None
    with post show ?thesis by (simp add: oom_refines [OF core fr])
  next
    case (Some a)
    have core': "reader_core h0 fs ty (drop k u) (root_of h0 fs) ?r"
      using core k by (rule reader_core_pos)
    have "runs (Ok (obj, ?r')) (created env h0 fs (layout (rs_next h0 + used fs) t) ?r)"
      using created_pos [OF post] by simp
    from place_refines [OF core' fr this] Some
    have "runs (cbind (moveToNextTask (set_root ?r' (r_ridx ?r' = 0) obj)) (\<lambda>r. Ok (REDIS_OK, r)))
        (item_post env h0 (finish t fs (drop k u)))"
      by simp
    moreover have "c_size (r_pos r' + int k) = r_pos r + int k"
      using post Some core k by (auto simp: reader_core_def buffer_consume(1))
    ultimately show ?thesis using Some by (simp add: Let_def)
  qed
qed

lemma processBulkItem_refines:
  assumes core: "reader_core h0 fs REDIS_REPLY_STRING u (root_of h0 fs) r" and fr: "fresh h0"
    and ndef: "bulk_item fs REDIS_REPLY_STRING u \<noteq> Undef"
  shows "runs (processBulkItem env r) (item_post env h0 (bulk_item fs REDIS_REPLY_STRING u))"
proof -
  let ?ty = REDIS_REPLY_STRING
  have buf: "buffer_at u r" and st: "stack_at (rs_next h0) fs ?ty r" using core by (simp_all add: reader_core_def)
  have same: "reader_at h0 fs ?ty u r" using core by (simp add: reader_at_def type_ok_def)
  obtain rest where p: "rd_ptr r = Ok (u @ NUL # rest)" using buf by (rule buffer_rd_ptr)
  note bulk = processBulkItem_def p buffer_seek [OF buf p] bulk_item_def stack_cur [OF st]
  show ?thesis
  proof (cases "find_crlf u")
    case None
    with same show ?thesis by (simp add: bulk item_post_def)
  next
    case (Some k)
    have k: "k + 2 \<le> length u" using find_crlf_bound [OF Some] by simp
    have ulen: "length u < 2 ^ 30" using buffer_avail(2) [OF buf] .
    from ndef Some obtain l where l: "line_number (take k u) = Some l"
      by (auto simp: bulk_item_def split: option.splits)
    then have num: "readLongLong (u @ NUL # rest) = Ok l"
      by (simp add: readLongLong_unread [OF Some])
    have sz: "c_size (int k + 2) = int (k + 2)" using k ulen by (simp add: c_size_id)
    have cr: "creating h0 fs ?ty r (r_rstack r ! length fs)" using core fr by (rule reader_creating)
    show ?thesis
    proof (cases "l < 0")
      case True
      have "runs (createNilObject env r (r_rstack r ! length fs))
          (created env h0 fs (layout (rs_next h0 + used fs) RNil) r)"
        using cr by (rule createNilObject_refines)
      from place_bulk [OF core fr this k] True show ?thesis
        by (simp add: bulk Some num l sz cbind_assoc split_def Let_def cong: if_cong del: layout.simps)
    next
      case nonneg: False
      then obtain n where n: "l = int n" by (metis nonneg_int_cases not_less)
      have big: "n < 2 ^ 63 - 2" using ndef Some l by (simp add: n bulk_item_def split: if_splits)
      then have ll: "s_llong (int n + 2) = Ok (int n + 2)" by (simp add: s_llong_ok)
      let ?k = "k + 2 + n + 2"
      have sz2: "c_size (int (k + 2) + (int n + 2)) = int ?k"
        using k ulen big by (simp add: c_size_id)
      have fits: "c_size (r_pos r + int ?k) \<le> r_len r \<longleftrightarrow> ?k \<le> length u"
        using buf k big by (auto elim!: buffer_atE simp: c_size_id)
      show ?thesis
      proof (cases "?k \<le> length u")
        case False
        with same fits show ?thesis
          using big sz sz2 ll by (simp add: bulk Some num l n item_post_def Let_def)
      next
        case True
        have str: "drop (nat (int k + 2)) (u @ NUL # rest) = drop (k + 2) u @ NUL # rest"
          using k by (simp add: nat_add_distrib)
        have tk: "take n (drop (k + 2) u) = take n (drop (k + 2) u @ NUL # rest)" using True by simp
        have "runs (createStringObject env r (r_rstack r ! length fs) (drop (k + 2) u @ NUL # rest) (int n))
            (created env h0 fs (layout (rs_next h0 + used fs) (RString (take n (drop (k + 2) u)))) r)"
          using createStringObject_refines [OF cr _ tk] True ulen by simp
        from place_bulk [OF core fr this True] True fits show ?thesis
          using big sz sz2 ll str by (simp add: bulk Some num l n cbind_assoc split_def Let_def cong: if_cong
              del: layout.simps drop_append)
      qed
    qed
  qed
qed


text \<open>The nil and empty replies of the array type set the root pointer after the stack moved.\<close>

lemma place_multi:
  assumes core: "reader_core h0 fs ty u (root_of h0 fs) r" and fr: "fresh h0"
    and mk: "runs mk (created env h0 fs (layout (rs_next h0 + used fs) t) r)"
    and root: "root = (fs = [])"
  shows "runs (cbind mk (\<lambda>(obj, r).
           if obj = None then cbind (redisReaderSetErrorOOM r) (\<lambda>r. Ok (REDIS_ERR, r))
           else cbind (moveToNextTask r) (\<lambda>r. Ok (REDIS_OK, set_root r root obj))))
         (item_post env h0 (finish t fs u))"
  unfolding runs_cbind [of mk]
proof (rule runs_mono [OF mk], clarify)
  fix obj r'
  assume post: "created env h0 fs (layout (rs_next h0 + used fs) t) r (obj, r')"
  show "runs (if obj = None then cbind (redisReaderSetErrorOOM r') (\<lambda>r. Ok (REDIS_ERR, r))
           else cbind (moveToNextTask r') (\<lambda>r. Ok (REDIS_OK, set_root r root obj)))
         (item_post env h0 (finish t fs u))"
  proof (cases obj)
    case None
    with post show ?thesis by (simp add: oom_refines [OF core fr])
  next
    case (Some a)
    have "placed h0 t fs u (root_of h0 fs) r'"
      using post Some core
      by (auto simp: placed_def reader_core_def stack_at_def buffer_at_def)
    then have move: "runs (moveToNextTask r') (moved h0 (root_of h0 fs) (finish t fs u))"
      by (rule moveToNextTask_refines)
    have "moved h0 (Some (rs_next h0)) (finish t fs u) (set_root r2 root obj)"
      if m: "moved h0 (root_of h0 fs) (finish t fs u) r2" for r2
    proof -
      have "moved h0 (Some (rs_next h0)) (finish t fs u) (r2\<lparr>r_reply := Some (rs_next h0)\<rparr>)"
        using finish_cases [of t fs u] m
        by (auto simp: moved_def reader_core_def reader_done_def stack_at_def buffer_at_def)
      moreover have "set_root r2 root obj = r2\<lparr>r_reply := Some (rs_next h0)\<rparr>" if "fs = []"
        using post Some root that by (simp add: set_root_def)
      moreover have "set_root r2 root obj = r2" if "fs \<noteq> []"
        using root that by (simp add: set_root_def)
      ultimately show ?thesis
        using m by (cases "fs = []") (auto simp: root_of_def)
    qed
    then show ?thesis
      using move Some by (auto simp: cr_simps item_post_def moved_refines elim!: runs_mono)
  qed
qed

lemma push_task_refines:
  assumes st: "stack_at b fs ty r" and n: "0 < n" "n < 2 ^ 31" and d: "length fs < 8"
    and ty: "ty = REDIS_REPLY_ARRAY" and a: "a = b + used fs" and cur: "cur = r_rstack r ! length fs"
  shows "\<exists>st. push_task r cur (int n) (Some a) = Ok (r\<lparr>r_rstack := st, r_ridx := r_ridx r + 1\<rparr>) \<and>
           stack_at b ((n, []) # fs) (- 1) (r\<lparr>r_rstack := st, r_ridx := r_ridx r + 1\<rparr>)"
proof -
  have len: "length (r_rstack r) = 9" and ridx: "r_ridx r = int (length fs)"
    and ok: "frames_ok fs" "tasks_at b (r_rstack r) fs" and cur': "t_type cur = REDIS_REPLY_ARRAY"
    "t_idx cur = cur_idx fs" "t_parent cur = parent_of fs"
    using st ty cur by (auto simp: stack_at_def)
  let ?cur = "cur\<lparr>t_elements := int n, t_obj := Some a\<rparr>"
  let ?top = "\<lparr>t_type = - 1, t_elements = - 1, t_idx = 0, t_obj = None, t_parent = Some (length fs)\<rparr>"
  let ?st = "(r_rstack r)[length fs := ?cur, Suc (length fs) := ?top]"
  have n': "c_int (int n) = int n" using n by (simp add: c_int_id)
  have "push_task r cur (int n) (Some a) = Ok (r\<lparr>r_rstack := ?st, r_ridx := r_ridx r + 1\<rparr>)"
    using len d by (simp add: push_task_def set_task_def ridx n' nat_add_distrib)
  moreover have "stack_at b ((n, []) # fs) (- 1) (r\<lparr>r_rstack := ?st, r_ridx := r_ridx r + 1\<rparr>)"
    using len d ok n cur' a
    by (auto simp: stack_at_def ridx tasks_at_update intro!: redisReadTask.equality)
  ultimately show ?thesis by blast
qed

lemma open_refines:
  assumes core: "reader_core h0 fs REDIS_REPLY_ARRAY u (root_of h0 fs) r" and fr: "fresh h0"
    and n: "0 < n" "n < 2 ^ 31" and d: "length fs < 8" and root: "root = (fs = [])"
    and cur: "cur = r_rstack r ! length fs"
  shows "runs (cbind (createArrayObject env r cur (int n)) (\<lambda>(obj, r).
           if obj = None then cbind (redisReaderSetErrorOOM r) (\<lambda>r. Ok (REDIS_ERR, r))
           else cbind (push_task r cur (int n) obj) (\<lambda>r. Ok (REDIS_OK, set_root r root obj))))
         (item_post env h0 (Next ((n, []) # fs) u))"
proof -
  let ?b = "rs_next h0"
  have cr: "creating h0 fs REDIS_REPLY_ARRAY r cur" using reader_creating [OF core fr] cur by simp
  show ?thesis
    unfolding runs_cbind
  proof (rule runs_mono [OF createArrayObject_refines [OF cr n]], clarify)
    fix obj r'
    assume post: "created env h0 fs [open_obj n (?b + used fs) [] None] r (obj, r')"
    show "runs (if obj = None then cbind (redisReaderSetErrorOOM r') (\<lambda>r. Ok (REDIS_ERR, r))
           else cbind (push_task r' cur (int n) obj) (\<lambda>r. Ok (REDIS_OK, set_root r root obj)))
         (item_post env h0 (Next ((n, []) # fs) u))"
    proof (cases obj)
      case None
      with post show ?thesis by (simp add: oom_refines [OF core fr])
    next
      case (Some a)
      then have a: "a = ?b + used fs" and store: "r_store r' = store_of h0 (seg ?b ((n, []) # fs) None)"
        and r': "r_err r' = r_err r" "r_reply r' = r_reply r" "r_buf r' = r_buf r" "r_pos r' = r_pos r"
          "r_len r' = r_len r" "r_rstack r' = r_rstack r" "r_ridx r' = r_ridx r"
        using post by auto
      have st': "stack_at ?b fs REDIS_REPLY_ARRAY r'"
        using core r' by (simp add: reader_core_def cong: stack_at_cong)
      from push_task_refines [OF st' n d refl a, of cur] cur r'(6)
      obtain st where push: "push_task r' cur (int n) (Some a) = Ok (r'\<lparr>r_rstack := st, r_ridx := r_ridx r' + 1\<rparr>)"
        and st2: "stack_at ?b ((n, []) # fs) (- 1) (r'\<lparr>r_rstack := st, r_ridx := r_ridx r' + 1\<rparr>)" by auto
      let ?r2 = "set_root (r'\<lparr>r_rstack := st, r_ridx := r_ridx r' + 1\<rparr>) root (Some a)"
      have "reader_at h0 ((n, []) # fs) (- 1) u ?r2"
        using st2 core r' store root a
        by (auto simp: reader_at_def reader_core_def type_ok_def set_root_def root_of_def stack_at_def
            buffer_at_def)
      then show ?thesis
        by (simp add: Some push item_post_def)
    qed
  qed
qed

lemma processMultiBulkItem_refines:
  assumes core: "reader_core h0 fs REDIS_REPLY_ARRAY u (root_of h0 fs) r" and fr: "fresh h0"
    and ndef: "multi_item fs REDIS_REPLY_ARRAY u \<noteq> Undef"
  shows "runs (processMultiBulkItem env r) (item_post env h0 (multi_item fs REDIS_REPLY_ARRAY u))"
proof -
  let ?ty = REDIS_REPLY_ARRAY
  have buf: "buffer_at u r" and st: "stack_at (rs_next h0) fs ?ty r" using core by (simp_all add: reader_core_def)
  have cur: "task_at r (r_ridx r) = Ok (r_rstack r ! length fs)" by (rule stack_cur [OF st])
  have ridx: "r_ridx r = int (length fs)" and d8: "length fs \<le> 8" using st by (auto simp: stack_at_def)
  have cur2: "task_at r (int (length fs)) = Ok (r_rstack r ! length fs)" using cur ridx by simp
  show ?thesis
  proof (cases "length fs = 8")
    case True
    have "troubled h0 fs r" using core fr gave_up_self by (rule reader_troubled)
    then have "runs (redisReaderSetError r REDIS_ERR_PROTOCOL nested_msg) (failed h0 REDIS_ERR_PROTOCOL nested_msg)"
      by (rule redisReaderSetError_refines)
    then show ?thesis
      using cur ridx True
      by (auto simp: processMultiBulkItem_def multi_item_def nested_msg_def item_post_def cr_simps
          elim!: runs_mono)
  next
    case False
    then have d: "length fs < 8" using d8 by simp
    show ?thesis
    proof (cases "find_crlf u")
      case None
      have "reader_at h0 fs ?ty u r" using core d by (simp add: reader_at_def type_ok_def)
      with None d cur ridx show ?thesis
        by (simp add: processMultiBulkItem_def readLine_none [OF buf None] multi_item_def item_post_def)
    next
      case (Some k)
      obtain rest where p: "rd_ptr r = Ok (u @ NUL # rest)" using buf by (rule buffer_rd_ptr)
      let ?r = "r\<lparr>r_pos := r_pos r + int (k + 2)\<rparr>" and ?u = "drop (k + 2) u"
      let ?cur = "r_rstack ?r ! length fs"
      have k: "k + 2 \<le> length u" using find_crlf_bound [OF Some] by simp
      have core': "reader_core h0 fs ?ty ?u (root_of h0 fs) ?r"
        using core k by (rule reader_core_pos)
      then have cr: "creating h0 fs ?ty ?r ?cur" using fr by (rule reader_creating)
      have cur': "r_rstack r ! length fs = ?cur" by simp
      have root: "(r_ridx ?r = 0) = (fs = [])" using ridx by simp
      obtain e where e: "line_number (take k u) = Some e" and range: "- 1 \<le> e" "e < 2 ^ 31"
        using ndef Some d by (auto simp: multi_item_def split: option.splits if_splits)
      have num: "readLongLong (u @ NUL # rest) = Ok e"
        by (simp add: readLongLong_unread [OF Some] e)
      have ei: "c_int e = e" using range by (simp add: c_int_id)
      note multi = processMultiBulkItem_def cur2 ridx readLine_some [OF buf Some p] num multi_item_def Some e
      consider (nil) "e = - 1" | (zero) "e = 0" | (pos) "0 < e" using range by linarith
      then show ?thesis
      proof cases
        case nil
        have "runs (createNilObject env ?r ?cur) (created env h0 fs (layout (rs_next h0 + used fs) RNil) ?r)"
          using cr by (rule createNilObject_refines)
        from place_multi [OF core' fr this root] nil d show ?thesis
          by (simp add: multi cong: if_cong del: layout.simps)
      next
        case zero
        have "runs (createArrayObject env ?r ?cur 0) (created env h0 fs (layout (rs_next h0 + used fs) (RArray [])) ?r)"
          using cr by (rule createArrayObject_empty)
        from place_multi [OF core' fr this root] zero d ei show ?thesis
          by (simp add: multi cong: if_cong del: layout.simps)
      next
        case pos
        define n where "n = nat e"
        have n: "e = int n" "0 < n" "n < 2 ^ 31" using pos range by (auto simp: n_def)
        have ci: "c_int (int n) = int n" using n by (simp add: c_int_id)
        from open_refines [OF core' fr n(2,3) d root refl, of env] d ci n show ?thesis
          by (simp add: multi cong: if_cong)
      qed
    qed
  qed
qed

section \<open>The reader's operations\<close>

lemma process_typed_refines:
  assumes core: "reader_core h0 fs ty u (root_of h0 fs) r" and fr: "fresh h0"
    and ty: "ty \<in> {REDIS_REPLY_ERROR, REDIS_REPLY_STATUS, REDIS_REPLY_INTEGER, REDIS_REPLY_STRING, REDIS_REPLY_ARRAY}"
    and ndef: "typed_item fs ty u \<noteq> Undef"
  shows "runs (process_typed env r) (item_post env h0 (typed_item fs ty u))"
proof -
  have st: "stack_at (rs_next h0) fs ty r" using core by (simp add: reader_core_def)
  have cur: "task_at r (r_ridx r) = Ok (r_rstack r ! length fs)" and type: "t_type (r_rstack r ! length fs) = ty"
    using stack_cur [OF st] st by (simp_all add: stack_at_def)
  consider (line) "ty \<in> {REDIS_REPLY_ERROR, REDIS_REPLY_STATUS, REDIS_REPLY_INTEGER}"
    | (bulk) "ty = REDIS_REPLY_STRING" | (multi) "ty = REDIS_REPLY_ARRAY"
    using ty by blast
  then show ?thesis
  proof cases
    case line
    with processLineItem_refines [OF core fr line] ndef cur type show ?thesis
      by (auto simp: process_typed_def typed_item_def)
  next
    case bulk
    with processBulkItem_refines [of h0 fs u r] core fr ndef cur type show ?thesis
      by (auto simp: process_typed_def typed_item_def reply_types)
  next
    case multi
    with processMultiBulkItem_refines [of h0 fs u r] core fr ndef cur type show ?thesis
      by (auto simp: process_typed_def typed_item_def reply_types)
  qed
qed


lemma bad_type_msg_take: "take 127 (bad_type_msg c) = bad_type_msg c"
proof -
  have "length (chrtos 8 c) \<le> 7" by (simp add: chrtos_def c_snprintf_def)
  then show ?thesis by (simp add: bad_type_msg_def)
qed

lemma failed_take: "failed h0 ty (take 127 m) r = failed h0 ty m r"
  by (simp add: failed_def)

lemma set_type_core:
  assumes "reader_core h0 fs ty u rp r" and "cur = r_rstack r ! length fs"
  shows "set_task r (r_ridx r) (cur\<lparr>t_type := ty'\<rparr>) =
           Ok (r\<lparr>r_rstack := (r_rstack r)[length fs := cur\<lparr>t_type := ty'\<rparr>]\<rparr>)"
    and "reader_core h0 fs ty' u rp (r\<lparr>r_rstack := (r_rstack r)[length fs := cur\<lparr>t_type := ty'\<rparr>]\<rparr>)"
  using assms
  by (simp_all add: reader_core_def stack_at_def set_task_def tasks_at_update buffer_at_def)

lemma type_ok_ndef: "type_ok fs ty \<Longrightarrow> 0 \<le> ty \<Longrightarrow>
  ty \<in> {REDIS_REPLY_ERROR, REDIS_REPLY_STATUS, REDIS_REPLY_INTEGER, REDIS_REPLY_STRING, REDIS_REPLY_ARRAY}"
  by (auto simp: type_ok_def)

lemma processItem_refines:
  assumes at: "reader_at h0 fs ty u r" and fr: "fresh h0" and ndef: "item fs ty u \<noteq> Undef"
  shows "runs (processItem env r) (item_post env h0 (item fs ty u))"
proof -
  have core: "reader_core h0 fs ty u (root_of h0 fs) r" and tok: "type_ok fs ty"
    using at by (simp_all add: reader_at_def)
  have st: "stack_at (rs_next h0) fs ty r" and buf: "buffer_at u r" using core by (simp_all add: reader_core_def)
  let ?cur = "r_rstack r ! length fs"
  have cur: "task_at r (r_ridx r) = Ok ?cur" and type: "t_type ?cur = ty"
    using stack_cur [OF st] st by (simp_all add: stack_at_def)
  show ?thesis
  proof (cases "ty < 0")
    case False
    with process_typed_refines [OF core fr] type_ok_ndef [OF tok] ndef cur type show ?thesis
      by (simp add: processItem_def item_def)
  next
    case neg: True
    show ?thesis
    proof (cases u)
      case Nil
      with neg at cur type readBytes_one(1) [OF buf] show ?thesis
        by (simp add: processItem_def item_def item_post_def)
    next
      case (Cons c u')
      obtain rest where p: "rd_ptr r = Ok (u @ NUL # rest)" using buf by (rule buffer_rd_ptr)
      let ?r = "r\<lparr>r_pos := r_pos r + 1\<rparr>"
      have read: "readBytes r 1 = Ok (Some (u @ NUL # rest), ?r)"
        using readBytes_one(2) [OF buf Cons p] .
      have c: "mem_get (u @ NUL # rest) 0 = Ok c" by (simp add: Cons mem_get_def)
      have core': "reader_core h0 fs ty u' (root_of h0 fs) ?r"
        using reader_core_pos [OF core, of 1] Cons by simp
      note read_defs = processItem_def item_def cur type neg read c Cons
      show ?thesis
      proof (cases "reply_type_of c")
        case None
        have "runs (redisReaderSetError ?r REDIS_ERR_PROTOCOL (take 127 (bad_type_msg c)))
            (failed h0 REDIS_ERR_PROTOCOL (take 127 (bad_type_msg c)))"
          using redisReaderSetError_refines [OF reader_troubled [OF core' fr gave_up_self]] .
        moreover have "redisReaderSetErrorProtocolByte ?r c =
            redisReaderSetError ?r REDIS_ERR_PROTOCOL (take 127 (bad_type_msg c))"
          by (simp add: redisReaderSetErrorProtocolByte_def bad_type_msg_def c_snprintf_def Let_def)
        ultimately show ?thesis
          using cur type neg read c None
          by (auto simp: processItem_def item_def Cons item_post_def cr_simps bad_type_msg_take
              elim!: runs_mono)
      next
        case (Some ty')
        let ?r2 = "?r\<lparr>r_rstack := (r_rstack r)[length fs := ?cur\<lparr>t_type := ty'\<rparr>]\<rparr>"
        have set: "set_task ?r (r_ridx ?r) (?cur\<lparr>t_type := ty'\<rparr>) = Ok ?r2"
          and core2: "reader_core h0 fs ty' u' (root_of h0 fs) ?r2"
          using set_type_core [OF core', of ?cur ty'] by simp_all
        have "ty' \<in> {REDIS_REPLY_ERROR, REDIS_REPLY_STATUS, REDIS_REPLY_INTEGER, REDIS_REPLY_STRING, REDIS_REPLY_ARRAY}"
          using Some by (auto simp: reply_type_of_def split: if_splits)
        from process_typed_refines [OF core2 fr this] ndef neg Some Cons
        have "runs (process_typed env ?r2) (item_post env h0 (typed_item fs ty' u'))"
          by (simp add: item_def)
        with set show ?thesis
          using cur type neg read c Some by (simp add: processItem_def item_def Cons)
      qed
    qed
  qed
qed

text \<open>What the loop over the items leaves behind.\<close>

fun loop_refines :: "rstore \<Rightarrow> outcome \<Rightarrow> redisReader \<Rightarrow> bool" where
  "loop_refines h0 (Blocked fs ty u) r = reader_at h0 fs ty u r"
| "loop_refines h0 (Done t u) r = reader_done h0 t u (Some (rs_next h0)) r"
| "loop_refines h0 (Bad m) r = failed h0 REDIS_ERR_PROTOCOL m r"
| "loop_refines h0 _ r = False"

lemma reader_at_ridx: "reader_at h0 fs ty u r \<Longrightarrow> r_ridx r = int (length fs)"
  by (simp add: reader_at_def reader_core_def stack_at_def)

lemma items_loop_refines:
  assumes "reader_at h0 fs ty u r" and "fresh h0" and "prun fs ty u \<noteq> Undef" and "length u < n"
  shows "runs (items_loop n env r) (\<lambda>r. loop_refines h0 (prun fs ty u) r \<or> out_of_memory env h0 r)"
  using assms
proof (induction fs ty u arbitrary: r n rule: prun.induct)
  case (1 fs ty u)
  from \<open>length u < n\<close> obtain m where n: "n = Suc m" by (cases n) auto
  have ridx: "0 \<le> r_ridx r" using reader_at_ridx [OF "1.prems"(1)] by simp
  have ndef: "item fs ty u \<noteq> Undef" using "1.prems"(3) by (auto simp: prun.simps [of fs ty u])
  show ?case
    unfolding n items_loop.simps using ridx
  proof (simp add: runs_cbind, rule_tac runs_mono [OF processItem_refines [OF "1.prems"(1,2) ndef]], clarify)
    fix st r'
    assume post: "item_post env h0 (item fs ty u) (st, r')"
    show "runs (if st \<noteq> REDIS_OK then Ok r' else items_loop m env r')
        (\<lambda>r. loop_refines h0 (prun fs ty u) r \<or> out_of_memory env h0 r)"
    proof (cases "refines h0 (item fs ty u) (st, r')")
      case False
      with post show ?thesis by (simp add: item_post_def redis_status)
    next
      case True
      show ?thesis
      proof (cases "item fs ty u")
        case (Next fs' u')
        have "length u' < m" using item_consumes(1) [OF Next] "1.prems"(4) n by simp
        moreover have "prun fs ty u = prun fs' (- 1) u'" using Next by (simp add: prun.simps [of fs ty u])
        ultimately show ?thesis
          using "1.IH" [OF Next, of r' m] "1.prems" True Next by (simp add: redis_status)
      next
        case (Done t u')
        have "0 < m" using item_consumes(2) [OF Done] "1.prems"(4) n by simp
        then obtain k where "m = Suc k" by (cases m) auto
        with True Done show ?thesis
          by (simp add: prun.simps [of fs ty u] redis_status reader_done_def)
      qed (use True ndef in \<open>simp_all add: prun.simps [of fs ty u] redis_status\<close>)
    qed
  qed
qed


text \<open>Between two calls the stack may also be empty, which is the state after creation.\<close>

definition reader_idle :: "rstore \<Rightarrow> bytes \<Rightarrow> redisReader \<Rightarrow> bool" where
  "reader_idle h0 u r \<longleftrightarrow>
     r_err r = 0 \<and> buffer_at u r \<and> length (r_rstack r) = 9 \<and> r_ridx r = - 1 \<and> r_reply r = None \<and>
     r_store r = h0"

definition reader_state :: "rstore \<Rightarrow> frames \<Rightarrow> int \<Rightarrow> bytes \<Rightarrow> redisReader \<Rightarrow> bool" where
  "reader_state h0 fs ty u r \<longleftrightarrow>
     fresh h0 \<and> (reader_at h0 fs ty u r \<or> fs = [] \<and> ty = - 1 \<and> reader_idle h0 u r)"

lemma reader_state_buffer: "reader_state h0 fs ty u r \<Longrightarrow> buffer_at u r \<and> r_err r = 0"
  by (auto simp: reader_state_def reader_at_def reader_core_def reader_idle_def)

lemma reader_state_len: "reader_state h0 fs ty u r \<Longrightarrow> r_len r = r_pos r + int (length u)"
  by (auto dest!: reader_state_buffer elim!: buffer_atE)

lemma buffer_empty:
  assumes "buffer_at u r" and "r_len r = 0"
  shows "u = []" and "r_pos r = 0"
proof -
  from assms(1) obtain sh rest and pre :: bytes where "r_pos r = int (length pre)" "r_len r = int (length pre + length u)"
    by (elim buffer_atE) blast
  moreover from this have "length pre + length u = 0" using assms(2) by linarith
  ultimately show "u = []" "r_pos r = 0" by simp_all
qed

lemma reader_state_empty:
  "reader_state h0 fs ty u r \<Longrightarrow> u = [] \<Longrightarrow> prun fs ty u = Blocked fs ty u"
  by (auto simp: reader_state_def reader_at_def type_ok_def prun.simps item_def typed_item_def item_defs
      reply_types)

lemma discard_consumed_refines:
  assumes "buffer_at u r"
  shows "\<exists>b p l. discard_consumed r = Ok (r\<lparr>r_buf := b, r_pos := p, r_len := l\<rparr>) \<and>
           buffer_at u (r\<lparr>r_buf := b, r_pos := p, r_len := l\<rparr>) \<and> p < 1024"
proof (cases "1024 \<le> r_pos r")
  case False
  then show ?thesis
    using assms by (intro exI [of _ "r_buf r"] exI [of _ "r_pos r"] exI [of _ "r_len r"])
      (simp add: discard_consumed_def)
next
  case True
  from assms obtain sh pre where sh: "r_buf r = Some sh" "sds_rep sh (pre @ u)"
    and pos: "r_pos r = int (length pre)" and lim: "length pre + length u < 2 ^ 30"
    by (auto simp: buffer_at_def)
  have "pre \<noteq> []" "length pre < 2 ^ 31" using True pos lim by auto
  from sds_string.drop_front [OF sh(2) this] obtain sh' where
    cut: "sdsrange (Some sh) (int (length pre)) (- 1) = Ok (Some sh')" and rep: "sds_rep sh' u"
    and len: "sdslen sh' = int (length u)" by blast
  have "c_int (int (length pre)) = int (length pre)" using lim by (simp add: c_int_id)
  then show ?thesis
    using True sh(1) pos cut rep lim len
    by (intro exI [of _ "Some sh'"] exI [of _ 0] exI [of _ "sdslen sh'"])
      (auto simp: discard_consumed_def buffer_at_def)
qed

fun reply_refines :: "rstore \<Rightarrow> outcome \<Rightarrow> int \<times> nat option \<times> redisReader \<Rightarrow> bool" where
  "reply_refines h0 (Blocked fs ty u) (st, rep, r) =
     (st = REDIS_OK \<and> rep = None \<and> reader_state h0 fs ty u r \<and> r_pos r < 1024)"
| "reply_refines h0 (Done t u) (st, rep, r) =
     (st = REDIS_OK \<and> rep = Some (rs_next h0) \<and>
      reader_state (store_of h0 (layout (rs_next h0) t)) [] (- 1) u r \<and> r_pos r < 1024)"
| "reply_refines h0 (Bad m) (st, rep, r) =
     (st = REDIS_ERR \<and> rep = None \<and> failed h0 REDIS_ERR_PROTOCOL m r)"
| "reply_refines h0 _ _ = False"

definition reply_post :: "cenv \<Rightarrow> rstore \<Rightarrow> outcome \<Rightarrow> int \<times> nat option \<times> redisReader \<Rightarrow> bool" where
  "reply_post env h0 out x \<longleftrightarrow>
     reply_refines h0 out x \<or>
     fst x = REDIS_ERR \<and> fst (snd x) = None \<and> out_of_memory env h0 (snd (snd x))"

lemma reader_start:
  assumes "reader_state h0 fs ty u r"
  obtains r' where
    "(if r_ridx r = - 1 then cbind (set_task r 0 root_task) (\<lambda>r. Ok (r\<lparr>r_ridx := 0\<rparr>)) else Ok r) = Ok r'"
    and "reader_at h0 fs ty u r'" and "r_len r' = r_len r"
proof (cases "r_ridx r = - 1")
  case True
  with assms have id: "fs = []" "ty = - 1" "reader_idle h0 u r"
    by (auto simp: reader_state_def dest: reader_at_ridx)
  let ?r = "r\<lparr>r_rstack := (r_rstack r)[0 := root_task], r_ridx := 0\<rparr>"
  have "reader_at h0 fs ty u ?r"
    using id by (auto simp: reader_at_def reader_core_def type_ok_def reader_idle_def stack_at_def root_of_def
        root_task_def buffer_at_def)
  moreover have "cbind (set_task r 0 root_task) (\<lambda>r. Ok (r\<lparr>r_ridx := 0\<rparr>)) = Ok ?r"
    using id by (simp add: set_task_def reader_idle_def)
  ultimately show thesis using True that by simp
next
  case False
  with assms that show thesis by (auto simp: reader_state_def reader_idle_def)
qed

definition finish_reply :: "redisReader \<Rightarrow> (int \<times> nat option \<times> redisReader) cr" where
  "finish_reply r =
     (if r_err r \<noteq> 0 then Ok (REDIS_ERR, None, r)
      else cbind (discard_consumed r) (\<lambda>r.
        if r_ridx r = - 1 then Ok (REDIS_OK, r_reply r, r\<lparr>r_reply := None\<rparr>) else Ok (REDIS_OK, None, r)))"

lemma finish_reply_failed: "failed h0 e m r \<Longrightarrow> e \<noteq> 0 \<Longrightarrow> finish_reply r = Ok (REDIS_ERR, None, r)"
  by (simp add: finish_reply_def failed_def)

lemma finish_reply_refines:
  assumes "loop_refines h0 out r" and "fresh h0"
  shows "runs (finish_reply r) (reply_refines h0 out)"
proof (cases out)
  case (Blocked fs ty u)
  with assms have at: "reader_at h0 fs ty u r" by simp
  then have buf: "buffer_at u r" and err: "r_err r = 0" and ridx: "r_ridx r = int (length fs)"
    by (auto simp: reader_at_def reader_core_def stack_at_def)
  from discard_consumed_refines [OF buf] obtain b p l where
    d: "discard_consumed r = Ok (r\<lparr>r_buf := b, r_pos := p, r_len := l\<rparr>)"
    and buf': "buffer_at u (r\<lparr>r_buf := b, r_pos := p, r_len := l\<rparr>)" and p: "p < 1024" by blast
  have "reader_at h0 fs ty u (r\<lparr>r_buf := b, r_pos := p, r_len := l\<rparr>)"
    using at buf' by (simp add: reader_at_def reader_core_def stack_at_def)
  with d p err ridx Blocked assms(2) show ?thesis
    by (simp add: finish_reply_def reader_state_def)
next
  case (Done t u)
  with assms have dn: "reader_done h0 t u (Some (rs_next h0)) r" by simp
  then have buf: "buffer_at u r" and err: "r_err r = 0" by (auto simp: reader_done_def)
  from discard_consumed_refines [OF buf] obtain b p l where
    d: "discard_consumed r = Ok (r\<lparr>r_buf := b, r_pos := p, r_len := l\<rparr>)"
    and buf': "buffer_at u (r\<lparr>r_buf := b, r_pos := p, r_len := l\<rparr>)" and p: "p < 1024" by blast
  have "reader_idle (store_of h0 (layout (rs_next h0) t)) u
      (r\<lparr>r_buf := b, r_pos := p, r_len := l, r_reply := None\<rparr>)"
    using dn buf' by (auto simp: reader_idle_def reader_done_def buffer_at_def)
  with d p err dn Done assms(2) show ?thesis
    by (simp add: finish_reply_def reader_state_def reader_done_def fresh_store_of)
next
  case (Bad m)
  with assms show ?thesis
    by (simp add: finish_reply_failed [of h0 REDIS_ERR_PROTOCOL m] REDIS_ERR_PROTOCOL_def)
qed (use assms in simp_all)

lemma redisReaderGetReply_refines:
  assumes st: "reader_state h0 fs ty u r" and ndef: "prun fs ty u \<noteq> Undef"
  shows "runs (redisReaderGetReply env r) (reply_post env h0 (prun fs ty u))"
proof (cases "r_len r = 0")
  case True
  then have "u = []" "r_pos r < 1024"
    using buffer_empty [of u r] reader_state_buffer [OF st] by simp_all
  with True st reader_state_buffer [OF st] reader_state_empty [OF st] show ?thesis
    by (simp add: redisReaderGetReply_def reply_post_def)
next
  case False
  have fr: "fresh h0" using st by (simp add: reader_state_def)
  obtain r' where start: "(if r_ridx r = - 1 then cbind (set_task r 0 root_task) (\<lambda>r. Ok (r\<lparr>r_ridx := 0\<rparr>)) else Ok r) = Ok r'"
    and at: "reader_at h0 fs ty u r'" and len: "r_len r' = r_len r"
    using st by (rule reader_start)
  have "length u < Suc (nat (r_len r'))"
    using reader_state_len [OF st] reader_state_buffer [OF st] len by (auto elim!: buffer_atE)
  note loop = items_loop_refines [OF at fr ndef this, of env]
  have eq: "redisReaderGetReply env r = cbind (items_loop (Suc (nat (r_len r'))) env r') finish_reply"
    using False reader_state_buffer [OF st] start
    by (simp add: redisReaderGetReply_def finish_reply_def [abs_def] del: items_loop.simps)
  show ?thesis
    unfolding eq runs_cbind
  proof (rule runs_mono [OF loop])
    fix r2
    assume "loop_refines h0 (prun fs ty u) r2 \<or> out_of_memory env h0 r2"
    then show "runs (finish_reply r2) (reply_post env h0 (prun fs ty u))"
    proof
      assume "loop_refines h0 (prun fs ty u) r2"
      from finish_reply_refines [OF this fr] show ?thesis
        by (rule runs_mono) (simp add: reply_post_def)
    next
      assume "out_of_memory env h0 r2"
      then show ?thesis
        using finish_reply_failed [of h0 REDIS_ERR_OOM _ r2]
        by (auto simp: out_of_memory_def reply_post_def REDIS_ERR_OOM_def)
    qed
  qed
qed

text \<open>Feeding appends to the unread input.\<close>

definition feed_post :: "cenv \<Rightarrow> rstore \<Rightarrow> frames \<Rightarrow> int \<Rightarrow> bytes \<Rightarrow> int \<Rightarrow> int \<times> redisReader \<Rightarrow> bool" where
  "feed_post env h0 fs ty u p x \<longleftrightarrow>
     fst x = REDIS_OK \<and> reader_state h0 fs ty u (snd x) \<and> r_pos (snd x) \<le> p \<or>
     fst x = REDIS_ERR \<and> out_of_memory env h0 (snd x)"

lemma reader_state_buf:
  assumes "reader_state h0 fs ty u r" and "buffer_at v (r\<lparr>r_buf := b, r_pos := p, r_len := l\<rparr>)"
  shows "reader_state h0 fs ty v (r\<lparr>r_buf := b, r_pos := p, r_len := l\<rparr>)"
  using assms
  by (auto simp: reader_state_def reader_at_def reader_core_def reader_idle_def stack_at_def)

lemma reader_state_troubled: "reader_state h0 fs ty u r \<Longrightarrow> troubled h0 fs r"
proof -
  assume st: "reader_state h0 fs ty u r"
  show "troubled h0 fs r"
  proof (cases "reader_at h0 fs ty u r")
    case True
    with st show ?thesis
      using reader_troubled [OF _ _ gave_up_self] by (auto simp: reader_at_def reader_state_def)
  next
    case False
    with st show ?thesis
      by (auto simp: reader_state_def reader_idle_def troubled_def root_of_def elim!: buffer_atE)
  qed
qed

lemma redisReaderFeed_refines:
  assumes st: "reader_state h0 fs ty u r" and n: "n \<le> length b"
    and lim: "r_len r + int n < 2 ^ 30" and env: "alloc_ok env 9"
  shows "runs (redisReaderFeed env r (Some b) (int n)) (feed_post env h0 fs ty (u @ take n b) (r_pos r))"
proof (cases "n = 0")
  case True
  with st reader_state_buffer [OF st] show ?thesis by (simp add: redisReaderFeed_def feed_post_def)
next
  case False
  have buf: "buffer_at u r" and err: "r_err r = 0" using reader_state_buffer [OF st] by auto
  define refresh where "refresh =
      (if r_len r = 0 \<and> r_maxbuf r \<noteq> 0
       then cbind (deref (r_buf r)) (\<lambda>sh.
            if r_maxbuf r < sdsavail sh
            then cbind (sdsempty env) (\<lambda>nb. cbind (c_assert (nb \<noteq> None)) (\<lambda>_. Ok (r\<lparr>r_buf := nb, r_pos := 0\<rparr>)))
            else Ok r)
       else Ok r)"
  have "\<exists>b p. refresh = Ok (r\<lparr>r_buf := b, r_pos := p\<rparr>) \<and> p \<le> r_pos r \<and>
      buffer_at u (r\<lparr>r_buf := b, r_pos := p\<rparr>)"
  proof (cases "r_len r = 0 \<and> r_maxbuf r \<noteq> 0 \<and> (\<exists>sh. r_buf r = Some sh \<and> r_maxbuf r < sdsavail sh)")
    case True
    have "refresh = Ok (r\<lparr>r_buf := Some (sds_of [] []), r_pos := 0\<rparr>)"
      using True env by (auto simp: refresh_def sdsempty_eq)
    moreover have "0 \<le> r_pos r" "u = []" using True buf buffer_empty [OF buf] by simp_all
    moreover have "buffer_at [] (r\<lparr>r_buf := Some (sds_of [] []), r_pos := 0\<rparr>)"
      using True sds_repI [of "[]" "[]"] by (auto simp: buffer_at_def)
    ultimately show ?thesis by blast
  next
    case False
    then have "refresh = Ok r" using buf by (auto simp: refresh_def elim!: buffer_atE)
    then show ?thesis
      using buf by (intro exI [of _ "r_buf r"] exI [of _ "r_pos r"]) simp
  qed
  then obtain bf p where rf: "refresh = Ok (r\<lparr>r_buf := bf, r_pos := p\<rparr>)" and p: "p \<le> r_pos r"
    and buf': "buffer_at u (r\<lparr>r_buf := bf, r_pos := p\<rparr>)" by blast
  let ?r = "r\<lparr>r_buf := bf, r_pos := p\<rparr>"
  have st': "reader_state h0 fs ty u ?r"
    using reader_state_buf [OF st, where v = u and b = bf and p = p and l = "r_len r"] buf' by simp
  from buf' obtain sh pre where sh: "bf = Some sh" "sds_rep sh (pre @ u)" "p = int (length pre)"
    "r_len r = int (length pre + length u)" by (auto simp: buffer_at_def)
  have "length (pre @ u) + n < 2 ^ 30" using sh lim by simp
  note cat = sds_string.cat_rep [OF sh(2) n this, of env]
  have "redisReaderFeed env r (Some b) (int n) =
      cbind refresh (\<lambda>r. cbind (sdscatlen env (r_buf r) b (int n)) (\<lambda>nb. case nb of
          None \<Rightarrow> cbind (redisReaderSetErrorOOM r) (\<lambda>r. Ok (REDIS_ERR, r))
        | Some sh' \<Rightarrow> Ok (REDIS_OK, r\<lparr>r_buf := Some sh', r_len := sdslen sh'\<rparr>)))"
    using False err by (simp add: redisReaderFeed_def refresh_def)
  then have eq: "redisReaderFeed env r (Some b) (int n) =
      cbind (sdscatlen env (Some sh) b (int n)) (\<lambda>nb. case nb of
          None \<Rightarrow> cbind (redisReaderSetErrorOOM ?r) (\<lambda>r. Ok (REDIS_ERR, r))
        | Some sh' \<Rightarrow> Ok (REDIS_OK, ?r\<lparr>r_buf := Some sh', r_len := sdslen sh'\<rparr>))"
    using rf sh(1) by (simp cong: option.case_cong)
  show ?thesis
    unfolding eq runs_cbind
  proof (rule runs_mono [OF cat])
    fix nb
    assume res: "case nb of None \<Rightarrow> \<not> grants_all env | Some s' \<Rightarrow> sds_rep s' ((pre @ u) @ take n b)"
    show "runs (case nb of None \<Rightarrow> cbind (redisReaderSetErrorOOM ?r) (\<lambda>r. Ok (REDIS_ERR, r))
        | Some sh' \<Rightarrow> Ok (REDIS_OK, ?r\<lparr>r_buf := Some sh', r_len := sdslen sh'\<rparr>))
      (feed_post env h0 fs ty (u @ take n b) (r_pos r))"
    proof (cases nb)
      case None
      have "runs (redisReaderSetErrorOOM ?r) (failed h0 REDIS_ERR_OOM ''Out of memory'')"
        unfolding redisReaderSetErrorOOM_def
        by (rule redisReaderSetError_refines [OF reader_state_troubled [OF st']])
      with None res show ?thesis
        by (auto simp: feed_post_def out_of_memory_def cr_simps elim!: runs_mono)
    next
      case (Some sh')
      have "buffer_at (u @ take n b) (r\<lparr>r_buf := Some sh', r_pos := p, r_len := sdslen sh'\<rparr>)"
        using res Some sh lim n sds_string.rep_len [of sh' "pre @ u @ take n b"] by (auto simp: buffer_at_def)
      then have "reader_state h0 fs ty (u @ take n b) (r\<lparr>r_buf := Some sh', r_pos := p, r_len := sdslen sh'\<rparr>)"
        by (rule reader_state_buf [OF st])
      moreover have eq: "r\<lparr>r_pos := p, r_buf := Some sh', r_len := sdslen sh'\<rparr> =
          r\<lparr>r_buf := Some sh', r_pos := p, r_len := sdslen sh'\<rparr>"
        by (rule redisReader.equality) simp_all
      ultimately show ?thesis
        using Some p by (simp add: feed_post_def eq)
    qed
  qed
qed

text \<open>Creation, and what releasing the reader leaves.\<close>

lemma redisReaderCreate_refines:
  assumes "fresh h" and "redisReaderCreate env h = Ok (Some r)"
  shows "reader_state h [] (- 1) [] r \<and> r_len r = 0 \<and> r_pos r = 0"
  using assms sds_repI [of "[]" "[]"]
  by (auto simp: redisReaderCreate_def sdsempty_eq reader_state_def reader_idle_def buffer_at_def
      split: if_splits)

lemma redisReaderFree_refines:
  assumes "reader_state h0 fs ty u r"
  shows "runs (redisReaderFree r) (\<lambda>h. rs_map h = rs_map h0)"
proof -
  have tr: "troubled h0 fs r" using assms by (rule reader_state_troubled)
  show ?thesis
  proof (cases "fs = []")
    case True
    with tr show ?thesis by (simp add: redisReaderFree_def troubled_def root_of_def)
  next
    case False
    with tr free_open [of fs h0 "r_store r"] show ?thesis
      by (auto simp: redisReaderFree_def troubled_def root_of_def fresh_def)
  qed
qed

end
