(* ===== verification/Resp_Stream.thy ===== *)
theory Resp_Stream
  imports Resp_Refine
begin

text \<open>
  The reader over a stream: chunks are fed as they arrive and every complete reply is taken
  out, as the client does. The properties of the reader stand here: what is read is what was
  written, however the input is cut; errors and refused allocations release everything; and
  the inputs on which the C code leaves its defined behaviour.
\<close>

section \<open>Reading a stream\<close>

text \<open>
  How a client uses the reader: feed a chunk, then take replies until there is none. The fuel
  bounds the number of replies in a chunk.
\<close>

fun read_all :: "nat \<Rightarrow> cenv \<Rightarrow> redisReader \<Rightarrow> (nat list \<times> redisReader) cr" where
  "read_all 0 env r = Flt Diverges"
| "read_all (Suc n) env r =
     cbind (redisReaderGetReply env r) (\<lambda>(st, rep, r).
     case rep of
       None \<Rightarrow> Ok ([], r)
     | Some a \<Rightarrow> cbind (read_all n env r) (\<lambda>(as, r). Ok (a # as, r)))"

fun read_chunks :: "cenv \<Rightarrow> redisReader \<Rightarrow> bytes list \<Rightarrow> (nat list \<times> redisReader) cr" where
  "read_chunks env r [] = Ok ([], r)"
| "read_chunks env r (c # cs) =
     cbind (redisReaderFeed env r (Some c) (int (length c))) (\<lambda>(st, r).
     if st \<noteq> REDIS_OK then Ok ([], r)
     else
       cbind (read_all (Suc (nat (r_len r))) env r) (\<lambda>(as, r).
       if r_err r \<noteq> 0 then Ok (as, r)
       else cbind (read_chunks env r cs) (\<lambda>(as', r). Ok (as @ as', r))))"

lemma store_layouts:
  "store_of (store_of h (layout (rs_next h) t))
     (layouts (rs_next (store_of h (layout (rs_next h) t))) ts) =
   store_of h (layouts (rs_next h) (t # ts))"
  by (simp add: store_of_store_of)

lemma getReply_grants:
  assumes "reader_state h fs ty u r" and "prun fs ty u \<noteq> Undef" and "grants_all env"
  shows "runs (redisReaderGetReply env r) (reply_refines h (prun fs ty u))"
  using assms(3)
  by (intro runs_mono [OF redisReaderGetReply_refines [OF assms(1,2), of env]])
    (auto simp: reply_post_def out_of_memory_def)

lemma getReply_blocked:
  assumes "reader_state h fs ty u r" and "prun fs ty u = Blocked fs' ty' u'" and "grants_all env"
  obtains r' where "redisReaderGetReply env r = Ok (REDIS_OK, None, r')"
    and "reader_state h fs' ty' u' r'" and "r_pos r' < 1024"
proof -
  from getReply_grants [OF assms(1) _ assms(3)] assms(2)
  obtain x where "redisReaderGetReply env r = Ok x" "reply_refines h (Blocked fs' ty' u') x"
    by (auto elim: runsE)
  then show thesis by (cases x) (auto intro: that)
qed

lemma getReply_done:
  assumes "reader_state h fs ty u r" and "prun fs ty u = Done t u'" and "grants_all env"
  obtains r' where "redisReaderGetReply env r = Ok (REDIS_OK, Some (rs_next h), r')"
    and "reader_state (store_of h (layout (rs_next h) t)) [] (- 1) u' r'" and "r_pos r' < 1024"
proof -
  from getReply_grants [OF assms(1) _ assms(3)] assms(2)
  obtain x where "redisReaderGetReply env r = Ok x" "reply_refines h (Done t u') x"
    by (auto elim: runsE)
  then show thesis by (cases x) (auto intro: that)
qed

lemma read_all_refines:
  assumes "reader_state h fs ty u r" and "drain fs ty u = (ts, Blocked fs' ty' u')"
    and "grants_all env" and "length u < n"
  shows "\<exists>r'. read_all n env r = Ok (addrs (rs_next h) ts, r') \<and>
           reader_state (store_of h (layouts (rs_next h) ts)) fs' ty' u' r' \<and> r_pos r' < 1024"
  using assms
proof (induction fs ty u arbitrary: h r ts n rule: drain.induct)
  case (1 fs ty u)
  from \<open>length u < n\<close> obtain m where n: "n = Suc m" by (cases n) auto
  show ?case
  proof (cases "prun fs ty u")
    case (Done t v)
    obtain us where us: "drain [] (- 1) v = (us, Blocked fs' ty' u')" "ts = t # us"
      using "1.prems"(2) Done by (auto simp: drain.simps [of fs ty u] split: prod.splits)
    obtain r1 where get: "redisReaderGetReply env r = Ok (REDIS_OK, Some (rs_next h), r1)"
      and st: "reader_state (store_of h (layout (rs_next h) t)) [] (- 1) v r1"
      using getReply_done [OF "1.prems"(1) Done "1.prems"(3)] by blast
    have "length v < m" using prun_consumes [OF Done] "1.prems"(4) n by simp
    from "1.IH" [OF Done st us(1) "1.prems"(3) this] show ?thesis
      using get by (auto simp: n us store_of_store_of)
  next
    case (Blocked fs1 ty1 u1)
    then have eq: "fs1 = fs'" "ty1 = ty'" "u1 = u'" "ts = []"
      using "1.prems"(2) by (auto simp: drain.simps [of fs ty u])
    obtain r1 where "redisReaderGetReply env r = Ok (REDIS_OK, None, r1)"
      "reader_state h fs1 ty1 u1 r1" "r_pos r1 < 1024"
      using getReply_blocked [OF "1.prems"(1) Blocked "1.prems"(3)] by blast
    then show ?thesis by (simp add: n eq)
  qed (use "1.prems"(2) in \<open>simp_all add: drain.simps [of fs ty u]\<close>)
qed

lemma item_blocked_len: "item fs ty u = Blocked fs' ty' u' \<Longrightarrow> length u' \<le> length u"
  by (auto simp: item_def split: if_splits list.splits option.splits dest!: typed_item_blocked)

lemma prun_blocked_len: "prun fs ty u = Blocked fs' ty' u' \<Longrightarrow> length u' \<le> length u"
proof (induction fs ty u rule: prun.induct)
  case (1 fs ty u)
  show ?case
  proof (cases "item fs ty u")
    case (Next fs1 u1)
    then show ?thesis
      using 1 item_consumes(1) [OF Next] by (simp add: prun.simps [of fs ty u])
  qed (use 1 item_blocked_len in \<open>auto simp: prun.simps [of fs ty u]\<close>)
qed

lemma drain_blocked_len: "drain fs ty u = (ts, Blocked fs' ty' u') \<Longrightarrow> length u' \<le> length u"
proof (induction fs ty u arbitrary: ts rule: drain.induct)
  case (1 fs ty u)
  show ?case
  proof (cases "prun fs ty u")
    case (Done t v)
    obtain us where "drain [] (- 1) v = (us, Blocked fs' ty' u')"
      using "1.prems" Done by (auto simp: drain.simps [of fs ty u] split: prod.splits)
    from "1.IH" [OF Done this] prun_consumes [OF Done] show ?thesis by simp
  qed (use "1.prems" prun_blocked_len in \<open>auto simp: drain.simps [of fs ty u]\<close>)
qed

text \<open>A machine that stopped for want of input stays stopped.\<close>

lemma drain_blocked_again:
  assumes "drain fs ty u = (ts, Blocked fs' ty' u')"
  shows "drain fs' ty' u' = ([], Blocked fs' ty' u')"
  using drain_append [of fs ty u "[]"] assms
  by (cases "drain fs' ty' u'") (auto split: prod.splits)

lemma drain_append_blocked:
  assumes "drain fs ty (u @ v) = (ts, Blocked fs' ty' u')"
  obtains ts1 ts2 f1 ty1 u1 where "drain fs ty u = (ts1, Blocked f1 ty1 u1)"
    and "drain f1 ty1 (u1 @ v) = (ts2, Blocked fs' ty' u')" and "ts = ts1 @ ts2"
proof -
  obtain ts1 out where d: "drain fs ty u = (ts1, out)" by fastforce
  then obtain f1 ty1 u1 where "out = Blocked f1 ty1 u1"
    using assms drain_append [of fs ty u v] by (cases out) auto
  with assms d that show thesis
    using drain_append [of fs ty u v] by (auto split: prod.splits)
qed

lemma addrs_layouts_append:
  "addrs (rs_next h) ts1 @ addrs (rs_next (store_of h (layouts (rs_next h) ts1))) ts2 =
   addrs (rs_next h) (ts1 @ ts2)"
  "store_of (store_of h (layouts (rs_next h) ts1)) (layouts (rs_next (store_of h (layouts (rs_next h) ts1))) ts2) =
   store_of h (layouts (rs_next h) (ts1 @ ts2))"
  by (simp_all add: addrs_append layouts_append store_of_store_of)

lemma read_chunks_refines:
  assumes "reader_state h fs ty u r" and "drain fs ty u = ([], Blocked fs ty u)"
    and "drain fs ty (u @ concat cs) = (ts, Blocked fs' ty' u')"
    and "grants_all env" and "length u + length (concat cs) < 2 ^ 29" and "r_pos r < 1024"
  shows "\<exists>r'. read_chunks env r cs = Ok (addrs (rs_next h) ts, r') \<and>
           reader_state (store_of h (layouts (rs_next h) ts)) fs' ty' u' r'"
  using assms
proof (induction cs arbitrary: h fs ty u r ts)
  case Nil
  then show ?case by simp
next
  case (Cons c cs)
  have "drain fs ty ((u @ c) @ concat cs) = (ts, Blocked fs' ty' u')"
    using Cons.prems(3) by simp
  then obtain ts1 ts2 f1 ty1 u1 where d1: "drain fs ty (u @ c) = (ts1, Blocked f1 ty1 u1)"
    and d2: "drain f1 ty1 (u1 @ concat cs) = (ts2, Blocked fs' ty' u')" and ts: "ts = ts1 @ ts2"
    by (rule drain_append_blocked)
  have lim: "r_len r + int (length c) < 2 ^ 30"
    using reader_state_len [OF Cons.prems(1)] Cons.prems(5,6) by simp
  have "runs (redisReaderFeed env r (Some c) (int (length c)))
      (feed_post env h fs ty (u @ take (length c) c) (r_pos r))"
    using Cons.prems(1,4) lim by (intro redisReaderFeed_refines) auto
  then obtain r1 where feed: "redisReaderFeed env r (Some c) (int (length c)) = Ok (REDIS_OK, r1)"
    and st1: "reader_state h fs ty (u @ c) r1" and p1: "r_pos r1 \<le> r_pos r"
    using Cons.prems(4) by (auto simp: feed_post_def out_of_memory_def elim!: runsE)
  have "length (u @ c) < Suc (nat (r_len r1))"
    using reader_state_len [OF st1] reader_state_buffer [OF st1] by (auto elim!: buffer_atE)
  from read_all_refines [OF st1 d1 Cons.prems(4) this] obtain r2 where
    all: "read_all (Suc (nat (r_len r1))) env r1 = Ok (addrs (rs_next h) ts1, r2)"
    and st2: "reader_state (store_of h (layouts (rs_next h) ts1)) f1 ty1 u1 r2" and p2: "r_pos r2 < 1024"
    by blast
  have "length u1 + length (concat cs) < 2 ^ 29"
    using drain_blocked_len [OF d1] Cons.prems(5) by simp
  from Cons.IH [OF st2 drain_blocked_again [OF d1] d2 Cons.prems(4) this p2] obtain r3 where
    rest: "read_chunks env r2 cs = Ok (addrs (rs_next (store_of h (layouts (rs_next h) ts1))) ts2, r3)"
    and st3: "reader_state (store_of h (layouts (rs_next h) ts)) fs' ty' u' r3"
    unfolding addrs_layouts_append ts by blast
  show ?case
    using feed all rest st3 reader_state_buffer [OF st2] addrs_layouts_append(1) [of h ts1 ts2] ts
    by (simp del: read_all.simps store_of_next)
qed


section \<open>Correctness of the reader\<close>

definition empty_store :: rstore where
  "empty_store = \<lparr>rs_map = (\<lambda>_. None), rs_next = 0\<rparr>"

lemma fresh_empty_store [simp]: "fresh empty_store" "rs_next empty_store = 0"
  by (simp_all add: fresh_def empty_store_def)

lemma create_grants:
  assumes "grants_all env"
  shows "redisReaderCreate env h = Ok (Some \<lparr>r_err = 0, r_errstr = [], r_buf = Some (sds_of [] []),
    r_pos = 0, r_len = 0, r_maxbuf = REDIS_READER_MAX_BUF, r_rstack = replicate 9 task_zero,
    r_ridx = - 1, r_reply = None, r_store = h\<rparr>)"
  using assms by (simp add: redisReaderCreate_def sdsempty_eq)

definition sample_reader :: redisReader where
  "sample_reader = \<lparr>r_err = 0, r_errstr = [], r_buf = Some (sds_of [] []),
    r_pos = 0, r_len = 0, r_maxbuf = REDIS_READER_MAX_BUF, r_rstack = replicate 9 task_zero,
    r_ridx = - 1, r_reply = None, r_store = empty_store\<rparr>"

lemma sample_create: "redisReaderCreate libc_env empty_store = Ok (Some sample_reader)"
  by (simp add: create_grants sample_reader_def)

lemma created_reader_state:
  assumes "redisReaderCreate env h = Ok (Some r)" and "fresh h" and "grants_all env"
    and "drain [] (- 1) (concat cs) = (ts, Blocked fs ty u)" and "length (concat cs) < 2 ^ 29"
  shows "\<exists>r'. read_chunks env r cs = Ok (addrs (rs_next h) ts, r') \<and>
           reader_state (store_of h (layouts (rs_next h) ts)) fs ty u r'"
proof -
  have "reader_state h [] (- 1) [] r" "r_pos r = 0"
    using redisReaderCreate_refines [OF assms(2,1)] by auto
  moreover have "drain [] (- 1) [] = ([], Blocked [] (- 1) [])"
    by (simp add: drain.simps prun.simps item_def)
  ultimately show ?thesis
    using read_chunks_refines [of h "[]" "- 1" "[]" r cs ts fs ty u env] assms by simp
qed

lemma reader_state_store:
  "reader_state h fs ty u r \<Longrightarrow> r_store r = store_of h (seg (rs_next h) fs None)"
  by (auto simp: reader_state_def reader_at_def reader_core_def reader_idle_def)

text \<open>
  C24. What was encoded is read back: replies written one after the other in the protocol, cut into
  chunks anywhere, come out of a new reader in order, and the store holds exactly their
  objects, with nothing left open.
\<close>

theorem reader_stream_roundtrip:
  assumes "grants_all env" and "fresh h" and "redisReaderCreate env h = Ok (Some r)"
    and "\<forall>t\<in>set ts. wf_resp 0 t" and "concat cs = concat (map encode ts)"
    and "length (concat cs) < 2 ^ 29"
  shows "\<exists>r'. read_chunks env r cs = Ok (addrs (rs_next h) ts, r') \<and>
           r_store r' = store_of h (layouts (rs_next h) ts) \<and> r_err r' = 0"
proof -
  have "drain [] (- 1) (concat cs) = (ts, Blocked [] (- 1) [])"
    using assms(4,5) by (simp add: drain_encode)
  from created_reader_state [OF assms(3,2,1) this assms(6)] show ?thesis
    using reader_state_store reader_state_buffer by fastforce
qed

lemma three: "Suc (Suc (Suc 0)) = 3"
  by simp

lemma char_digits [simp]:
  "digit_char 0 = CHR ''0''" "digit_char 1 = CHR ''1''" "digit_char 2 = CHR ''2''"
  "digit_char 3 = CHR ''3''" "digit_char 7 = CHR ''7''" "digit_char (Suc 0) = CHR ''1''"
  by code_simp+

theorem reader_stream_roundtrip_witness:
  "\<exists>r'. read_chunks libc_env sample_reader
          [''*2'', [CR], [LF] @ '':7'' @ crlf @ ''$3'' @ crlf @ ''GE'', ''T'' @ crlf, ''$-1'' @ crlf] =
          Ok ([0, 3], r') \<and>
        r_store r' = store_of empty_store (layouts 0 [RArray [RInteger 7, RString ''GET''], RNil]) \<and>
        r_err r' = 0"
  using reader_stream_roundtrip [OF grants_all_libc_env fresh_empty_store(1) sample_create,
      of "[RArray [RInteger 7, RString ''GET''], RNil]"
         "[''*2'', [CR], [LF] @ '':7'' @ crlf @ ''$3'' @ crlf @ ''GE'', ''T'' @ crlf, ''$-1'' @ crlf]"]
  by (simp add: crlf_def int_dec_def nat_dec_small three del: read_chunks.simps)

text \<open>
  C26. The way the network cuts the input does not matter, for any input in the defined range:
  two ways of cutting it give the same replies at the same addresses and the same store, with
  the same arrays still open.
\<close>

theorem reader_chunks_irrelevant:
  assumes "grants_all env" and "fresh h" and "redisReaderCreate env h = Ok (Some r)"
    and "concat cs = concat cs'" and "length (concat cs) < 2 ^ 29"
    and "drain [] (- 1) (concat cs) = (ts, Blocked fs ty u)"
  shows "\<exists>r1 r2. read_chunks env r cs = Ok (addrs (rs_next h) ts, r1) \<and>
           read_chunks env r cs' = Ok (addrs (rs_next h) ts, r2) \<and> r_store r1 = r_store r2"
  using created_reader_state [OF assms(3,2,1) assms(6,5)]
    created_reader_state [OF assms(3,2,1), of cs' ts fs ty u] assms(4-6) reader_state_store
  by fastforce

theorem reader_chunks_irrelevant_witness:
  "\<exists>r1 r2. read_chunks libc_env sample_reader ['':7'' @ crlf @ ''*2'' @ crlf @ ''+A''] = Ok ([0], r1) \<and>
     read_chunks libc_env sample_reader ['':7'' @ crlf, ''*2'', crlf @ ''+'', ''A''] = Ok ([0], r2) \<and>
     r_store r1 = r_store r2"
proof -
  have "drain [] (- 1) (concat ['':7'' @ crlf @ ''*2'' @ crlf @ ''+A'']) =
      ([RInteger 7], Blocked [(2, [])] REDIS_REPLY_STATUS ''A'')"
    by code_simp
  from reader_chunks_irrelevant [OF grants_all_libc_env fresh_empty_store(1) sample_create _ _ this,
      of "['':7'' @ crlf, ''*2'', crlf @ ''+'', ''A'']"]
  show ?thesis by (simp add: crlf_def)
qed

text \<open>
  C25. \<open>redisReaderGetReply\<close> implements the abstract parser: from any state and on any input in the
  defined range it returns (no fault, no endless loop) what the parser says, a reply, nothing
  yet, or the protocol error, whatever the allocator does; the only other outcome is a refused
  allocation, reported as such.
\<close>

theorem getReply_implements_parser:
  assumes "reader_state h fs ty u r" and "prun fs ty u \<noteq> Undef"
  shows "runs (redisReaderGetReply env r) (\<lambda>x.
           reply_refines h (prun fs ty u) x \<or>
           \<not> grants_all env \<and> fst x = REDIS_ERR \<and> fst (snd x) = None \<and>
           r_err (snd (snd x)) = REDIS_ERR_OOM)"
  using redisReaderGetReply_refines [OF assms, of env]
  by (rule runs_mono) (auto simp: reply_post_def out_of_memory_def failed_def)

lemma sample_state: "reader_state empty_store [] (- 1) [] sample_reader"
  using redisReaderCreate_refines [OF fresh_empty_store(1) sample_create] by simp

text \<open>The same reader after bytes arrived.\<close>

lemma sample_fed:
  assumes "0 < length b" and "length b < 2 ^ 29"
  obtains r where "redisReaderFeed libc_env sample_reader (Some b) (int (length b)) = Ok (REDIS_OK, r)"
    and "reader_state empty_store [] (- 1) b r"
proof -
  have "runs (redisReaderFeed libc_env sample_reader (Some b) (int (length b)))
      (feed_post libc_env empty_store [] (- 1) ([] @ take (length b) b) (r_pos sample_reader))"
    using assms by (intro redisReaderFeed_refines [OF sample_state])
      (simp_all add: sample_reader_def libc_env_def)
  then show thesis
    using that by (auto simp: feed_post_def out_of_memory_def elim!: runsE)
qed

theorem getReply_implements_parser_witness:
  "\<exists>r r'. redisReaderFeed libc_env sample_reader (Some ('':7'' @ crlf)) 4 = Ok (REDIS_OK, r) \<and>
     redisReaderGetReply libc_env r = Ok (REDIS_OK, Some 0, r')"
proof -
  obtain r where fed: "redisReaderFeed libc_env sample_reader (Some ('':7'' @ crlf)) 4 = Ok (REDIS_OK, r)"
    and st: "reader_state empty_store [] (- 1) ('':7'' @ crlf) r"
    using sample_fed [of "'':7'' @ crlf"] by (auto simp: crlf_def)
  have out: "prun [] (- 1) ('':7'' @ crlf) = Done (RInteger 7) []" by code_simp
  with getReply_implements_parser [OF st, of libc_env] obtain x
    where x: "redisReaderGetReply libc_env r = Ok x" "reply_refines empty_store (Done (RInteger 7) []) x"
    by (auto elim: runsE)
  then have "\<exists>r'. x = (REDIS_OK, Some 0, r')" by (cases x) auto
  with fed x(1) show ?thesis by auto
qed


text \<open>
  C27. An error, protocol or memory, leaves nothing behind and is final: the partial reply is
  released to the last object, and every later call reports the error again without effect.
\<close>

theorem getReply_error_releases:
  assumes "reader_state h fs ty u r" and "prun fs ty u \<noteq> Undef"
  shows "runs (redisReaderGetReply env r) (\<lambda>(st, rep, r').
           st = REDIS_ERR \<longrightarrow>
             rep = None \<and> r_reply r' = None \<and> r_buf r' = None \<and> rs_map (r_store r') = rs_map h \<and>
             (\<forall>b n. redisReaderFeed env r' b n = Ok (REDIS_ERR, r')) \<and>
             redisReaderGetReply env r' = Ok (REDIS_ERR, None, r'))"
proof (rule runs_mono [OF redisReaderGetReply_refines [OF assms, of env]], clarify)
  fix rep r'
  assume post: "reply_post env h (prun fs ty u) (REDIS_ERR, rep, r')"
  then obtain e m where "rep = None" "failed h e m r'" "e = REDIS_ERR_PROTOCOL \<or> e = REDIS_ERR_OOM"
    by (cases "prun fs ty u") (auto simp: reply_post_def out_of_memory_def redis_status)
  then show "rep = None \<and> r_reply r' = None \<and> r_buf r' = None \<and> rs_map (r_store r') = rs_map h \<and>
      (\<forall>b n. redisReaderFeed env r' b n = Ok (REDIS_ERR, r')) \<and>
      redisReaderGetReply env r' = Ok (REDIS_ERR, None, r')"
    by (auto simp: failed_def redisReaderFeed_def redisReaderGetReply_def REDIS_ERR_PROTOCOL_def
        REDIS_ERR_OOM_def)
qed

theorem getReply_error_releases_witness:
  "\<exists>r r'. redisReaderFeed libc_env sample_reader (Some (''*2'' @ crlf @ '':7'' @ crlf @ ''?'')) 9 = Ok (REDIS_OK, r) \<and>
     redisReaderGetReply libc_env r = Ok (REDIS_ERR, None, r') \<and> rs_map (r_store r') = rs_map empty_store"
proof -
  obtain r where fed: "redisReaderFeed libc_env sample_reader (Some (''*2'' @ crlf @ '':7'' @ crlf @ ''?'')) 9 = Ok (REDIS_OK, r)"
    and st: "reader_state empty_store [] (- 1) (''*2'' @ crlf @ '':7'' @ crlf @ ''?'') r"
    using sample_fed [of "''*2'' @ crlf @ '':7'' @ crlf @ ''?''"] by (auto simp: crlf_def)
  have out: "prun [] (- 1) (''*2'' @ crlf @ '':7'' @ crlf @ ''?'') = Bad (bad_type_msg CHR ''?'')" by code_simp
  from getReply_grants [OF st _ grants_all_libc_env] obtain r'
    where "redisReaderGetReply libc_env r = Ok (REDIS_ERR, None, r')"
    unfolding out by (auto elim!: runsE)
  with getReply_error_releases [OF st, of libc_env] fed show ?thesis
    unfolding out by auto
qed

text \<open>A header of an array that opens, below the limit.\<close>

lemma item_array:
  assumes "length fs \<noteq> 8" and "line_number l = Some (int n)" and "CR \<notin> set l" and "0 < n" and "n < 2 ^ 31"
  shows "item fs (- 1) (CHR ''*'' # l @ crlf @ u) = Next ((n, []) # fs) u"
proof -
  have "find_crlf (l @ crlf @ u) = Some (length l)" using assms(3) by (intro find_crlf_line find_crlf_no_CR)
  then show ?thesis
    using assms by (simp add: item_def typed_item_def multi_item_def reply_type_of_def reply_types) (simp add: crlf_def)
qed

text \<open>Headers of arrays with one element, nested.\<close>

definition headers :: "nat \<Rightarrow> bytes" where
  "headers k = concat (replicate k (''*1'' @ crlf))"

lemma prun_headers: "length fs + k \<le> 8 \<Longrightarrow> prun fs (- 1) (headers k) = Blocked (replicate k (1, []) @ fs) (- 1) []"
proof (induction k arbitrary: fs)
  case 0
  then show ?case by (simp add: headers_def prun.simps item_def)
next
  case (Suc k)
  have "line_number ''1'' = Some (int 1)" by code_simp
  then have "item fs (- 1) (CHR ''*'' # ''1'' @ crlf @ headers k) = Next ((1, []) # fs) (headers k)"
    using Suc.prems by (intro item_array) simp_all
  moreover have "headers (Suc k) = CHR ''*'' # ''1'' @ crlf @ headers k" by (simp add: headers_def)
  ultimately show ?case using Suc.IH [of "(1, []) # fs"] Suc.prems by (simp add: prun.simps [of fs] replicate_append_same)
qed

lemma headers_Suc: "headers (Suc k) = headers k @ CHR ''*'' # int_dec (int 1) @ crlf"
proof -
  have "int_dec (int 1) = ''1''" by code_simp
  then show ?thesis using replicate_append_same [of k "''*1'' @ crlf"] by (simp add: headers_def flip: replicate_append_same)
qed

lemma headers_length: "length (headers k) = 4 * k"
  by (simp add: headers_def length_concat sum_list_replicate crlf_def)

text \<open>
  C31. The limit on nested arrays, from both sides: whatever was read before, in this call or in
  earlier ones, a header that arrives where an element of the arrays \<open>fs\<close> is expected opens an array
  when fewer than eight are open, and the reader waits inside it; with eight open its first byte
  is refused with the error the code names, and nothing of the partial reply survives.
\<close>

theorem getReply_depth_limit:
  assumes "reader_state h fs0 ty (u @ CHR ''*'' # v) r" and "prun fs0 ty u = Blocked fs (- 1) []" and "grants_all env"
    and "length fs = 8 \<or> 0 < n \<and> n < 2 ^ 31 \<and> v = int_dec (int n) @ crlf"
  shows "runs (redisReaderGetReply env r) (\<lambda>(st, rep, r'). rep = None \<and>
           (if length fs = 8
            then st = REDIS_ERR \<and> r_err r' = REDIS_ERR_PROTOCOL \<and>
                 r_errstr r' = ''No support for nested multi bulk replies with depth > 7'' \<and> rs_map (r_store r') = rs_map h
            else st = REDIS_OK \<and> r_err r' = 0 \<and> reader_state h ((n, []) # fs) (- 1) [] r'))"
proof -
  have out: "prun fs0 ty (u @ CHR ''*'' # v) = prun fs (- 1) (CHR ''*'' # v)" using prun_append [of fs0 ty u "CHR ''*'' # v"] assms(2) by simp
  show ?thesis
  proof (cases "length fs = 8")
    case True
    then have bad: "prun fs (- 1) (CHR ''*'' # v) = Bad nested_msg"
      by (simp add: prun.simps item_def typed_item_def multi_item_def reply_type_of_def reply_types)
    from getReply_grants [OF assms(1) _ assms(3)] True show ?thesis
      unfolding out bad by (auto simp: failed_def nested_msg_def elim!: runs_mono)
  next
    case False
    then have n: "0 < n" "n < 2 ^ 31" and v: "v = int_dec (int n) @ crlf" using assms(4) by auto
    have "int n < 2 ^ 31" using n(2) by simp
    then have "line_number (int_dec (int n)) = Some (int n)" by (intro line_number_int_dec) simp_all
    from item_array [OF False this int_dec_no_CR n, of "[]"]
    have go: "prun fs (- 1) (CHR ''*'' # v) = prun ((n, []) # fs) (- 1) []" by (simp add: v prun.simps [of fs])
    have wait: "prun ((n, []) # fs) (- 1) [] = Blocked ((n, []) # fs) (- 1) []" by (simp add: prun.simps item_def)
    from getReply_grants [OF assms(1) _ assms(3)] False show ?thesis
      unfolding out go wait by (auto dest: reader_state_buffer elim!: runs_mono)
  qed
qed

theorem getReply_depth_limit_witness:
  "\<exists>r r1 q q1. redisReaderFeed libc_env sample_reader (Some (headers 8)) 32 = Ok (REDIS_OK, r) \<and>
     redisReaderGetReply libc_env r = Ok (REDIS_OK, None, r1) \<and> r_err r1 = 0 \<and>
     redisReaderFeed libc_env sample_reader (Some (headers 8 @ ''*'')) 33 = Ok (REDIS_OK, q) \<and>
     redisReaderGetReply libc_env q = Ok (REDIS_ERR, None, q1) \<and> r_err q1 = REDIS_ERR_PROTOCOL"
proof -
  have p: "prun [] (- 1) (headers k) = Blocked (replicate k (1, [])) (- 1) []" if "k \<le> 8" for k
    using prun_headers [of "[]" k] that by simp
  obtain r where fed: "redisReaderFeed libc_env sample_reader (Some (headers 8)) 32 = Ok (REDIS_OK, r)"
    and st: "reader_state empty_store [] (- 1) (headers 7 @ CHR ''*'' # int_dec (int 1) @ crlf) r"
    using sample_fed [of "headers 8"] headers_Suc [of 7] by (auto simp: headers_length)
  from getReply_depth_limit [OF st p grants_all_libc_env, of 1] obtain r1
    where r1: "redisReaderGetReply libc_env r = Ok (REDIS_OK, None, r1)" "r_err r1 = 0"
    by (auto simp: runs_iff)
  obtain q where q: "redisReaderFeed libc_env sample_reader (Some (headers 8 @ ''*'')) 33 = Ok (REDIS_OK, q)"
    "reader_state empty_store [] (- 1) (headers 8 @ ''*'') q"
    using sample_fed [of "headers 8 @ ''*''"] by (auto simp: headers_length)
  from getReply_depth_limit [OF q(2) p grants_all_libc_env] obtain q1
    where "redisReaderGetReply libc_env q = Ok (REDIS_ERR, None, q1)" "r_err q1 = REDIS_ERR_PROTOCOL"
    by (auto simp: runs_iff)
  with fed r1 q(1) show ?thesis by blast
qed

text \<open>
  C28. A reply taken out of the reader is released by \<open>freeReplyObject\<close> without a double or wild
  release, and the store is then as it was before the reply arrived.
\<close>

theorem reply_release_exact:
  assumes "reader_state h fs ty u r" and "prun fs ty u \<noteq> Undef"
  shows "runs (redisReaderGetReply env r) (\<lambda>(st, rep, r').
           rep \<noteq> None \<longrightarrow>
             runs (freeReplyObject (r_store r') (the rep)) (\<lambda>h'. rs_map h' = rs_map h))"
proof (rule runs_mono [OF redisReaderGetReply_refines [OF assms, of env]], clarify)
  fix st a r'
  assume post: "reply_post env h (prun fs ty u) (st, Some a, r')"
  then obtain t u' where "a = rs_next h"
    and st: "reader_state (store_of h (layout (rs_next h) t)) [] (- 1) u' r'"
    by (cases "prun fs ty u") (auto simp: reply_post_def)
  moreover have "\<forall>x\<ge>rs_next h. rs_map h x = None"
    using assms(1) by (simp add: reader_state_def fresh_def)
  ultimately show "runs (freeReplyObject (r_store r') (the (Some a))) (\<lambda>h'. rs_map h' = rs_map h)"
    using free_done [of h t] reader_state_store [OF st] by auto
qed

theorem reply_release_exact_witness:
  "\<exists>r r' h'. redisReaderFeed libc_env sample_reader (Some (''*1'' @ crlf @ '':7'' @ crlf)) 8 = Ok (REDIS_OK, r) \<and>
     redisReaderGetReply libc_env r = Ok (REDIS_OK, Some 0, r') \<and>
     freeReplyObject (r_store r') 0 = Ok h' \<and> rs_map h' = rs_map empty_store"
proof -
  obtain r where fed: "redisReaderFeed libc_env sample_reader (Some (''*1'' @ crlf @ '':7'' @ crlf)) 8 = Ok (REDIS_OK, r)"
    and st: "reader_state empty_store [] (- 1) (''*1'' @ crlf @ '':7'' @ crlf) r"
    using sample_fed [of "''*1'' @ crlf @ '':7'' @ crlf"] by (auto simp: crlf_def)
  have out: "prun [] (- 1) (''*1'' @ crlf @ '':7'' @ crlf) = Done (RArray [RInteger 7]) []" by code_simp
  from getReply_done [OF st out grants_all_libc_env] obtain r'
    where "redisReaderGetReply libc_env r = Ok (REDIS_OK, Some 0, r')" by auto
  with reply_release_exact [OF st, of libc_env] fed show ?thesis
    unfolding out by (auto elim!: runsE)
qed

text \<open>
  The reader may be released at any moment, in the middle of a reply as well: what it still
  holds of the reply goes with it, and nothing else.
\<close>

theorem reader_free_any_time:
  assumes "reader_state h fs ty u r"
  shows "runs (redisReaderFree r) (\<lambda>h'. rs_map h' = rs_map h)"
  using assms by (rule redisReaderFree_refines)

theorem reader_free_any_time_witness:
  "\<exists>h'. redisReaderFree sample_reader = Ok h' \<and> rs_map h' = rs_map empty_store"
  using reader_free_any_time [OF sample_state] by (auto elim: runsE)

text \<open>A context around the reader: an error of the reader becomes its own, and its release releases the reader.\<close>

lemma redisGetReplyFromReader_error:
  assumes "c_reader c = Some r" and "reader_state h fs ty u r" and "prun fs ty u \<noteq> Undef"
  shows "runs (redisGetReplyFromReader env strerror c) (\<lambda>(st, rep, c').
           (st = REDIS_ERR \<longrightarrow> rep = None \<and> (\<exists>r'. c_reader c' = Some r' \<and> c_err c' = r_err r' \<and> c_errstr c' = r_errstr r')) \<and>
           (st \<noteq> REDIS_ERR \<longrightarrow> c_err c' = c_err c \<and> c_errstr c' = c_errstr c))"
  unfolding redisGetReplyFromReader_def runs_cbind using assms(1)
proof (simp, intro runs_mono [OF redisReaderGetReply_refines [OF assms(2,3), of env]], clarify)
  fix st rep r'
  assume post: "reply_post env h (prun fs ty u) (st, rep, r')"
  show "runs (let c = c\<lparr>c_reader := Some r'\<rparr> in
      if st = REDIS_ERR then cbind (redisSetError strerror c (r_err r') (Some (r_errstr r'))) (\<lambda>c. Ok (REDIS_ERR, rep, c))
      else Ok (REDIS_OK, rep, c)) (\<lambda>(st, rep, c').
           (st = REDIS_ERR \<longrightarrow> rep = None \<and> (\<exists>r'. c_reader c' = Some r' \<and> c_err c' = r_err r' \<and> c_errstr c' = r_errstr r')) \<and>
           (st \<noteq> REDIS_ERR \<longrightarrow> c_err c' = c_err c \<and> c_errstr c' = c_errstr c))"
    using post by (cases "prun fs ty u")
      (auto simp: reply_post_def out_of_memory_def failed_def redisSetError_def redis_status Let_def)
qed

lemma redisFree_releases:
  assumes "c_reader c = Some r" and "reader_state h fs ty u r"
  shows "runs (redisFree c) (\<lambda>(fds, h'). fds = (if 0 < c_fd c then [c_fd c] else []) \<and> map_option rs_map h' = Some (rs_map h))"
  using redisReaderFree_refines [OF assms(2)] assms(1) by (auto simp: redisFree_def Let_def runs_cbind elim!: runs_mono)

text \<open>
  Integers survive the wire: \<open>readLongLong\<close> on the decimal text of any number between
  \<open>LLONG_MIN\<close> (exclusive) and \<open>LLONG_MAX\<close> returns that number.
\<close>

theorem readLongLong_decimal:
  assumes "LLONG_MIN < i" and "i \<le> LLONG_MAX"
  shows "readLongLong (int_dec i @ CR # s) = Ok i"
  using assms by (intro readLongLong_int_dec) (simp_all add: LLONG_MIN_def LLONG_MAX_def)

theorem readLongLong_decimal_witness: "readLongLong (''-42'' @ crlf) = Ok (- 42)"
proof -
  have "int_dec (- 42) = ''-42''" by code_simp
  with readLongLong_decimal [of "- 42" "[LF]"] show ?thesis
    by (simp add: LLONG_MIN_def LLONG_MAX_def crlf_def)
qed

text \<open>
  The one number left out is a defect: the text of \<open>LLONG_MIN\<close>, which a server may send,
  overflows, because the digits are gathered as a positive number and negated last.
\<close>

theorem readLongLong_min_overflows:
  "readLongLong (''-9223372036854775808'' @ crlf) = Flt SignedOverflow"
  by code_simp

end
