(* ===== verification/Snail_Reply.thy ===== *)
theory Snail_Reply
  imports Cb_Tree Resp_Stream
begin

text \<open>
  From replies to Lua values: \<open>push_reply\<close>, \<open>push_sub_reply\<close> and the error table of
  \<open>src/src/crazysnail.c\<close>, over the store of reply objects. On a reply as the reader lays it out
  they give \<open>to_lua\<close> and \<open>to_sub\<close> of the abstract reply.
\<close>

section \<open>The code\<close>

text \<open>The contents of a zero-terminated string.\<close>

definition c_string :: "bytes \<Rightarrow> bytes cr" where
  "c_string b = cbind (c_strlen b) (\<lambda>n. mem_read b 0 n)"

definition KEY_EVENT :: bytes where "KEY_EVENT = ''__keyevent@0__:''"
definition KEY_SPACE :: bytes where "KEY_SPACE = ''__keyspace@0__:''"
definition TIMER_EVENT :: bytes where "TIMER_EVENT = ''__timer@0__:''"

text \<open>\<open>lua_pushfstring\<close> writes "(null)" for a NULL string.\<close>

definition luv_push_async_error_raw :: "bytes option \<Rightarrow> bytes \<Rightarrow> bytes \<Rightarrow> bytes option \<Rightarrow> lua" where
  "luv_push_async_error_raw code msg source path =
     (let c = (case code of None \<Rightarrow> ''(null)'' | Some c \<Rightarrow> c) in
      case path of
        Some p \<Rightarrow> LError code (c @ '', '' @ msg @ '' '' @ [CHR 0x27] @ p @ [CHR 0x27]) source path
      | None \<Rightarrow> LError code (c @ '', '' @ msg) source path)"

definition push_text :: "redisReply \<Rightarrow> lua cr" where
  "push_text r =
     cbind (deref (rr_str r)) (\<lambda>s. cbind (mem_read s 0 (rr_len r)) (\<lambda>t. Ok (LStr t)))"

definition push_error :: "redisReply \<Rightarrow> lua cr" where
  "push_error r =
     cbind (deref (rr_str r)) (\<lambda>s.
     cbind (c_string s) (\<lambda>msg. Ok (luv_push_async_error_raw None msg ''push_reply'' None)))"

text \<open>The elements of an array, stored from index \<open>i\<close> on.\<close>

fun push_elements :: "(nat \<Rightarrow> lua cr) \<Rightarrow> int \<Rightarrow> nat option list \<Rightarrow> (int \<times> lua) list cr" where
  "push_elements f i [] = Ok []"
| "push_elements f i (p # ps) =
     cbind (deref p) (\<lambda>a.
     cbind (f a) (\<lambda>v.
     cbind (push_elements f (i + 1) ps) (\<lambda>vs. Ok ((i, v) # vs))))"

text \<open>The element vector of an array reply, as far as the loop reads it.\<close>

definition reply_elements :: "redisReply \<Rightarrow> nat option list cr" where
  "reply_elements r =
     (if rr_elements r = 0 then Ok []
      else cbind (deref (rr_element r)) (\<lambda>el.
           if int (length el) < rr_elements r then Flt OutOfBounds
           else Ok (take (nat (rr_elements r)) el)))"

text \<open>The fuel bounds the depth of the recursion by the number of addresses ever used.\<close>

fun push_reply :: "nat \<Rightarrow> rstore \<Rightarrow> nat \<Rightarrow> lua cr" where
  "push_reply 0 h a = Flt StackOverflow"
| "push_reply (Suc n) h a =
     cbind (rs_load h a) (\<lambda>r.
     if rr_type r = REDIS_REPLY_ERROR then push_error r
     else if rr_type r = REDIS_REPLY_STATUS then push_text r
     else if rr_type r = REDIS_REPLY_INTEGER then Ok (LNum (rr_integer r))
     else if rr_type r = REDIS_REPLY_NIL then Ok LNil
     else if rr_type r = REDIS_REPLY_STRING then push_text r
     else if rr_type r = REDIS_REPLY_ARRAY
     then cbind (reply_elements r) (\<lambda>el.
          cbind (push_elements (push_reply n h) 1 el) (\<lambda>vs. Ok (LTable vs)))
     else Flt LuaPanic)"

definition push_suffix :: "bytes \<Rightarrow> int \<Rightarrow> int \<Rightarrow> lua cr" where
  "push_suffix s off len = cbind (mem_read s off (len - off)) (\<lambda>t. Ok (LStr t))"

definition push_sub_text :: "redisReply \<Rightarrow> lua cr" where
  "push_sub_text r =
     cbind (deref (rr_str r)) (\<lambda>s.
     cbind (c_string s) (\<lambda>c.
     if c_strncmp c KEY_SPACE (length KEY_SPACE) = 0
     then push_suffix s (int (length KEY_SPACE)) (rr_len r)
     else if c_strncmp c KEY_EVENT (length KEY_EVENT) = 0
     then push_suffix s (int (length KEY_EVENT)) (rr_len r)
     else push_text r))"

text \<open>The first element of every array is left out (\<open>tweak\<close> is always true).\<close>

fun push_sub_reply :: "nat \<Rightarrow> rstore \<Rightarrow> nat \<Rightarrow> lua cr" where
  "push_sub_reply 0 h a = Flt StackOverflow"
| "push_sub_reply (Suc n) h a =
     cbind (rs_load h a) (\<lambda>r.
     if rr_type r = REDIS_REPLY_ERROR then push_error r
     else if rr_type r = REDIS_REPLY_STATUS then push_text r
     else if rr_type r = REDIS_REPLY_INTEGER then Ok (LNum (rr_integer r))
     else if rr_type r = REDIS_REPLY_NIL then Ok LNil
     else if rr_type r = REDIS_REPLY_STRING then push_sub_text r
     else if rr_type r = REDIS_REPLY_ARRAY
     then cbind (reply_elements r) (\<lambda>el.
          cbind (push_elements (push_sub_reply n h) 1 (drop 1 el)) (\<lambda>vs. Ok (LTable vs)))
     else Flt LuaPanic)"

section \<open>The values of abstract replies\<close>

definition before_NUL :: "bytes \<Rightarrow> bytes" where
  "before_NUL s = takeWhile (\<lambda>c. c \<noteq> NUL) s"

fun numbered :: "int \<Rightarrow> 'a list \<Rightarrow> (int \<times> 'a) list" where
  "numbered i [] = []"
| "numbered i (x # xs) = (i, x) # numbered (i + 1) xs"

definition error_value :: "bytes \<Rightarrow> lua" where
  "error_value s = LError None (''(null), '' @ before_NUL s) ''push_reply'' None"

fun to_lua :: "resp \<Rightarrow> lua" where
  "to_lua (RString s) = LStr s"
| "to_lua (RStatus s) = LStr s"
| "to_lua (RError s) = error_value s"
| "to_lua (RInteger i) = LNum i"
| "to_lua RNil = LNil"
| "to_lua (RArray ts) = LTable (numbered 1 (map to_lua ts))"

definition strip_prefix :: "bytes \<Rightarrow> bytes" where
  "strip_prefix s =
     (if take (length KEY_SPACE) s = KEY_SPACE then drop (length KEY_SPACE) s
      else if take (length KEY_EVENT) s = KEY_EVENT then drop (length KEY_EVENT) s else s)"

fun to_sub :: "resp \<Rightarrow> lua" where
  "to_sub (RString s) = LStr (strip_prefix s)"
| "to_sub (RStatus s) = LStr s"
| "to_sub (RError s) = error_value s"
| "to_sub (RInteger i) = LNum i"
| "to_sub RNil = LNil"
| "to_sub (RArray ts) = LTable (numbered 1 (drop 1 (map to_sub ts)))"

section \<open>The code gives the values\<close>

lemma mem_read_prefix [simp]: "mem_read (s @ t) 0 (int (length s)) = Ok s"
  by (simp add: mem_read_def)

lemma c_string_terminated: "c_string (s @ [NUL]) = Ok (before_NUL s)"
proof -
  have "c_strlen (s @ [NUL]) = Ok (int (length (before_NUL s)))"
    by (simp add: c_strlen_NUL before_NUL_def)
  moreover have "s @ [NUL] = before_NUL s @ dropWhile (\<lambda>c. c \<noteq> NUL) s @ [NUL]"
    by (simp add: before_NUL_def)
  ultimately show ?thesis by (metis c_string_def cbind.simps(1) mem_read_prefix)
qed

lemma push_text_obj: "push_text (text_obj ty s) = Ok (LStr s)"
  by (simp add: push_text_def text_obj_def)

lemma push_error_obj: "push_error (text_obj ty s) = Ok (error_value s)"
  by (simp add: push_error_def text_obj_def c_string_terminated luv_push_async_error_raw_def error_value_def)

lemma c_strncmp_whole: "c_strncmp (before_NUL s) k (length k) = 0 \<and> NUL \<notin> set k \<longleftrightarrow>
    take (length k) s = k \<and> NUL \<notin> set k"
proof (induction k arbitrary: s)
  case Nil
  then show ?case by (cases "before_NUL s") auto
next
  case (Cons c k)
  show ?case
  proof (cases s)
    case Nil
    have "c = NUL \<or> int (of_char c) \<noteq> 0" by (metis of_char_NUL)
    then show ?thesis by (auto simp: Nil before_NUL_def)
  next
    case (Cons d s')
    have "c = NUL \<or> int (of_char c) \<noteq> 0" by (metis of_char_NUL)
    then show ?thesis
      using Cons.IH [of s'] by (auto simp: Cons before_NUL_def)
  qed
qed


lemma strncmp_prefix:
  "NUL \<notin> set k \<Longrightarrow> c_strncmp (before_NUL s) k (length k) = 0 \<longleftrightarrow> take (length k) s = k"
  using c_strncmp_whole by blast

lemma key_text: "NUL \<notin> set KEY_SPACE" "NUL \<notin> set KEY_EVENT"
  by (simp_all add: KEY_SPACE_def KEY_EVENT_def)

lemma push_suffix_obj:
  assumes "take n s = k" and "length k = n"
  shows "push_suffix (s @ [NUL]) (int n) (int (length s)) = Ok (LStr (drop n s))"
proof -
  have "n \<le> length s" using assms by (metis length_take min.cobounded1)
  then show ?thesis by (simp add: push_suffix_def mem_read_def flip: of_nat_diff)
qed

lemma push_sub_text_obj: "push_sub_text (text_obj ty s) = Ok (LStr (strip_prefix s))"
proof -
  have "push_suffix (s @ [NUL]) (int (length k)) (int (length s)) = Ok (LStr (drop (length k) s))"
    if "take (length k) s = k" for k
    using push_suffix_obj [OF that refl] .
  then show ?thesis
    by (auto simp: push_sub_text_def text_obj_def c_string_terminated strncmp_prefix key_text strip_prefix_def
        push_text_def)
qed

lemma reply_elements_arr:
  "reply_elements (arr_obj (length ts) (if ts = [] then None else Some (map Some (addrs a ts)))) =
   Ok (map Some (addrs a ts))"
  by (cases ts) (auto simp: reply_elements_def arr_obj_def)

text \<open>A function that gives the value of each reply gives the values of consecutive replies.\<close>

lemma push_reply_layout:
  "at h a (layout a t) \<Longrightarrow> rsize t \<le> n \<Longrightarrow> push_reply n h a = Ok (to_lua t)"
  "at h a (layouts a ts) \<Longrightarrow> fsize ts \<le> n \<Longrightarrow>
   push_elements (push_reply n h) i (map Some (addrs a ts)) = Ok (numbered i (map to_lua ts))"
proof (induction a t and a ts arbitrary: n and n i rule: layout_layouts.induct)
  case (6 a ts)
  then obtain k where n: "n = Suc k" by (cases n) auto
  obtain r where obj: "rs_map h a = Some r" "rr_type r = REDIS_REPLY_ARRAY"
    "reply_elements r = Ok (map Some (addrs (Suc a) ts))"
    using 6 reply_elements_arr [of ts "Suc a"] by (auto simp: at_Cons) (auto simp: arr_obj_def)
  have sub: "at h (Suc a) (layouts (Suc a) ts)" using 6 by (simp add: at_Cons)
  have "push_elements (push_reply k h) 1 (map Some (addrs (Suc a) ts)) = Ok (numbered 1 (map to_lua ts))"
    using 6 n sub by simp
  with obj show ?case
    by (simp add: n rs_load_def) (simp add: reply_types)
next
  case (8 a t ts)
  then show ?case by (simp add: at_append)
qed (case_tac [!] n; simp add: at_Cons rs_load_def push_text_obj push_error_obj;
     simp add: text_obj_def new_obj_def reply_types)+

lemma push_sub_reply_layout:
  "at h a (layout a t) \<Longrightarrow> rsize t \<le> n \<Longrightarrow> push_sub_reply n h a = Ok (to_sub t)"
  "at h a (layouts a ts) \<Longrightarrow> fsize ts \<le> n \<Longrightarrow>
   push_elements (push_sub_reply n h) i (map Some (addrs a ts)) = Ok (numbered i (map to_sub ts))"
proof (induction a t and a ts arbitrary: n and n i rule: layout_layouts.induct)
  case (6 a ts)
  then obtain k where n: "n = Suc k" by (cases n) auto
  obtain r where obj: "rs_map h a = Some r" "rr_type r = REDIS_REPLY_ARRAY"
    "reply_elements r = Ok (map Some (addrs (Suc a) ts))"
    using 6 reply_elements_arr [of ts "Suc a"] by (auto simp: at_Cons) (auto simp: arr_obj_def)
  have sub: "at h (Suc a) (layouts (Suc a) ts)" using 6 by (simp add: at_Cons)
  have all: "push_elements (push_sub_reply k h) j (map Some (addrs (Suc a) ts)) = Ok (numbered j (map to_sub ts))" for j
    using 6 n sub by simp
  have "push_elements (push_sub_reply k h) 1 (drop (Suc 0) (map Some (addrs (Suc a) ts))) =
      Ok (numbered 1 (drop 1 (map to_sub ts)))"
    using all [of 0] by (cases ts) (auto simp: cr_simps)
  with obj show ?case
    by (simp add: n rs_load_def) (simp add: reply_types)
next
  case (8 a t ts)
  then show ?case by (simp add: at_append)
qed (case_tac [!] n; simp add: at_Cons rs_load_def push_text_obj push_sub_text_obj push_error_obj;
     simp add: text_obj_def new_obj_def reply_types)+

end
