(* ===== verification/Resp_Command.thy ===== *)
theory Resp_Command
  imports Resp_Stream
begin

text \<open>
  The writer of \<open>src/src/hiredis-light.c\<close>: the length of a command is computed first, a block of
  exactly that size is allocated, and the command is printed into it. The lemmas follow the
  two passes over the arguments and show that they agree.
\<close>

section \<open>Lengths\<close>

function (sequential) intlen_loop :: "int \<Rightarrow> int \<Rightarrow> int" where
  "intlen_loop len i =
     (let len = len + 1; i = i div 10 in if 0 < i then intlen_loop len i else len)"
  by pat_completeness auto
termination by (relation "measure (\<lambda>(len, i). nat i)") auto

declare intlen_loop.simps [simp del]

definition intlen :: "int \<Rightarrow> int cr" where
  "intlen i =
     (if i < 0 then cbind (s_int (- i)) (\<lambda>i. Ok (intlen_loop 1 i)) else Ok (intlen_loop 0 i))"

definition bulklen :: "int \<Rightarrow> int cr" where
  "bulklen len = cbind (intlen (c_int len)) (\<lambda>n. Ok (c_size (1 + n + 2 + len + 2)))"

text \<open>The argument \<open>argv[j]\<close> and its length, from \<open>argvlen\<close> or by \<open>strlen\<close>.\<close>

definition arg_at :: "bytes list \<Rightarrow> int list option \<Rightarrow> int \<Rightarrow> (bytes \<times> int) cr" where
  "arg_at argv argvlen j =
     (if 0 \<le> j \<and> j < int (length argv) then
        (case argvlen of
           None \<Rightarrow> cbind (c_strlen (argv ! nat j)) (\<lambda>n. Ok (argv ! nat j, n))
         | Some ls \<Rightarrow> if j < int (length ls) then Ok (argv ! nat j, ls ! nat j) else Flt OutOfBounds)
      else Flt OutOfBounds)"

function (sequential) totlen_loop :: "bytes list \<Rightarrow> int list option \<Rightarrow> int \<Rightarrow> int \<Rightarrow> int \<Rightarrow> int cr" where
  "totlen_loop argv argvlen argc j totlen =
     (if j < argc
      then cbind (arg_at argv argvlen j) (\<lambda>(_, len).
           cbind (bulklen len) (\<lambda>n.
           totlen_loop argv argvlen argc (j + 1) (c_int (c_size (totlen + n)))))
      else Ok totlen)"
  by pat_completeness auto
termination by (relation "measure (\<lambda>(argv, argvlen, argc, j, totlen). nat (argc - j))") auto

declare totlen_loop.simps [simp del]

section \<open>Writing the command\<close>

text \<open>\<open>sprintf\<close> at an offset: the text and its terminator; the result is the new position.\<close>

definition sprintf_at :: "bytes \<Rightarrow> int \<Rightarrow> bytes \<Rightarrow> (bytes \<times> int) cr" where
  "sprintf_at cmd pos text =
     cbind (mem_write cmd pos (text @ [NUL])) (\<lambda>cmd.
     cbind (s_int (pos + int (length text))) (\<lambda>pos. Ok (cmd, pos)))"

definition put_byte :: "bytes \<Rightarrow> int \<Rightarrow> char \<Rightarrow> (bytes \<times> int) cr" where
  "put_byte cmd pos c =
     cbind (mem_write cmd pos [c]) (\<lambda>cmd. cbind (s_int (pos + 1)) (\<lambda>pos. Ok (cmd, pos)))"

function (sequential) build_loop ::
  "bytes list \<Rightarrow> int list option \<Rightarrow> int \<Rightarrow> int \<Rightarrow> bytes \<Rightarrow> int \<Rightarrow> (bytes \<times> int) cr" where
  "build_loop argv argvlen argc j cmd pos =
     (if j < argc
      then
        cbind (arg_at argv argvlen j) (\<lambda>(arg, len).
        cbind (sprintf_at cmd pos (CHR ''$'' # int_dec len @ crlf)) (\<lambda>(cmd, pos).
        cbind (mem_read arg 0 len) (\<lambda>src.
        cbind (mem_write cmd pos src) (\<lambda>cmd.
        let pos = c_int (c_size (pos + len)) in
        cbind (put_byte cmd pos CR) (\<lambda>(cmd, pos).
        cbind (put_byte cmd pos LF) (\<lambda>(cmd, pos).
        build_loop argv argvlen argc (j + 1) cmd pos))))))
      else Ok (cmd, pos))"
  by pat_completeness auto
termination by (relation "measure (\<lambda>(argv, argvlen, argc, j, cmd, pos). nat (argc - j))") auto

declare build_loop.simps [simp del]

text \<open>The result, and the command the caller's \<open>target\<close> is set to.\<close>

definition redisFormatCommandArgv ::
  "cenv \<Rightarrow> int \<Rightarrow> bytes list \<Rightarrow> int list option \<Rightarrow> (int \<times> bytes option) cr" where
  "redisFormatCommandArgv env argc argv argvlen =
     cbind (intlen argc) (\<lambda>n.
     cbind (totlen_loop argv argvlen argc 0 (1 + n + 2)) (\<lambda>totlen.
     cbind (s_int (totlen + 1)) (\<lambda>size.
     case c_malloc env (c_size size) of
       None \<Rightarrow> Ok (- 1, None)
     | Some cmd \<Rightarrow>
         cbind (sprintf_at cmd 0 (CHR ''*'' # int_dec argc @ crlf)) (\<lambda>(cmd, pos).
         cbind (build_loop argv argvlen argc 0 cmd pos) (\<lambda>(cmd, pos).
         cbind (c_assert (pos = totlen)) (\<lambda>_.
         cbind (mem_write cmd pos [NUL]) (\<lambda>cmd.
         Ok (totlen, Some cmd))))))))"

section \<open>The lengths are right\<close>

lemma intlen_loop_digits: "intlen_loop len (int n) = len + int (length (nat_dec n))"
proof (induction n arbitrary: len rule: nat_dec.induct)
  case (1 n)
  show ?case
  proof (cases "n < 10")
    case True
    then show ?thesis by (simp add: intlen_loop.simps nat_dec_small)
  next
    case False
    have d: "int n div 10 = int (n div 10)" by simp
    have "intlen_loop len (int n) = intlen_loop (len + 1) (int (n div 10))"
      using False by (subst intlen_loop.simps) (simp add: d Let_def div_greater_zero_iff)
    with 1 False show ?thesis by (simp add: nat_dec_step)
  qed
qed

lemma intlen_digits: "intlen (int n) = Ok (int (length (int_dec (int n))))"
  by (simp add: intlen_def intlen_loop_digits int_dec_def)

lemma length_int_dec_30: "n < 2 ^ 30 \<Longrightarrow> length (int_dec (int n)) \<le> 10"
  using length_nat_dec [of n 9] by (simp add: int_dec_def)

definition bulk :: "bytes \<Rightarrow> bytes" where
  "bulk s = encode (RString s)"

lemma bulk_length: "length (bulk s) = 1 + length (int_dec (int (length s))) + 2 + length s + 2"
  by (simp add: bulk_def crlf_def)

lemma bulklen_bulk:
  assumes "length s < 2 ^ 30"
  shows "bulklen (int (length s)) = Ok (int (length (bulk s)))"
  using assms length_int_dec_30 [OF assms]
  by (simp add: bulklen_def c_int_id intlen_digits c_size_id bulk_length)

text \<open>Blocks that hold the arguments, each possibly with more behind it.\<close>

definition args_in :: "bytes list \<Rightarrow> int list option \<Rightarrow> bytes list \<Rightarrow> bool" where
  "args_in argv argvlen args \<longleftrightarrow>
     length argv = length args \<and>
     (\<forall>j<length args. \<exists>n. arg_at argv argvlen (int j) = Ok (argv ! j, n) \<and>
        0 \<le> n \<and> n \<le> int (length (argv ! j)) \<and> take (nat n) (argv ! j) = args ! j)"

lemma args_in_at:
  assumes "args_in argv argvlen args" and "j < length args"
  shows "arg_at argv argvlen (int j) = Ok (argv ! j, int (length (args ! j)))"
    and "mem_read (argv ! j) 0 (int (length (args ! j))) = Ok (args ! j)"
proof -
  obtain n where n: "arg_at argv argvlen (int j) = Ok (argv ! j, n)" "0 \<le> n"
    "n \<le> int (length (argv ! j))" "take (nat n) (argv ! j) = args ! j"
    using assms by (auto simp: args_in_def)
  then have "length (args ! j) = nat n" by (metis length_take min.absorb2 nat_le_iff)
  with n show "arg_at argv argvlen (int j) = Ok (argv ! j, int (length (args ! j)))"
    and "mem_read (argv ! j) 0 (int (length (args ! j))) = Ok (args ! j)"
    by (auto simp: mem_read_def)
qed

lemma totlen_loop_bulks:
  assumes "args_in argv argvlen (xs @ ys)" and "tot + length (concat (map bulk ys)) < 2 ^ 30"
  shows "totlen_loop argv argvlen (int (length (xs @ ys))) (int (length xs)) (int tot) =
         Ok (int (tot + length (concat (map bulk ys))))"
  using assms
proof (induction ys arbitrary: xs tot)
  case Nil
  then show ?case by (simp add: totlen_loop.simps)
next
  case (Cons y ys)
  have at: "arg_at argv argvlen (int (length xs)) = Ok (argv ! length xs, int (length y))"
    using args_in_at(1) [OF Cons.prems(1), of "length xs"] by simp
  have y: "length y < 2 ^ 30" "tot + length (bulk y) < 2 ^ 30"
    using Cons.prems(2) bulk_length [of y] by auto
  have sum: "c_int (c_size (int tot + int (length (bulk y)))) = int (tot + length (bulk y))"
    using y by (simp add: c_size_id c_int_id)
  have "totlen_loop argv argvlen (int (length ((xs @ [y]) @ ys))) (int (length (xs @ [y])))
      (int (tot + length (bulk y))) = Ok (int (tot + length (bulk y) + length (concat (map bulk ys))))"
    using Cons.prems by (intro Cons.IH) auto
  then show ?case
    using at bulklen_bulk [OF y(1)] sum
    by (subst totlen_loop.simps) (simp add: ac_simps)
qed

section \<open>The command is the encoding of its arguments\<close>

lemma write_at:
  assumes "length xs \<le> length rest"
  shows "mem_write (out @ rest) (int (length out)) xs = Ok (out @ xs @ drop (length xs) rest)"
  using assms by (simp add: mem_write_def nat_add_distrib)

lemma sprintf_at_append:
  assumes "length text < length rest" and "length out + length text < 2 ^ 31"
  shows "\<exists>rest'. sprintf_at (out @ rest) (int (length out)) text =
           Ok ((out @ text) @ rest', int (length (out @ text))) \<and>
         length rest' + length text = length rest"
  using assms write_at [of "text @ [NUL]" rest out]
  by (auto simp: sprintf_at_def s_int_ok Suc_le_eq intro!: exI [of _ "NUL # drop (Suc (length text)) rest"])

lemma put_byte_append:
  assumes "0 < length rest" and "length out < 2 ^ 30"
  shows "put_byte (out @ rest) (int (length out)) c =
         Ok ((out @ [c]) @ tl rest, int (length (out @ [c])))"
  using assms write_at [of "[c]" rest out]
  by (simp add: put_byte_def s_int_ok drop_Suc Suc_le_eq)

lemma build_loop_bulks:
  assumes "args_in argv argvlen (xs @ ys)" and "length out + length rest \<le> 2 ^ 30"
    and "length (concat (map bulk ys)) < length rest"
  shows "\<exists>rest'. build_loop argv argvlen (int (length (xs @ ys))) (int (length xs)) (out @ rest)
             (int (length out)) =
           Ok ((out @ concat (map bulk ys)) @ rest', int (length (out @ concat (map bulk ys)))) \<and>
         length rest' + length (concat (map bulk ys)) = length rest"
  using assms
proof (induction ys arbitrary: xs out rest)
  case Nil
  then show ?case by (auto simp: build_loop.simps)
next
  case (Cons y ys)
  have at: "arg_at argv argvlen (int (length xs)) = Ok (argv ! length xs, int (length y))"
    and read: "mem_read (argv ! length xs) 0 (int (length y)) = Ok y"
    using args_in_at [OF Cons.prems(1), of "length xs"] by simp_all
  let ?h = "CHR ''$'' # int_dec (int (length y)) @ crlf"
  have b: "bulk y = ?h @ y @ [CR] @ [LF]" by (simp add: bulk_def crlf_def)
  have len: "length ?h + length y + 2 + length (concat (map bulk ys)) < length rest"
    using Cons.prems(3) b by simp
  obtain r1 where s1: "sprintf_at (out @ rest) (int (length out)) ?h =
      Ok ((out @ ?h) @ r1, int (length (out @ ?h)))" and l1: "length r1 + length ?h = length rest"
    using sprintf_at_append [of ?h rest out] len Cons.prems(2) by auto
  let ?o2 = "(out @ ?h) @ y" and ?r2 = "drop (length y) r1"
  have s2: "mem_write ((out @ ?h) @ r1) (int (length (out @ ?h))) y = Ok (?o2 @ ?r2)"
    using write_at [of y r1 "out @ ?h"] len l1 by simp
  have pos2: "c_int (c_size (int (length (out @ ?h)) + int (length y))) = int (length ?o2)"
    using len Cons.prems(2) by (simp add: c_size_id c_int_id)
  have s3: "put_byte (?o2 @ ?r2) (int (length ?o2)) CR = Ok ((?o2 @ [CR]) @ tl ?r2, int (length (?o2 @ [CR])))"
    using len l1 Cons.prems(2) by (intro put_byte_append) auto
  let ?o4 = "(?o2 @ [CR]) @ [LF]" and ?r4 = "tl (tl ?r2)"
  have s4: "put_byte ((?o2 @ [CR]) @ tl ?r2) (int (length (?o2 @ [CR]))) LF = Ok (?o4 @ ?r4, int (length ?o4))"
    using len l1 Cons.prems(2) by (intro put_byte_append) auto
  have o4: "?o4 = out @ bulk y" by (simp add: b)
  have l4: "length ?r4 + length (bulk y) = length rest"
    using len l1 by (simp add: b)
  have "\<exists>rest'. build_loop argv argvlen (int (length ((xs @ [y]) @ ys))) (int (length (xs @ [y]))) (?o4 @ ?r4)
             (int (length ?o4)) =
           Ok ((?o4 @ concat (map bulk ys)) @ rest', int (length (?o4 @ concat (map bulk ys)))) \<and>
         length rest' + length (concat (map bulk ys)) = length ?r4"
    using Cons.prems l4 unfolding o4 by (intro Cons.IH) auto
  then obtain rest' where rec: "build_loop argv argvlen (int (length (xs @ y # ys))) (int (length xs) + 1) (?o4 @ ?r4)
             (int (length ?o4)) =
           Ok ((out @ concat (map bulk (y # ys))) @ rest', int (length (out @ concat (map bulk (y # ys)))))"
    and lr: "length rest' + length (concat (map bulk ys)) = length ?r4"
    unfolding o4 by (auto simp: add.commute [of 1])
  have "build_loop argv argvlen (int (length (xs @ y # ys))) (int (length xs)) (out @ rest) (int (length out)) =
      build_loop argv argvlen (int (length (xs @ y # ys))) (int (length xs) + 1) (?o4 @ ?r4) (int (length ?o4))"
    by (subst build_loop.simps) (simp only: at s1 read s2 pos2 s3 s4 cbind.simps prod.case Let_def, simp)
  with rec lr l4 show ?case by auto
qed

lemma encode_command:
  "encode (RArray (map RString args)) =
   (CHR ''*'' # int_dec (int (length args)) @ crlf) @ concat (map bulk args)"
  by (simp add: bulk_def [abs_def] o_def)

lemma redisFormatCommandArgv_eq:
  assumes "args_in argv argvlen args" and "length (encode (RArray (map RString args))) < 2 ^ 30"
  shows "redisFormatCommandArgv env (int (length args)) argv argvlen =
    (let cmd = encode (RArray (map RString args)) in
     if alloc_ok env (Suc (length cmd)) then Ok (int (length cmd), Some (cmd @ [NUL]))
     else Ok (- 1, None))"
proof -
  let ?n = "int (length args)" and ?cmd = "encode (RArray (map RString args))"
  let ?h = "CHR ''*'' # int_dec ?n @ crlf" and ?bs = "concat (map bulk args)"
  have cmd: "?cmd = ?h @ ?bs" by (rule encode_command)
  have h: "1 + int (length (int_dec ?n)) + 2 = int (length ?h)" by (simp add: crlf_def)
  have tot: "totlen_loop argv argvlen ?n 0 (1 + int (length (int_dec ?n)) + 2) = Ok (int (length ?cmd))"
    using totlen_loop_bulks [of argv argvlen "[]" args "length ?h"] assms unfolding h cmd by simp
  have size: "s_int (int (length ?cmd) + 1) = Ok (int (length ?cmd) + 1)"
    "c_size (int (length ?cmd) + 1) = int (Suc (length ?cmd))"
    using assms(2) by (simp_all add: s_int_ok c_size_id)
  show ?thesis
  proof (cases "alloc_ok env (Suc (length ?cmd))")
    case False
    then have "c_malloc env (int (Suc (length ?cmd))) = None" by (simp only: c_malloc_def nat_int if_False)
    with False tot size show ?thesis
      by (simp add: redisFormatCommandArgv_def intlen_digits Let_def del: encode.simps)
  next
    case True
    define blk where "blk = map (junk env) [0..<Suc (length ?cmd)]"
    have blk: "c_malloc env (int (Suc (length ?cmd))) = Some blk" "length blk = Suc (length ?cmd)"
      using True by (simp_all only: c_malloc_def blk_def nat_int if_True length_map length_upt diff_zero)
    obtain r1 where s1: "sprintf_at blk 0 ?h = Ok (?h @ r1, int (length ?h))"
      and l1: "length r1 + length ?h = length blk"
      using sprintf_at_append [of ?h blk "[]"] blk(2) assms(2) cmd by auto
    obtain r2 where s2: "build_loop argv argvlen ?n 0 (?h @ r1) (int (length ?h)) =
        Ok ((?h @ ?bs) @ r2, int (length (?h @ ?bs)))" and l2: "length r2 + length ?bs = length r1"
      using build_loop_bulks [of argv argvlen "[]" args ?h r1] assms l1 blk(2) cmd by auto
    have "length r2 = 1" using l1 l2 blk(2) cmd by simp
    then have "mem_write (?cmd @ r2) (int (length ?cmd)) [NUL] = Ok (?cmd @ [NUL])"
      using write_at [of "[NUL]" r2 ?cmd] by simp
    then show ?thesis
      using True tot size blk(1) s1 s2 unfolding cmd [symmetric]
      by (simp add: redisFormatCommandArgv_def intlen_digits Let_def del: encode.simps)
  qed
qed


text \<open>Arguments given with their lengths may hold any bytes; those given without end at a zero byte.\<close>

lemma args_in_lens: "args_in args (Some (map (\<lambda>s. int (length s)) args)) args"
  by (auto simp: args_in_def arg_at_def)

lemma args_in_strlen:
  "(\<forall>s\<in>set args. NUL \<notin> set s) \<Longrightarrow> args_in (map (\<lambda>s. s @ [NUL]) args) None args"
  by (auto simp: args_in_def arg_at_def c_strlen_terminated)

section \<open>Correctness of the command writer\<close>

text \<open>
  C29. The command written for arguments given with their lengths is the protocol's encoding of the
  array of these byte strings, terminated, and its length is returned; the block allocated for
  it is filled exactly (the assertion holds). A refused allocation returns -1.
\<close>

theorem format_command_encodes:
  assumes "length (encode (RArray (map RString args))) < 2 ^ 30"
  shows "redisFormatCommandArgv env (int (length args)) args (Some (map (\<lambda>s. int (length s)) args)) =
    (let cmd = encode (RArray (map RString args)) in
     if alloc_ok env (Suc (length cmd)) then Ok (int (length cmd), Some (cmd @ [NUL]))
     else Ok (- 1, None))"
  using args_in_lens assms by (rule redisFormatCommandArgv_eq)

theorem format_command_encodes_witness:
  "redisFormatCommandArgv libc_env 2 [''GET'', [NUL]] (Some [3, 1]) =
   Ok (20, Some (''*2'' @ crlf @ ''$3'' @ crlf @ ''GET'' @ crlf @ ''$1'' @ crlf @ [NUL] @ crlf @ [NUL]))"
  using format_command_encodes [of "[''GET'', [NUL]]" libc_env]
  by (simp add: crlf_def int_dec_def nat_dec_small libc_env_def three)

text \<open>
  C30. What the writer writes the reader reads: for zero-terminated arguments the command, fed to a
  new reader in any pieces, comes out as one reply, the array of the arguments.
\<close>

theorem command_reader_roundtrip:
  assumes "grants_all env" and "fresh h" and "redisReaderCreate env h = Ok (Some r)"
    and "\<forall>s\<in>set args. NUL \<notin> set s"
    and "length (encode (RArray (map RString args))) < 2 ^ 29"
    and "redisFormatCommandArgv env (int (length args)) (map (\<lambda>s. s @ [NUL]) args) None = Ok (n, Some cmd)"
    and "concat cs = take (nat n) cmd"
  shows "\<exists>r'. read_chunks env r cs = Ok ([rs_next h], r') \<and>
           r_store r' = store_of h (layout (rs_next h) (RArray (map RString args)))"
proof -
  let ?t = "RArray (map RString args)"
  have len: "length s < 2 ^ 30" if "s \<in> set args" for s
  proof -
    have "length (bulk s) \<le> length (concat (map bulk args))"
      using that by (auto simp: length_concat o_def intro: member_le_sum_list)
    then show ?thesis using assms(5) unfolding encode_command bulk_length by simp
  qed
  have n: "length args < 2 ^ 31"
  proof -
    have "length (concat (map bulk args)) \<ge> length args"
      by (induction args) (simp_all add: bulk_length)
    then show ?thesis using assms(5) unfolding encode_command by simp
  qed
  have wf: "\<forall>t\<in>set [?t]. wf_resp 0 t" using len n by auto
  have cs: "concat cs = encode ?t"
    using redisFormatCommandArgv_eq [OF args_in_strlen [OF assms(4)], of env] assms(1,5,6,7)
    by (simp add: Let_def del: encode.simps)
  have "drain [] (- 1) (concat (map encode [?t])) = ([?t], Blocked [] (- 1) [])"
    using wf by (rule drain_encode)
  then have "drain [] (- 1) (concat cs) = ([?t], Blocked [] (- 1) [])" using cs by simp
  from created_reader_state [OF assms(3,2,1) this] cs assms(5) show ?thesis
    using reader_state_store by fastforce
qed

theorem command_reader_roundtrip_witness:
  "\<exists>r'. read_chunks libc_env sample_reader [''*2'' @ crlf @ ''$3'', crlf @ ''GET'' @ crlf @ ''$1'' @ crlf @ ''k'' @ crlf] =
          Ok ([0], r') \<and>
        r_store r' = store_of empty_store (layout 0 (RArray [RString ''GET'', RString ''k'']))"
proof -
  have cmd: "redisFormatCommandArgv libc_env (int (length [''GET'', ''k'']))
      (map (\<lambda>s. s @ [NUL]) [''GET'', ''k'']) None =
    Ok (20, Some (''*2'' @ crlf @ ''$3'' @ crlf @ ''GET'' @ crlf @ ''$1'' @ crlf @ ''k'' @ crlf @ [NUL]))"
    by code_simp
  show ?thesis
    using command_reader_roundtrip [OF grants_all_libc_env fresh_empty_store(1) sample_create _ _ cmd,
        of "[''*2'' @ crlf @ ''$3'', crlf @ ''GET'' @ crlf @ ''$1'' @ crlf @ ''k'' @ crlf]"]
    by (simp add: crlf_def int_dec_def nat_dec_small del: read_chunks.simps)
qed

end
