(* ===== verification/Snail_State.thy ===== *)
theory Snail_State
  imports Snail_Reply Resp_Command
begin

unbundle bit_operations_syntax

text \<open>
  \<open>src/src/crazysnail.h\<close> and the ground of \<open>src/src/crazysnail.c\<close>: the client context, its flags,
  the free lists of requests and read buffers, and the two parties outside the program. What
  libuv answers and what a Lua function does to the client when it is called are the fields of
  the record \<open>host\<close>, an argument of every operation; calls of both are recorded in the trace of the
  store.
\<close>

section \<open>Flags\<close>

definition REDIS_CONNECTED :: int where "REDIS_CONNECTED = 2 ^ 1"
definition REDIS_DISCONNECTING :: int where "REDIS_DISCONNECTING = 2 ^ 2"
definition REDIS_FREEING :: int where "REDIS_FREEING = 2 ^ 3"
definition REDIS_MONITORING :: int where "REDIS_MONITORING = 2 ^ 6"
definition STREAM_CONNECTED :: int where "STREAM_CONNECTED = 2 ^ 0"
definition SUB_STREAM_CONNECTED :: int where "SUB_STREAM_CONNECTED = 2 ^ 1"

lemmas flag_defs = REDIS_CONNECTED_def REDIS_DISCONNECTING_def REDIS_FREEING_def
  REDIS_MONITORING_def STREAM_CONNECTED_def SUB_STREAM_CONNECTED_def

definition has_flag :: "int \<Rightarrow> int \<Rightarrow> bool" where
  "has_flag x m \<longleftrightarrow> x AND m \<noteq> 0"

definition set_flag :: "int \<Rightarrow> int \<Rightarrow> int" where
  "set_flag x m = x OR m"

definition clear_flag :: "int \<Rightarrow> int \<Rightarrow> int" where
  "clear_flag x m = x AND NOT m"

named_theorems flag_simps "flags as bits"

lemma has_flag_bit: "has_flag x (2 ^ n) \<longleftrightarrow> bit x n"
  by (simp add: has_flag_def and_exp_eq_0_iff_not_bit)

lemma has_flag_bits [flag_simps]:
  "has_flag x REDIS_CONNECTED \<longleftrightarrow> bit x 1" "has_flag x REDIS_DISCONNECTING \<longleftrightarrow> bit x 2"
  "has_flag x REDIS_FREEING \<longleftrightarrow> bit x 3" "has_flag x REDIS_MONITORING \<longleftrightarrow> bit x 6"
  "has_flag x STREAM_CONNECTED \<longleftrightarrow> bit x 0" "has_flag x SUB_STREAM_CONNECTED \<longleftrightarrow> bit x 1"
  by (simp_all only: flag_defs has_flag_bit)

lemma set_flag_bit: "bit (set_flag x (2 ^ m)) n \<longleftrightarrow> n = m \<or> bit x n"
  by (auto simp: set_flag_def bit_simps)

lemma clear_flag_bit: "bit (clear_flag x (2 ^ m)) n \<longleftrightarrow> n \<noteq> m \<and> bit x n"
  by (auto simp: clear_flag_def bit_simps)

lemma set_flag_bits [flag_simps]:
  "bit (set_flag x REDIS_CONNECTED) n \<longleftrightarrow> n = 1 \<or> bit x n"
  "bit (set_flag x REDIS_DISCONNECTING) n \<longleftrightarrow> n = 2 \<or> bit x n"
  "bit (set_flag x REDIS_FREEING) n \<longleftrightarrow> n = 3 \<or> bit x n"
  "bit (set_flag x REDIS_MONITORING) n \<longleftrightarrow> n = 6 \<or> bit x n"
  "bit (set_flag x STREAM_CONNECTED) n \<longleftrightarrow> n = 0 \<or> bit x n"
  "bit (set_flag x SUB_STREAM_CONNECTED) n \<longleftrightarrow> n = 1 \<or> bit x n"
  by (simp_all only: flag_defs set_flag_bit)

lemma clear_flag_bits [flag_simps]:
  "bit (clear_flag x STREAM_CONNECTED) n \<longleftrightarrow> n \<noteq> 0 \<and> bit x n"
  "bit (clear_flag x SUB_STREAM_CONNECTED) n \<longleftrightarrow> n \<noteq> 1 \<and> bit x n"
  by (simp_all only: flag_defs clear_flag_bit)

lemma no_flag_bit [flag_simps]: "\<not> bit (0 :: int) n"
  by simp

section \<open>The client context\<close>

text \<open>
  \<open>cx_live\<close> becomes false when \<open>lua_client_exit\<close> releases the path and the reader and leaves the
  pointers to them. The three callbacks are references into the Lua registry.
\<close>

record client_context =
  cx_path :: "bytes option"
  cx_ignore_sub :: bool
  cx_stream :: "nat option"
  cx_sub_stream :: "nat option"
  cx_connect_cb :: int
  cx_error_cb :: int
  cx_disconnect_cb :: int
  cx_list :: "nat option"
  cx_channels :: ctree
  cx_patterns :: ctree
  cx_timers :: ctree
  cx_flags :: int
  cx_stream_flags :: int
  cx_reader :: "redisReader option"
  cx_live :: bool

record snail =
  s_cx :: client_context
  s_w :: world

definition upd_cx :: "snail \<Rightarrow> (client_context \<Rightarrow> client_context) \<Rightarrow> snail" where
  "upd_cx s f = s\<lparr>s_cx := f (s_cx s)\<rparr>"

definition upd_w :: "snail \<Rightarrow> (world \<Rightarrow> world) \<Rightarrow> snail" where
  "upd_w s f = s\<lparr>s_w := f (s_w s)\<rparr>"

lemma upd_sel [simp]:
  "s_cx (upd_cx s f) = f (s_cx s)" "s_w (upd_cx s f) = s_w s"
  "s_cx (upd_w s g) = s_cx s" "s_w (upd_w s g) = g (s_w s)"
  by (simp_all add: upd_cx_def upd_w_def)

definition get_reader :: "snail \<Rightarrow> redisReader cr" where
  "get_reader s = (if cx_live (s_cx s) then deref (cx_reader (s_cx s)) else Flt UseAfterFree)"

definition put_reader :: "snail \<Rightarrow> redisReader \<Rightarrow> snail" where
  "put_reader s r = upd_cx s (\<lambda>cx. cx\<lparr>cx_reader := Some r\<rparr>)"

section \<open>The parties outside\<close>

text \<open>
  \<open>hs_lua ref args\<close> is what the Lua function under the reference \<open>ref\<close> does to the client when it
  is called: it may call the client's methods, so the effect is on the whole state. \<open>hs_fuel\<close>
  bounds the loops that such a function can keep going; \<open>hs_req_size\<close> is the size of a request
  of libuv, \<open>hs_tonumber\<close> the number Lua reads a string as, and the other fields are the answers of libuv's functions and the constants of Lua's
  headers.
\<close>

record host =
  hs_env :: cenv
  hs_lua :: "int \<Rightarrow> lua list \<Rightarrow> snail \<Rightarrow> snail cr"
  hs_noref :: int
  hs_refnil :: int
  hs_max_stack :: nat
  hs_req_size :: nat
  hs_pipe_size :: nat
  hs_tonumber :: "bytes \<Rightarrow> int option"
  hs_strerror :: "int \<Rightarrow> bytes"
  hs_write :: "nat \<Rightarrow> bytes \<Rightarrow> int"
  hs_read_start :: "nat \<Rightarrow> int"
  hs_timer_init :: int
  hs_timer_start :: int
  hs_fuel :: nat

definition has_ref :: "host \<Rightarrow> int \<Rightarrow> bool" where
  "has_ref hs ref \<longleftrightarrow> ref \<noteq> hs_noref hs \<and> ref \<noteq> hs_refnil hs"

definition lua_pcall :: "host \<Rightarrow> int \<Rightarrow> lua list \<Rightarrow> snail \<Rightarrow> snail cr" where
  "lua_pcall hs ref args s = hs_lua hs ref args (upd_w s (\<lambda>w. emit w (LuaCall ref args)))"

text \<open>Calling what is no function is an error that \<open>lua_pcall\<close> catches and the code ignores.\<close>

definition lua_pcall_any :: "host \<Rightarrow> int \<Rightarrow> lua list \<Rightarrow> snail \<Rightarrow> snail cr" where
  "lua_pcall_any hs ref args s = (if has_ref hs ref then lua_pcall hs ref args s else Ok s)"

definition luaL_unref :: "int \<Rightarrow> snail \<Rightarrow> snail" where
  "luaL_unref ref s = upd_w s (\<lambda>w. emit w (LuaUnref ref))"

definition uv_close :: "world \<Rightarrow> nat option \<Rightarrow> bool \<Rightarrow> world cr" where
  "uv_close w stream with_cb =
     cbind (deref stream) (\<lambda>a.
     cbind (load (w_hand w) a) (\<lambda>_. Ok (emit w (UvClose a with_cb))))"

section \<open>Free lists\<close>

definition req_alloc :: "host \<Rightarrow> world \<Rightarrow> nat option \<times> world" where
  "req_alloc hs w =
     (case w_reqs w of
        a # as \<Rightarrow> (Some a, w\<lparr>w_reqs := as\<rparr>)
      | [] \<Rightarrow> if alloc_ok (hs_env hs) (hs_req_size hs) then (Some (w_next w), bump w) else (None, w))"

text \<open>A request whose \<open>data\<close> is set to the context, as every caller does at once.\<close>

definition new_req :: "host \<Rightarrow> world \<Rightarrow> (nat \<times> world) cr" where
  "new_req hs w =
     (case req_alloc hs w of
        (req, w) \<Rightarrow> cbind (deref req) (\<lambda>a. Ok (a, put_hand w a \<lparr>h_data = True, h_repeat = 0\<rparr>)))"

text \<open>Taken buffers keep the size they were made with; 24 bytes stand before the buffer.\<close>

definition buf_alloc :: "host \<Rightarrow> world \<Rightarrow> int \<Rightarrow> ((nat \<times> int) \<times> world) cr" where
  "buf_alloc hs w len =
     (case w_bufs w of
        b # bs \<Rightarrow> Ok (b, w\<lparr>w_bufs := bs\<rparr>)
      | [] \<Rightarrow>
          if alloc_ok (hs_env hs) (nat (len + 24)) then Ok ((w_next w, len), bump w)
          else Flt NullDeref)"

definition buf_free :: "world \<Rightarrow> nat \<times> int \<Rightarrow> world" where
  "buf_free w buf = w\<lparr>w_bufs := buf # w_bufs w\<rparr>"

text \<open>The context a handle points to; a field nobody set holds no context.\<close>

definition handle_context :: "world \<Rightarrow> nat \<Rightarrow> unit cr" where
  "handle_context w a =
     cbind (load (w_hand w) a) (\<lambda>h. if h_data h then Ok () else Flt Uninitialised)"

end
