(* ===== verification/Snail_Client.thy ===== *)
theory Snail_Client
  imports Snail_State
begin

text \<open>
  The methods of a client in \<open>src/src/crazysnail.c\<close>, which Lua calls: \<open>new\<close>, \<open>on\<close>, \<open>connect\<close>,
  \<open>disconnect\<close>, \<open>exit\<close>, \<open>subscribe\<close> and \<open>command\<close>. A method returns a number of results to Lua or
  raises a Lua error, which is a value of the model; faults stop the program.
\<close>

section \<open>Arguments and results of methods\<close>

text \<open>
  The values on the Lua stack as far as the methods tell them apart: a string, a number (as the
  \<open>int\<close> that \<open>luaL_checkint\<close> gives, and its text), a table of elements, a function (with the
  reference \<open>luaL_ref\<close> gives it), any other value. The client itself, argument 1, is left out.
\<close>

datatype larg = AStr bytes | ANum int bytes | ATable "larg list" | AFun int | AOther

datatype 'a lua_result = Raise bytes | Ret 'a

fun lua_tolstring :: "larg \<Rightarrow> bytes option" where
  "lua_tolstring (AStr s) = Some s"
| "lua_tolstring (ANum n s) = Some s"
| "lua_tolstring _ = None"

fun is_function :: "larg \<Rightarrow> bool" where
  "is_function (AFun r) = True"
| "is_function _ = False"

text \<open>\<open>strncasecmp\<close> and \<open>strtol\<close> (base 10, no end pointer) of the C library.\<close>

definition c_strncasecmp :: "bytes \<Rightarrow> bytes \<Rightarrow> nat \<Rightarrow> int" where
  "c_strncasecmp xs ys n = c_strncmp (map c_tolower xs) (map c_tolower ys) n"

definition c_isdigit :: "char \<Rightarrow> bool" where
  "c_isdigit c \<longleftrightarrow> 48 \<le> (of_char c :: nat) \<and> (of_char c :: nat) < 58"

definition c_strtol :: "bytes \<Rightarrow> int" where
  "c_strtol s =
     (let t = dropWhile c_isspace s;
          neg = (t \<noteq> [] \<and> hd t = CHR ''-'');
          u = (if t \<noteq> [] \<and> (hd t = CHR ''-'' \<or> hd t = CHR ''+'') then tl t else t);
          v = foldl (\<lambda>v c. 10 * v + (int (of_char c) - 48)) 0 (takeWhile c_isdigit u)
      in max LLONG_MIN (min LLONG_MAX (if neg then - v else v)))"

definition has_prefix :: "bytes \<Rightarrow> bytes \<Rightarrow> bool" where
  "has_prefix s p \<longleftrightarrow> c_strncmp (before_NUL s) p (length p) = 0"

section \<open>Making a client\<close>

definition lua_client_new :: "host \<Rightarrow> larg \<Rightarrow> bool option \<Rightarrow> world \<Rightarrow> snail lua_result cr" where
  "lua_client_new hs path_arg ignore w =
     (case lua_tolstring path_arg of
        None \<Rightarrow> Ok (Raise ''string expected'')
      | Some path \<Rightarrow>
          cbind (redisReaderCreate (hs_env hs) empty_store) (\<lambda>reader.
          if \<not> alloc_ok (hs_env hs) 16 then Flt NullDeref
          else Ok (Ret \<lparr>s_cx =
            \<lparr>cx_path = (if alloc_ok (hs_env hs) (Suc (length (before_NUL path))) then Some (before_NUL path) else None),
             cx_ignore_sub = (case ignore of None \<Rightarrow> True | Some b \<Rightarrow> b),
             cx_stream = None, cx_sub_stream = None,
             cx_connect_cb = hs_noref hs, cx_error_cb = hs_noref hs, cx_disconnect_cb = hs_noref hs,
             cx_list = Some (w_next w),
             cx_channels = Tip, cx_patterns = Tip, cx_timers = Tip,
             cx_flags = 0, cx_stream_flags = 0, cx_reader = reader, cx_live = True\<rparr>,
            s_w = put_ends (bump w) (w_next w) \<lparr>e_head = None, e_tail = None\<rparr>\<rparr>)))"

section \<open>Event callbacks\<close>

text \<open>The reference of a replaced callback is not released.\<close>

definition lua_client_on :: "host \<Rightarrow> larg list \<Rightarrow> snail \<Rightarrow> int lua_result \<times> snail" where
  "lua_client_on hs args s =
     (case args of
        [] \<Rightarrow> (Raise ''string expected'', s)
      | a # _ \<Rightarrow>
          (case lua_tolstring a of
             None \<Rightarrow> (Raise ''string expected'', s)
           | Some name \<Rightarrow>
               (case last args of
                  AFun ref \<Rightarrow>
                    (let ev = before_NUL name in
                     (Ret 1,
                      if ev = ''error'' then upd_cx s (\<lambda>cx. cx\<lparr>cx_error_cb := ref\<rparr>)
                      else if ev = ''connect'' then upd_cx s (\<lambda>cx. cx\<lparr>cx_connect_cb := ref\<rparr>)
                      else if ev = ''disconnect'' then upd_cx s (\<lambda>cx. cx\<lparr>cx_disconnect_cb := ref\<rparr>)
                      else luaL_unref ref s))
                | _ \<Rightarrow> (Ret 1, s))))"

section \<open>Connecting and disconnecting\<close>

text \<open>A pipe of libuv in a block of its own; \<open>data\<close> is not set.\<close>

definition new_pipe :: "host \<Rightarrow> world \<Rightarrow> nat option \<times> world" where
  "new_pipe hs w =
     (if alloc_ok (hs_env hs) (hs_pipe_size hs)
      then (Some (w_next w), put_hand (bump w) (w_next w) \<lparr>h_data = False, h_repeat = 0\<rparr>)
      else (None, w))"

definition pipe_connect :: "host \<Rightarrow> nat \<Rightarrow> snail \<Rightarrow> snail cr" where
  "pipe_connect hs stream s =
     cbind (new_req hs (s_w s)) (\<lambda>(req, w).
     cbind (deref (cx_path (s_cx s))) (\<lambda>_.
     Ok (s\<lparr>s_w := emit w (UvConnect req stream)\<rparr>)))"

definition lua_client_connect :: "host \<Rightarrow> snail \<Rightarrow> (int lua_result \<times> snail) cr" where
  "lua_client_connect hs s =
     (case new_pipe hs (s_w s) of
        (None, w) \<Rightarrow> Ok (Raise ''new: Out Of Memory'', s\<lparr>s_w := w\<rparr>)
      | (Some a, w) \<Rightarrow>
          (case new_pipe hs w of
             (None, w) \<Rightarrow> Ok (Raise ''new: Out Of Memory'', s\<lparr>s_w := w\<rparr>)
           | (Some b, w) \<Rightarrow>
               let s = upd_cx (s\<lparr>s_w := w\<rparr>)
                 (\<lambda>cx. cx\<lparr>cx_stream := Some a, cx_sub_stream := Some b, cx_flags := 0\<rparr>) in
               cbind (pipe_connect hs a s) (\<lambda>s.
               cbind (pipe_connect hs b s) (\<lambda>s. Ok (Ret 1, s)))))"

definition set_data :: "world \<Rightarrow> nat option \<Rightarrow> world cr" where
  "set_data w stream =
     cbind (deref stream) (\<lambda>a.
     cbind (load (w_hand w) a) (\<lambda>h. Ok (put_hand w a (h\<lparr>h_data := True\<rparr>))))"

definition lua_client_disconnect :: "snail \<Rightarrow> (int lua_result \<times> snail) cr" where
  "lua_client_disconnect s =
     (if has_flag (cx_flags (s_cx s)) REDIS_DISCONNECTING then Ok (Ret 1, s)
      else
        cbind (set_data (s_w s) (cx_stream (s_cx s))) (\<lambda>w.
        cbind (set_data w (cx_sub_stream (s_cx s))) (\<lambda>w.
        cbind (uv_close w (cx_stream (s_cx s)) True) (\<lambda>w.
        cbind (uv_close w (cx_sub_stream (s_cx s)) True) (\<lambda>w.
        Ok (Ret 1, upd_cx (s\<lparr>s_w := w\<rparr>)
          (\<lambda>cx. cx\<lparr>cx_flags := set_flag (cx_flags cx) REDIS_DISCONNECTING\<rparr>)))))))"

text \<open>The three trees and the list of commands, as \<open>exit\<close> and the last \<open>on_disconnect\<close> release them.\<close>

definition release_callbacks :: "snail \<Rightarrow> snail cr" where
  "release_callbacks s =
     cbind (destroy_tree (cx_channels (s_cx s)) (s_w s)) (\<lambda>w.
     cbind (destroy_tree (cx_patterns (s_cx s)) w) (\<lambda>w.
     cbind (destroy_tree (cx_timers (s_cx s)) w) (\<lambda>w.
     cbind (destroy_list w (cx_list (s_cx s))) (\<lambda>w.
     Ok (upd_cx (s\<lparr>s_w := w\<rparr>) (\<lambda>cx. cx\<lparr>cx_channels := Tip, cx_patterns := Tip, cx_timers := Tip\<rparr>))))))"

definition unref_if_set :: "host \<Rightarrow> int \<Rightarrow> snail \<Rightarrow> snail" where
  "unref_if_set hs ref s = (if has_ref hs ref then luaL_unref ref s else s)"

definition free_handle :: "world \<Rightarrow> nat option \<Rightarrow> world cr" where
  "free_handle w p =
     cbind (deref p) (\<lambda>a. cbind (load (w_hand w) a) (\<lambda>_. Ok (w\<lparr>w_hand := (w_hand w)(a := None)\<rparr>)))"

text \<open>The store of the released reader stays in its record, which nothing may read any more.\<close>

definition free_reader :: "snail \<Rightarrow> snail cr" where
  "free_reader s =
     (if \<not> cx_live (s_cx s) then Flt UseAfterFree
      else cbind (case cx_reader (s_cx s) of
                    None \<Rightarrow> Ok s
                  | Some r \<Rightarrow> cbind (redisReaderFree r) (\<lambda>h. Ok (put_reader s (r\<lparr>r_store := h\<rparr>)))) (\<lambda>s.
           Ok (upd_cx s (\<lambda>cx. cx\<lparr>cx_live := False\<rparr>))))"

definition lua_client_exit :: "host \<Rightarrow> snail \<Rightarrow> (int lua_result \<times> snail) cr" where
  "lua_client_exit hs s =
     cbind (uv_close (s_w s) (cx_stream (s_cx s)) False) (\<lambda>w.
     cbind (uv_close w (cx_sub_stream (s_cx s)) False) (\<lambda>w.
     let s = s\<lparr>s_w := w\<rparr>;
         s = unref_if_set hs (cx_connect_cb (s_cx s)) s;
         s = unref_if_set hs (cx_error_cb (s_cx s)) s;
         s = unref_if_set hs (cx_disconnect_cb (s_cx s)) s;
         s = upd_cx s (\<lambda>cx. cx\<lparr>cx_stream_flags :=
               clear_flag (clear_flag (cx_stream_flags cx) STREAM_CONNECTED) SUB_STREAM_CONNECTED\<rparr>) in
     cbind (release_callbacks s) (\<lambda>s.
     cbind (free_handle (s_w s) (cx_stream (s_cx s))) (\<lambda>w.
     cbind (free_handle w (cx_sub_stream (s_cx s))) (\<lambda>w.
     cbind (free_reader (s\<lparr>s_w := w\<rparr>)) (\<lambda>s. Ok (Ret 0, s)))))))"

section \<open>The arguments of a command\<close>

definition push_arg :: "host \<Rightarrow> bytes \<Rightarrow> bytes list \<Rightarrow> bytes list lua_result" where
  "push_arg hs t argv =
     (if hs_max_stack hs - 1 < Suc (length argv) then Raise ''command: Stack Overflow''
      else Ret (argv @ [t]))"

fun table_args :: "host \<Rightarrow> larg list \<Rightarrow> bytes list \<Rightarrow> bytes list lua_result" where
  "table_args hs [] argv = Ret argv"
| "table_args hs (x # xs) argv =
     (case lua_tolstring x of
        None \<Rightarrow> Raise ''command: Not a string or a number''
      | Some t \<Rightarrow>
          (case push_arg hs t argv of
             Raise m \<Rightarrow> Raise m
           | Ret argv \<Rightarrow> table_args hs xs argv))"

text \<open>
  The loop over the arguments: the words of the command and the timer keys. An argument that
  is no string reaches \<open>strncmp\<close> as NULL, before the test meant for it.
\<close>

fun command_args :: "host \<Rightarrow> larg list \<Rightarrow> bytes list \<Rightarrow> bytes list \<Rightarrow> (bytes list \<times> bytes list) lua_result cr" where
  "command_args hs [] argv timers = Ok (Ret (argv, timers))"
| "command_args hs (ATable xs # as) argv timers =
     (case table_args hs xs argv of
        Raise m \<Rightarrow> Ok (Raise m)
      | Ret argv \<Rightarrow> command_args hs as argv timers)"
| "command_args hs (a # as) argv timers =
     cbind (deref (lua_tolstring a)) (\<lambda>key.
     if \<not> has_prefix key TIMER_EVENT
     then (case push_arg hs key argv of
             Raise m \<Rightarrow> Ok (Raise m)
           | Ret argv \<Rightarrow> command_args hs as argv timers)
     else if length timers < 100 then command_args hs as argv (timers @ [key])
     else Flt OutOfBounds)"

text \<open>The arguments without a callback at their end, and the reference of the callback.\<close>

definition split_callback :: "host \<Rightarrow> larg list \<Rightarrow> larg list \<times> int" where
  "split_callback hs args =
     (if args = [] then (args, hs_refnil hs)
      else case last args of AFun ref \<Rightarrow> (butlast args, ref) | _ \<Rightarrow> (args, hs_refnil hs))"

section \<open>Subscriptions\<close>

definition set_channel :: "world \<Rightarrow> nat \<Rightarrow> nat \<Rightarrow> nat option \<Rightarrow> world cr" where
  "set_channel w cb i ch =
     cbind (load (w_call w) cb) (\<lambda>c.
     if i < length (cb_channels c) then Ok (put_call w cb (c\<lparr>cb_channels := (cb_channels c)[i := ch]\<rparr>))
     else Flt OutOfBounds)"

text \<open>A new cell for the callback at the end of the leaf's list.\<close>

definition attach_callback :: "cenv \<Rightarrow> world \<Rightarrow> nat \<Rightarrow> nat option \<Rightarrow> world cr" where
  "attach_callback env w cb leaf =
     cbind (wrap_cb env w (Some cb)) (\<lambda>(st, wrapper, w).
     if st \<noteq> SNAIL_OK then Ok w
     else cbind (deref leaf) (\<lambda>a.
          cbind (load (w_node w) a) (\<lambda>nd. push_cb w (n_cb_list nd) wrapper)))"

definition subscribe_channel :: "cenv \<Rightarrow> bool \<Rightarrow> nat \<Rightarrow> nat \<Rightarrow> bytes \<Rightarrow> snail \<Rightarrow> snail cr" where
  "subscribe_channel env pvariant cb i name s =
     (case create_channel env (s_w s) (before_NUL name) of
        (st, ch, w) \<Rightarrow>
          cbind (if st = SNAIL_OK then set_channel w cb i ch else Ok w) (\<lambda>w.
          cbind (tree_insert env w (if pvariant then cx_patterns (s_cx s) else cx_channels (s_cx s)) (before_NUL name))
            (\<lambda>(st, t, leaf, w).
          cbind (attach_callback env w cb leaf) (\<lambda>w.
          Ok (upd_cx (s\<lparr>s_w := w\<rparr>)
            (\<lambda>cx. if pvariant then cx\<lparr>cx_patterns := t\<rparr> else cx\<lparr>cx_channels := t\<rparr>))))))"

fun subscribe_channels :: "cenv \<Rightarrow> bool \<Rightarrow> nat \<Rightarrow> nat \<Rightarrow> bytes list \<Rightarrow> snail \<Rightarrow> snail cr" where
  "subscribe_channels env pvariant cb i [] s = Ok s"
| "subscribe_channels env pvariant cb i (n # ns) s =
     cbind (subscribe_channel env pvariant cb i n s) (subscribe_channels env pvariant cb (Suc i) ns)"

definition timer_interval :: "bytes \<Rightarrow> int" where
  "timer_interval key = c_size (c_strtol (drop (length TIMER_EVENT) (before_NUL key)))"

definition subscribe_timer :: "cenv \<Rightarrow> nat \<Rightarrow> nat \<Rightarrow> bytes \<Rightarrow> snail \<Rightarrow> snail cr" where
  "subscribe_timer env cb i key s =
     (let ikey = timer_interval key in
      case create_timer_channel env (s_w s) ikey of
        (st, ch, w) \<Rightarrow>
          cbind (if st = SNAIL_OK then set_channel w cb i ch else Ok w) (\<lambda>w.
          cbind (insert_timer env w (cx_timers (s_cx s)) ikey) (\<lambda>(status, t, leaf, w).
          cbind (if 1 \<le> status
                 then cbind (if status \<noteq> 2
                             then cbind (deref ch) (\<lambda>a. cbind (load (w_chan w) a) (\<lambda>c.
                                  Ok (put_chan w a (c\<lparr>ch_flags := set_flag (ch_flags c) CHANNEL_SUBSCRIBED\<rparr>))))
                             else Ok w) (\<lambda>w.
                      attach_callback env w cb leaf)
                 else Ok w) (\<lambda>w.
          Ok (upd_cx (s\<lparr>s_w := w\<rparr>) (\<lambda>cx. cx\<lparr>cx_timers := t\<rparr>))))))"

fun subscribe_timers :: "cenv \<Rightarrow> nat \<Rightarrow> nat \<Rightarrow> bytes list \<Rightarrow> snail \<Rightarrow> snail cr" where
  "subscribe_timers env cb i [] s = Ok s"
| "subscribe_timers env cb i (k # ks) s =
     cbind (subscribe_timer env cb i k s) (subscribe_timers env cb (Suc i) ks)"

definition register_subscription :: "cenv \<Rightarrow> bool \<Rightarrow> int \<Rightarrow> bytes list \<Rightarrow> bytes list \<Rightarrow> snail \<Rightarrow> snail cr" where
  "register_subscription env pvariant ref names timers s =
     (case create_callback env (s_w s) ref (int (length names) + int (length timers)) of
        (st, cb, w) \<Rightarrow>
          if st \<noteq> SNAIL_OK then Ok (s\<lparr>s_w := w\<rparr>)
          else cbind (deref cb) (\<lambda>c.
               cbind (subscribe_channels env pvariant c 0 names (s\<lparr>s_w := w\<rparr>))
                 (subscribe_timers env c (length names) timers)))"

section \<open>Commands\<close>

text \<open>What the first word of a command makes of it.\<close>

datatype command_kind = Subscribe bool | Unsubscribe | Monitor | Plain

definition command_kind :: "bytes \<Rightarrow> command_kind" where
  "command_kind word =
     (let w = before_NUL word;
          pvariant = (c_tolower (hd (w @ [NUL])) = CHR ''p'');
          v = (if pvariant then drop 1 w else w) in
      if c_strncasecmp v ''subscribe'' 9 = 0 then Subscribe pvariant
      else if c_strncasecmp v ''unsubscribe'' 11 = 0 then Unsubscribe
      else if c_strncasecmp w ''monitor'' 7 = 0 then Monitor
      else Plain)"

definition register_command :: "host \<Rightarrow> int \<Rightarrow> bytes list \<Rightarrow> bytes list \<Rightarrow> bytes \<Rightarrow> snail \<Rightarrow> (bool \<times> snail) cr" where
  "register_command hs ref names timers word s =
     (case command_kind word of
        Subscribe pvariant \<Rightarrow>
          cbind (register_subscription (hs_env hs) pvariant ref names timers s) (\<lambda>s. Ok (True, s))
      | Unsubscribe \<Rightarrow> Ok (True, s)
      | kind \<Rightarrow>
          let s = (if kind = Monitor
                   then upd_cx s (\<lambda>cx. cx\<lparr>cx_flags := set_flag (cx_flags cx) REDIS_MONITORING\<rparr>) else s) in
          cbind (append_callback (hs_env hs) (s_w s) (cx_list (s_cx s)) ref) (\<lambda>w. Ok (False, s\<lparr>s_w := w\<rparr>)))"

text \<open>The request and the answer of \<open>uv_write\<close>, when there is a connection.\<close>

definition start_write :: "host \<Rightarrow> bool \<Rightarrow> bytes \<Rightarrow> snail \<Rightarrow> (int \<times> nat option \<times> snail) cr" where
  "start_write hs sub_mode cmd s =
     (if \<not> has_flag (cx_flags (s_cx s)) REDIS_CONNECTED then Ok (0, None, s)
      else
        cbind (new_req hs (s_w s)) (\<lambda>(req, w).
        cbind (deref (if sub_mode then cx_sub_stream (s_cx s) else cx_stream (s_cx s))) (\<lambda>a.
        cbind (load (w_hand w) a) (\<lambda>_.
        Ok (hs_write hs a cmd, Some req, s\<lparr>s_w := emit w (UvWrite req a cmd)\<rparr>)))))"

text \<open>The error path takes the first callback of the list, whichever command it belongs to.\<close>

definition command_failed :: "host \<Rightarrow> int \<Rightarrow> nat option \<Rightarrow> snail \<Rightarrow> (int lua_result \<times> snail) cr" where
  "command_failed hs r req s =
     (let s = (case req of None \<Rightarrow> s | Some a \<Rightarrow> upd_w s (\<lambda>w. req_free w a));
          error = (if r < 0 then hs_strerror hs r else ''command: Not connected'') in
      cbind (shift_cb (s_w s) (cx_list (s_cx s))) (\<lambda>(st, cb, w).
      let s = s\<lparr>s_w := w\<rparr> in
      case cb of
        Some c \<Rightarrow>
          if st = SNAIL_OK \<and> has_ref hs (cb_ref c)
          then cbind (lua_pcall hs (cb_ref c) [LStr error] (luaL_unref (cb_ref c) s)) (\<lambda>s. Ok (Ret 0, s))
          else Ok (Raise error, s)
      | None \<Rightarrow> Ok (Raise error, s)))"

definition send_command :: "host \<Rightarrow> bool \<Rightarrow> bytes \<Rightarrow> snail \<Rightarrow> (int lua_result \<times> snail) cr" where
  "send_command hs sub_mode cmd s =
     cbind (start_write hs sub_mode cmd s) (\<lambda>(r, req, s).
     let fl = cx_flags (s_cx s) in
     if \<not> has_flag fl REDIS_CONNECTED \<or> has_flag fl REDIS_DISCONNECTING \<or> has_flag fl REDIS_FREEING \<or> r < 0
     then command_failed hs r req s
     else cbind (c_assert (r = 0)) (\<lambda>_. Ok (Ret 1, s)))"

text \<open>
  Without a word \<open>argv[0]\<close> is NULL, or what an earlier command left in the static vector. When
  the command could not be built, \<open>cmd\<close> was never set, and both branches that follow use it.
\<close>

definition lua_client_command :: "host \<Rightarrow> larg list \<Rightarrow> snail \<Rightarrow> (int lua_result \<times> snail) cr" where
  "lua_client_command hs args s =
     (case split_callback hs args of
        (words, ref) \<Rightarrow>
          cbind (command_args hs words [] []) (\<lambda>res.
          case res of
            Raise m \<Rightarrow> Ok (Raise m, s)
          | Ret (argv, timers) \<Rightarrow>
              cbind (redisFormatCommandArgv (hs_env hs) (int (length argv)) (map (\<lambda>a. a @ [NUL]) argv)
                (Some (map (\<lambda>a. int (length a)) argv))) (\<lambda>(len, cmd).
              case argv of
                [] \<Rightarrow> Flt NullDeref
              | word # names \<Rightarrow>
                  cbind (register_command hs ref names timers word s) (\<lambda>(sub_mode, s).
                  case cmd of
                    None \<Rightarrow> Flt Uninitialised
                  | Some block \<Rightarrow> send_command hs sub_mode (take (nat len) block) s))))"

section \<open>The subscribe method\<close>

definition events :: "bytes list" where
  "events = [''append'', ''del'', ''expire'', ''evicted'', ''incrby'', ''incrbyfloat'', ''hdel'', ''hincrby'',
     ''hincrbyfloat'', ''hset'', ''linsert'', ''lpop'', ''lpush'', ''lset'', ''ltrim'', ''rename_from'', ''rename_to'',
     ''rpop'', ''rpush'', ''sadd'', ''sdiffstore'', ''set'', ''setrange'', ''sinterstore'', ''sortstore'', ''spop'',
     ''srem'', ''sunionostore'', ''zadd'', ''zincr'', ''zinterstore'', ''zrem'', ''zrembyrank'', ''zrembyscore'',
     ''zunionstore'']"

text \<open>What \<open>lua_isnumber\<close> and \<open>luaL_checkint\<close> say of an argument: numeric strings are numbers.\<close>

fun number_arg :: "host \<Rightarrow> larg \<Rightarrow> int option" where
  "number_arg hs (ANum n t) = Some n"
| "number_arg hs (AStr t) = hs_tonumber hs t"
| "number_arg hs _ = None"

text \<open>
  The text of a timeout: the length is computed with \<open>log10\<close>, which is no number for a negative
  timeout, and converting that to \<open>int\<close> is undefined.
\<close>

definition timeout_text :: "host \<Rightarrow> int \<Rightarrow> bytes cr" where
  "timeout_text hs timeout =
     (if timeout < 0 then Flt SignedOverflow
      else
        let len = (if timeout = 0 then 1 else length (nat_dec (nat timeout))) in
        if alloc_ok (hs_env hs) (Suc len) then Ok (take len (int_dec timeout)) else Flt NullDeref)"

definition add_key_prefix :: "host \<Rightarrow> bool \<Rightarrow> bytes \<Rightarrow> larg lua_result" where
  "add_key_prefix hs is_number key =
     (let prefix = (if is_number then TIMER_EVENT else if key \<in> set events then KEY_EVENT else KEY_SPACE) in
      if alloc_ok (hs_env hs) (length prefix + length key + 1) then Ret (AStr (prefix @ key))
      else Raise ''subscribe: Out Of Memory'')"

definition subscribe_arg :: "host \<Rightarrow> larg \<Rightarrow> larg lua_result cr" where
  "subscribe_arg hs a =
     (case number_arg hs a of
        Some timeout \<Rightarrow> cbind (timeout_text hs timeout) (\<lambda>key. Ok (add_key_prefix hs True key))
      | None \<Rightarrow>
          (case lua_tolstring a of
             None \<Rightarrow> Ok (Raise ''string expected'')
           | Some key \<Rightarrow>
               if has_prefix key KEY_SPACE \<or> has_prefix key KEY_EVENT \<or> has_prefix key TIMER_EVENT then Ok (Ret a)
               else Ok (add_key_prefix hs False (before_NUL key))))"

fun subscribe_args :: "host \<Rightarrow> larg list \<Rightarrow> larg list lua_result cr" where
  "subscribe_args hs [] = Ok (Ret [])"
| "subscribe_args hs (a # as) =
     cbind (subscribe_arg hs a) (\<lambda>res.
     case res of
       Raise m \<Rightarrow> Ok (Raise m)
     | Ret a \<Rightarrow> cbind (subscribe_args hs as) (\<lambda>res.
         case res of Raise m \<Rightarrow> Ok (Raise m) | Ret as \<Rightarrow> Ok (Ret (a # as))))"

text \<open>Every argument but the last is looked at.\<close>

definition lua_client_subscribe :: "host \<Rightarrow> larg list \<Rightarrow> snail \<Rightarrow> (int lua_result \<times> snail) cr" where
  "lua_client_subscribe hs args s =
     cbind (subscribe_args hs (butlast args)) (\<lambda>res.
     case res of
       Raise m \<Rightarrow> Ok (Raise m, s)
     | Ret as \<Rightarrow> lua_client_command hs (AStr ''subscribe'' # as @ (if args = [] then [] else [last args])) s)"

end
