(* ===== verification/Snail_Events.thy ===== *)
theory Snail_Events
  imports Snail_Client
begin

text \<open>
  The handlers of \<open>src/src/crazysnail.c\<close> that libuv calls: \<open>on_connect\<close>, \<open>on_write\<close>, \<open>on_read\<close>
  with the delivery of replies and of subscription messages, \<open>on_timer\<close> and \<open>on_disconnect\<close>.
\<close>

section \<open>Connections\<close>

text \<open>A call of an error or connection callback, if one is set.\<close>

definition call_if_set :: "host \<Rightarrow> int \<Rightarrow> lua list \<Rightarrow> snail \<Rightarrow> snail cr" where
  "call_if_set hs ref args s = (if has_ref hs ref then lua_pcall hs ref args s else Ok s)"

definition on_connect :: "host \<Rightarrow> nat \<Rightarrow> int \<Rightarrow> snail \<Rightarrow> snail cr" where
  "on_connect hs req status s =
     cbind (handle_context (s_w s) req) (\<lambda>_.
     let s = upd_w s (\<lambda>w. req_free w req) in
     if status < 0
     then
       if has_ref hs (cx_error_cb (s_cx s))
       then lua_pcall hs (cx_error_cb (s_cx s)) [LStr (hs_strerror hs status)] s
       else cbind (uv_close (s_w s) (cx_stream (s_cx s)) True) (\<lambda>w. Ok (s\<lparr>s_w := w\<rparr>))
     else
       cbind (c_assert (status = 0)) (\<lambda>_.
       let fl = cx_stream_flags (s_cx s);
           fl = (if \<not> has_flag fl STREAM_CONNECTED then set_flag fl STREAM_CONNECTED
                 else if has_flag fl STREAM_CONNECTED \<and> \<not> has_flag fl SUB_STREAM_CONNECTED
                 then set_flag fl SUB_STREAM_CONNECTED else fl);
           s = upd_cx s (\<lambda>cx. cx\<lparr>cx_stream_flags := fl\<rparr>) in
       if has_flag fl STREAM_CONNECTED \<and> has_flag fl SUB_STREAM_CONNECTED
       then
         let s = upd_cx s (\<lambda>cx. cx\<lparr>cx_flags := set_flag (cx_flags cx) REDIS_CONNECTED\<rparr>) in
         call_if_set hs (cx_connect_cb (s_cx s)) [] s
       else Ok s))"

definition on_disconnect :: "host \<Rightarrow> nat \<Rightarrow> snail \<Rightarrow> snail cr" where
  "on_disconnect hs handle s =
     cbind (handle_context (s_w s) handle) (\<lambda>_.
     cbind (free_handle (s_w s) (Some handle)) (\<lambda>w.
     let fl = cx_stream_flags (s_cx s);
         fl = (if has_flag fl STREAM_CONNECTED then clear_flag fl STREAM_CONNECTED
               else if \<not> has_flag fl STREAM_CONNECTED \<and> has_flag fl SUB_STREAM_CONNECTED
               then clear_flag fl SUB_STREAM_CONNECTED else fl);
         s = upd_cx (s\<lparr>s_w := w\<rparr>) (\<lambda>cx. cx\<lparr>cx_stream_flags := fl\<rparr>) in
     if \<not> has_flag fl STREAM_CONNECTED \<and> \<not> has_flag fl SUB_STREAM_CONNECTED
     then
       let s = upd_cx s (\<lambda>cx. cx\<lparr>cx_flags := set_flag (cx_flags cx) REDIS_FREEING\<rparr>) in
       cbind (release_callbacks s) (\<lambda>s. call_if_set hs (cx_disconnect_cb (s_cx s)) [] s)
     else Ok s))"

section \<open>Writing\<close>

text \<open>An error goes to the first callback of the list.\<close>

definition report_to_first :: "host \<Rightarrow> bytes \<Rightarrow> snail \<Rightarrow> snail cr" where
  "report_to_first hs error s =
     cbind (shift_cb (s_w s) (cx_list (s_cx s))) (\<lambda>(st, cb, w).
     let s = s\<lparr>s_w := w\<rparr> in
     case cb of
       None \<Rightarrow> Ok s
     | Some c \<Rightarrow>
         if st = SNAIL_OK \<and> has_ref hs (cb_ref c)
         then lua_pcall hs (cb_ref c) [LStr error] (luaL_unref (cb_ref c) s)
         else Ok s)"

text \<open>\<open>stream\<close> is the field \<open>handle\<close> that libuv keeps in the request.\<close>

definition on_write :: "host \<Rightarrow> nat \<Rightarrow> nat \<Rightarrow> int \<Rightarrow> snail \<Rightarrow> snail cr" where
  "on_write hs req stream status s =
     cbind (handle_context (s_w s) req) (\<lambda>_.
     cbind (set_data (s_w s) (Some stream)) (\<lambda>w.
     let s = s\<lparr>s_w := req_free w req\<rparr> in
     if status < 0 then report_to_first hs (hs_strerror hs status) s
     else
       cbind (c_assert (status = 0)) (\<lambda>_.
       let r = hs_read_start hs stream; s = upd_w s (\<lambda>w. emit w (UvReadStart stream)) in
       if r < 0 then report_to_first hs (hs_strerror hs r) s else Ok s)))"

section \<open>Subscription messages\<close>

definition flags_of :: "host \<Rightarrow> callback \<Rightarrow> int" where
  "flags_of hs cb = (case cb_flags cb of None \<Rightarrow> c_int (junk_field (hs_env hs) 4 4) | Some f \<Rightarrow> f)"

definition start_timer :: "host \<Rightarrow> nat \<Rightarrow> channel \<Rightarrow> snail \<Rightarrow> snail cr" where
  "start_timer hs a ch s =
     cbind (search_timer (s_w s) (ch_ikey ch) (cx_timers (s_cx s))) (\<lambda>leaf.
     cbind (new_req hs (s_w s)) (\<lambda>(t, w).
     cbind (c_assert (hs_timer_init hs = 0)) (\<lambda>_.
     let w = emit (put_hand w t \<lparr>h_data = True, h_repeat = ch_ikey ch\<rparr>) (TimerStart t 0 (ch_ikey ch)) in
     cbind (c_assert (hs_timer_start hs = 0)) (\<lambda>_.
     let w = put_chan w a (ch\<lparr>ch_flags := set_flag (ch_flags ch) CHANNEL_SUBSCRIBED\<rparr>) in
     cbind (load (w_node w) leaf) (\<lambda>nd.
     Ok (s\<lparr>s_w := put_node w leaf (nd\<lparr>n_data := Some (Some t)\<rparr>)\<rparr>))))))"

text \<open>One channel of a callback; the results are \<open>done\<close> and \<open>all\<close>.\<close>

definition confirm_channel :: "host \<Rightarrow> bytes \<Rightarrow> nat option \<Rightarrow> bool \<Rightarrow> int \<Rightarrow> snail \<Rightarrow> (bool \<times> int \<times> snail) cr" where
  "confirm_channel hs sname p dn all s =
     cbind (deref p) (\<lambda>a.
     cbind (load (w_chan (s_w s)) a) (\<lambda>ch.
     cbind (if has_flag (ch_flags ch) CHANNEL_SUBSCRIBED then Ok (dn, s)
            else if has_flag (ch_flags ch) CHANNEL_TIMER_EVENT
            then cbind (start_timer hs a ch s) (\<lambda>s. Ok (dn, s))
            else if dn then Ok (dn, s)
            else cbind (deref (ch_name ch)) (\<lambda>name.
                 if name = sname
                 then Ok (True, upd_w s (\<lambda>w. put_chan w a (ch\<lparr>ch_flags := set_flag (ch_flags ch) CHANNEL_SUBSCRIBED\<rparr>)))
                 else Ok (dn, s))) (\<lambda>(dn, s).
     cbind (load (w_chan (s_w s)) a) (\<lambda>ch. Ok (dn, all AND ch_flags ch, s)))))"

fun confirm_channels :: "host \<Rightarrow> bytes \<Rightarrow> nat option list \<Rightarrow> bool \<Rightarrow> int \<Rightarrow> snail \<Rightarrow> (bool \<times> int \<times> snail) cr" where
  "confirm_channels hs sname [] dn all s = Ok (dn, all, s)"
| "confirm_channels hs sname (p # ps) dn all s =
     cbind (confirm_channel hs sname p dn all s) (\<lambda>(dn, all, s). confirm_channels hs sname ps dn all s)"

definition channels_of :: "callback \<Rightarrow> nat option list cr" where
  "channels_of cb =
     (if int (length (cb_channels cb)) < cb_nb_channel cb then Flt OutOfBounds
      else Ok (take (nat (cb_nb_channel cb)) (cb_channels cb)))"

definition set_initialized :: "host \<Rightarrow> nat \<Rightarrow> int \<Rightarrow> snail \<Rightarrow> snail cr" where
  "set_initialized hs c all s =
     (if \<not> has_flag all CHANNEL_SUBSCRIBED then Ok s
      else cbind (load (w_call (s_w s)) c) (\<lambda>cb.
           Ok (upd_w s (\<lambda>w. put_call w c
             (cb\<lparr>cb_flags := Some (set_flag (flags_of hs cb) CALLBACK_INITIALIZED)\<rparr>)))))"

text \<open>The value the callbacks get for a message, read from the store of replies.\<close>

definition sub_value :: "snail \<Rightarrow> nat \<Rightarrow> lua cr" where
  "sub_value s reply =
     cbind (get_reader s) (\<lambda>r. push_sub_reply (Suc (rs_next (r_store r))) (r_store r) reply)"

text \<open>One callback of the list at a confirmed subscription.\<close>

definition confirm_callback :: "host \<Rightarrow> bytes \<Rightarrow> nat \<Rightarrow> nat \<Rightarrow> snail \<Rightarrow> (bool \<times> snail) cr" where
  "confirm_callback hs sname reply c s =
     cbind (load (w_call (s_w s)) c) (\<lambda>cb.
     if has_flag (flags_of hs cb) CALLBACK_INITIALIZED then Ok (False, s)
     else
       cbind (channels_of cb) (\<lambda>chs.
       cbind (confirm_channels hs sname chs False CHANNEL_SUBSCRIBED s) (\<lambda>(dn, all, s).
       cbind (set_initialized hs c all s) (\<lambda>s.
       if \<not> cx_ignore_sub (s_cx s) \<and> dn
       then cbind (sub_value s reply) (\<lambda>v.
            cbind (lua_pcall_any hs (cb_ref cb) [LNil, v] s) (\<lambda>s. Ok (dn, s)))
       else Ok (dn, s)))))"

fun confirm_loop :: "nat \<Rightarrow> host \<Rightarrow> bytes \<Rightarrow> nat \<Rightarrow> nat option \<Rightarrow> snail \<Rightarrow> snail cr" where
  "confirm_loop n hs sname reply None s = Ok s"
| "confirm_loop 0 hs sname reply (Some p) s = Flt Diverges"
| "confirm_loop (Suc n) hs sname reply (Some p) s =
     cbind (load (w_ll (s_w s)) p) (\<lambda>l.
     cbind (confirm_callback hs sname reply (ll_cb l) s) (\<lambda>(dn, s).
     cbind (load (w_ll (s_w s)) p) (\<lambda>l.
     if dn then Ok s else confirm_loop n hs sname reply (ll_next l) s)))"

text \<open>One callback of the list at a message: \<open>args\<close> is computed for those that are initialized.\<close>

definition event_callback :: "host \<Rightarrow> (snail \<Rightarrow> lua list cr) \<Rightarrow> nat \<Rightarrow> snail \<Rightarrow> snail cr" where
  "event_callback hs args c s =
     cbind (load (w_call (s_w s)) c) (\<lambda>cb.
     if \<not> has_flag (flags_of hs cb) CALLBACK_INITIALIZED
     then lua_pcall_any hs (cb_ref cb) [LStr ''event received but not initialized''] s
     else cbind (args s) (\<lambda>vs. lua_pcall_any hs (cb_ref cb) vs s))"

fun event_loop :: "nat \<Rightarrow> host \<Rightarrow> (snail \<Rightarrow> lua list cr) \<Rightarrow> nat option \<Rightarrow> snail \<Rightarrow> snail cr" where
  "event_loop n hs args None s = Ok s"
| "event_loop 0 hs args (Some p) s = Flt Diverges"
| "event_loop (Suc n) hs args (Some p) s =
     cbind (load (w_ll (s_w s)) p) (\<lambda>l.
     cbind (event_callback hs args (ll_cb l) s) (\<lambda>s.
     cbind (load (w_ll (s_w s)) p) (\<lambda>l. event_loop n hs args (ll_next l) s)))"

text \<open>An element of the message that must be a string; the result is the block.\<close>

definition string_element :: "rstore \<Rightarrow> redisReply \<Rightarrow> nat \<Rightarrow> (bytes \<times> int) cr" where
  "string_element h r i =
     cbind (deref (rr_element r)) (\<lambda>el.
     if length el \<le> i then Flt OutOfBounds
     else
       cbind (deref (el ! i)) (\<lambda>a.
       cbind (rs_load h a) (\<lambda>e.
       cbind (c_assert (rr_type e = REDIS_REPLY_STRING)) (\<lambda>_.
       cbind (deref (rr_str e)) (\<lambda>s. Ok (s, rr_len e))))))"

definition get_and_call_sub_cb :: "host \<Rightarrow> nat \<Rightarrow> snail \<Rightarrow> snail cr" where
  "get_and_call_sub_cb hs reply s =
     cbind (get_reader s) (\<lambda>rd.
     let h = r_store rd in
     cbind (rs_load h reply) (\<lambda>r.
     if rr_type r \<noteq> REDIS_REPLY_ARRAY then Ok s
     else
       cbind (c_assert (2 \<le> rr_elements r)) (\<lambda>_.
       cbind (string_element h r 0) (\<lambda>(stype, _).
       cbind (c_string stype) (\<lambda>t.
       let pvariant = (c_tolower (hd (t @ [NUL])) = CHR ''p'');
           kind = (if pvariant then drop 1 t else t);
           callbacks = (if pvariant then cx_patterns (s_cx s) else cx_channels (s_cx s)) in
       if kind = ''unsubscribe'' then Ok s
       else
         cbind (string_element h r 1) (\<lambda>(name, len).
         cbind (sdsnewlen (hs_env hs) (Some name) len) (\<lambda>sds.
         cbind (deref sds) (\<lambda>sh.
         cbind (c_string (sh_buf sh)) (\<lambda>sname.
         cbind (tree_search (s_w s) sname callbacks) (\<lambda>cb_list.
         cbind (deref cb_list) (\<lambda>e.
         cbind (load (w_ends (s_w s)) e) (\<lambda>en.
         cbind (c_assert (e_head en \<noteq> None)) (\<lambda>_.
         if kind = ''subscribe'' then confirm_loop (hs_fuel hs) hs sname reply (e_head en) s
         else event_loop (hs_fuel hs) hs (\<lambda>s. cbind (sub_value s reply) (\<lambda>v. Ok [LNil, v]))
                (e_head en) s)))))))))))))"

section \<open>Timers\<close>

text \<open>\<open>timeout\<close> is the field of that name that libuv keeps in the handle.\<close>

definition on_timer :: "host \<Rightarrow> nat \<Rightarrow> int \<Rightarrow> snail \<Rightarrow> snail cr" where
  "on_timer hs handle timeout s =
     cbind (handle_context (s_w s) handle) (\<lambda>_.
     if has_flag (cx_flags (s_cx s)) REDIS_DISCONNECTING then Ok s
     else
       cbind (load (w_hand (s_w s)) handle) (\<lambda>h.
       cbind (search_timer (s_w s) (h_repeat h) (cx_timers (s_cx s))) (\<lambda>leaf.
       cbind (load (w_node (s_w s)) leaf) (\<lambda>nd.
       cbind (deref (n_cb_list nd)) (\<lambda>e.
       cbind (load (w_ends (s_w s)) e) (\<lambda>en.
       event_loop (hs_fuel hs) hs
         (\<lambda>s. Ok [LNil, LTable [(1, LStr ''timer''), (2, LNum (h_repeat h)), (3, LNum timeout)]])
         (e_head en) s))))))"

section \<open>Reading\<close>

definition free_reply_object :: "nat \<Rightarrow> snail \<Rightarrow> snail cr" where
  "free_reply_object a s =
     cbind (get_reader s) (\<lambda>r.
     cbind (freeReplyObject (r_store r) a) (\<lambda>h. Ok (put_reader s (r\<lparr>r_store := h\<rparr>))))"

text \<open>
  In monitor mode the callback is pushed again, but what is pushed is the local variable \<open>cb\<close>
  of \<open>on_read\<close>, which is gone when the function returns right after.
\<close>

definition repush_monitor :: "host \<Rightarrow> callback option \<Rightarrow> snail \<Rightarrow> snail cr" where
  "repush_monitor hs cb s =
     (case cb of
        None \<Rightarrow> Flt Uninitialised
      | Some c \<Rightarrow>
          let a = w_next (s_w s) in
          cbind (wrap_cb (hs_env hs) (put_call (bump (s_w s)) a c) (Some a)) (\<lambda>(st, wrapper, w).
          cbind (if st = SNAIL_OK then push_cb w (cx_list (s_cx s)) wrapper else Ok w) (\<lambda>w.
          Ok (s\<lparr>s_w := w\<lparr>w_call := (w_call w)(a := None)\<rparr>\<rparr>))))"

text \<open>
  A reply on the command stream. Where the list is empty the copy of the last callback stays in
  \<open>cb\<close>, or what the stack held when there was none.
\<close>

definition deliver_reply :: "host \<Rightarrow> nat \<Rightarrow> callback option \<Rightarrow> snail \<Rightarrow> (callback option \<times> snail) cr" where
  "deliver_reply hs reply cb s =
     cbind (shift_cb (s_w s) (cx_list (s_cx s))) (\<lambda>(st, copy, w).
     let s = s\<lparr>s_w := w\<rparr>; cb = (if st = SNAIL_OK then copy else cb) in
     cbind (never_written cb) (\<lambda>c.
     if has_ref hs (cb_ref c)
     then
       cbind (get_reader s) (\<lambda>r.
       cbind (push_reply (Suc (rs_next (r_store r))) (r_store r) reply) (\<lambda>v.
       cbind (lua_pcall hs (cb_ref c) [LNil, v] (luaL_unref (cb_ref c) s)) (\<lambda>s.
       cbind (free_reply_object reply s) (\<lambda>s. Ok (cb, s)))))
     else cbind (free_reply_object reply s) (\<lambda>s. Ok (cb, s))))"

text \<open>A reply on the subscription stream.\<close>

definition deliver_message :: "host \<Rightarrow> nat \<Rightarrow> snail \<Rightarrow> snail cr" where
  "deliver_message hs reply s =
     cbind (get_reader s) (\<lambda>r.
     cbind (rs_load (r_store r) reply) (\<lambda>o'.
     cbind (if rr_type o' = REDIS_REPLY_ERROR then Ok s else get_and_call_sub_cb hs reply s)
       (free_reply_object reply)))"

text \<open>The loop over the replies; the result tells whether the handler goes on behind it.\<close>

fun replies_loop :: "nat \<Rightarrow> host \<Rightarrow> bool \<Rightarrow> callback option \<Rightarrow> snail \<Rightarrow> (bool \<times> snail) cr" where
  "replies_loop 0 hs sub_mode cb s = Flt Diverges"
| "replies_loop (Suc n) hs sub_mode cb s =
     cbind (get_reader s) (\<lambda>r.
     cbind (redisReaderGetReply (hs_env hs) r) (\<lambda>(status, reply, r).
     let s = put_reader s r in
     if status \<noteq> REDIS_OK then Ok (False, s)
     else case reply of
       None \<Rightarrow>
         if has_flag (cx_flags (s_cx s)) REDIS_DISCONNECTING then Ok (False, s)
         else if has_flag (cx_flags (s_cx s)) REDIS_MONITORING
         then cbind (repush_monitor hs cb s) (\<lambda>s. Ok (True, s))
         else Ok (True, s)
     | Some a \<Rightarrow>
         if sub_mode then cbind (deliver_message hs a s) (replies_loop n hs sub_mode cb)
         else cbind (deliver_reply hs a cb s) (\<lambda>(cb, s). replies_loop n hs sub_mode cb s)))"

definition list_is_empty :: "snail \<Rightarrow> bool cr" where
  "list_is_empty s =
     cbind (deref (cx_list (s_cx s))) (\<lambda>e. cbind (load (w_ends (s_w s)) e) (\<lambda>en. Ok (e_head en = None)))"

definition stop_if_idle :: "bool \<Rightarrow> nat \<Rightarrow> snail \<Rightarrow> snail cr" where
  "stop_if_idle sub_mode stream s =
     (if sub_mode then Ok s
      else cbind (list_is_empty s) (\<lambda>empty.
           Ok (if empty then upd_w s (\<lambda>w. emit w (UvReadStop stream)) else s)))"

text \<open>\<open>data\<close> is what the buffer \<open>buf\<close> holds, at least \<open>nread\<close> bytes.\<close>

definition on_read :: "host \<Rightarrow> nat \<Rightarrow> int \<Rightarrow> nat \<times> int \<Rightarrow> bytes \<Rightarrow> snail \<Rightarrow> snail cr" where
  "on_read hs stream nread buf data s =
     cbind (handle_context (s_w s) stream) (\<lambda>_.
     let sub_mode = (cx_sub_stream (s_cx s) = Some stream) in
     if has_flag (cx_flags (s_cx s)) REDIS_DISCONNECTING then Ok (upd_w s (\<lambda>w. buf_free w buf))
     else if nread < 0
     then
       cbind (call_if_set hs (cx_error_cb (s_cx s)) [LStr (hs_strerror hs nread)] s) (\<lambda>s.
       cbind (uv_close (s_w s) (Some stream) True) (\<lambda>w. Ok (s\<lparr>s_w := w\<rparr>)))
     else if nread = 0 then stop_if_idle sub_mode stream s
     else
       cbind (get_reader s) (\<lambda>r.
       cbind (redisReaderFeed (hs_env hs) r (Some data) nread) (\<lambda>(st, r).
       let s = put_reader s r in
       if st \<noteq> REDIS_OK
       then
         cbind (call_if_set hs (cx_error_cb (s_cx s)) [LStr (r_errstr r)] s) (\<lambda>s.
         Ok (upd_w s (\<lambda>w. buf_free w buf)))
       else
         let s = upd_w s (\<lambda>w. buf_free w buf) in
         cbind (replies_loop (hs_fuel hs) hs sub_mode None s) (\<lambda>(go, s).
         if go then stop_if_idle sub_mode stream s else Ok s))))"

end
