(* ===== verification/Snail_Stream.thy ===== *)
theory Snail_Stream
  imports Snail_Events
begin

text \<open>
  Reading a stream: what \<open>on_read\<close> does with the bytes of a chunk, whoever the replies are for. The
  interface \<open>reply_stream\<close> says what the handler relies on: the state \<open>inv\<close> of a client whose reader
  holds the unread bytes \<open>u\<close> and the open arrays \<open>fs\<close>, with \<open>g\<close> for what is expected on the stream,
  and the delivery of one reply. The chunks of the command stream (\<open>Snail_Deliver\<close>) and of the
  subscription stream (\<open>Snail_Messages\<close>) are its two instances.
\<close>

section \<open>Calls of Lua functions\<close>

fun lua_calls :: "effect list \<Rightarrow> (int \<times> lua list) list" where
  "lua_calls [] = []"
| "lua_calls (LuaCall r vs # es) = (r, vs) # lua_calls es"
| "lua_calls (_ # es) = lua_calls es"

abbreviation calls :: "snail \<Rightarrow> (int \<times> lua list) list" where
  "calls s \<equiv> lua_calls (w_trace (s_w s))"

lemma lua_calls_append [simp]: "lua_calls (es @ es') = lua_calls es @ lua_calls es'"
  by (induction es rule: lua_calls.induct) auto

lemma emit_trace [simp]: "w_trace (emit w x) = w_trace w @ [x]"
  by (simp add: emit_def)

lemma trace_unchanged [simp]: "s_w (put_reader s r) = s_w s" "w_trace (buf_free w buf) = w_trace w"
  by (simp_all add: put_reader_def buf_free_def)

section \<open>Taking a reply out of the store\<close>

text \<open>The store after a reply was taken out and released.\<close>

definition spent :: "rstore \<Rightarrow> resp \<Rightarrow> rstore" where
  "spent h t = h\<lparr>rs_next := rs_next h + rsize t\<rparr>"

lemma spent_simps [simp]: "rs_map (spent h t) = rs_map h" "fresh h \<Longrightarrow> fresh (spent h t)"
  by (simp_all add: spent_def fresh_def)

lemma free_spent:
  assumes "fresh h"
  shows "freeReplyObject (store_of h (layout (rs_next h) t)) (rs_next h) = Ok (spent h t)"
proof -
  let ?b = "rs_next h" and ?h = "store_of h (layout (rs_next h) t)"
  have "at ?h ?b (layout ?b t)" by (rule at_store_of)
  then have "freeReplyObject ?h ?b = Ok (clear_range ?h ?b (rsize t))"
    unfolding freeReplyObject_def by (intro free_layout(1)) auto
  moreover have "clear_range ?h ?b (rsize t) = spent h t"
    using clear_store_of [of h "layout ?b t"] assms
    by (intro rstore.equality) (simp_all add: fresh_def spent_def clear_range_def)
  ultimately show ?thesis by simp
qed

lemma reader_state_other_store:
  assumes "reader_state h1 [] ty u r" and "rs_next h2 = rs_next h1" and "fresh h2"
  shows "reader_state h2 [] ty u (r\<lparr>r_store := h2\<rparr>)"
  using assms
  by (auto simp: reader_state_def reader_at_def reader_core_def reader_idle_def root_of_def buffer_at_def
      stack_at_def)

lemma reader_spent:
  "reader_state (store_of h (layout (rs_next h) t)) [] ty u r \<Longrightarrow> fresh h \<Longrightarrow>
   reader_state (spent h t) [] ty u (r\<lparr>r_store := spent h t\<rparr>)"
  using reader_state_other_store [of "store_of h (layout (rs_next h) t)" ty u r "spent h t"] by (simp add: spent_def fresh_def)

section \<open>What is expected on a stream\<close>

text \<open>Replies taken one after the other, with the calls they make; \<open>takes_all\<close> says that none is unexpected.\<close>

inductive steps :: "('g \<Rightarrow> resp \<Rightarrow> (int \<times> lua list) list \<Rightarrow> 'g \<Rightarrow> bool) \<Rightarrow> 'g \<Rightarrow> resp list \<Rightarrow>
    (int \<times> lua list) list \<Rightarrow> 'g \<Rightarrow> bool" for st where
  steps_Nil: "steps st g [] [] g"
| steps_Cons: "st g t cs g1 \<Longrightarrow> steps st g1 ts ds g2 \<Longrightarrow> steps st g (t # ts) (cs @ ds) g2"

inductive_cases steps_NilE: "steps st g [] cs g'"
inductive_cases steps_ConsE: "steps st g (t # ts) cs g'"

fun takes_all :: "('g \<Rightarrow> resp \<Rightarrow> bool) \<Rightarrow> ('g \<Rightarrow> resp \<Rightarrow> (int \<times> lua list) list \<Rightarrow> 'g \<Rightarrow> bool) \<Rightarrow> 'g \<Rightarrow> resp list \<Rightarrow> bool" where
  "takes_all tk st g [] = True"
| "takes_all tk st g (t # ts) = (tk g t \<and> (\<forall>cs g'. st g t cs g' \<longrightarrow> takes_all tk st g' ts))"

lemma steps_one: "st g t cs g' \<Longrightarrow> steps st g [t] cs g'"
  using steps_Cons [OF _ steps_Nil, of st g t cs g'] by simp

lemma steps_append: "steps st g ts cs g1 \<Longrightarrow> steps st g1 us ds g2 \<Longrightarrow> steps st g (ts @ us) (cs @ ds) g2"
  by (induction rule: steps.induct) (auto intro: steps_Cons)

lemma takes_all_append:
  "takes_all tk st g (ts @ us) \<longleftrightarrow> takes_all tk st g ts \<and> (\<forall>cs g'. steps st g ts cs g' \<longrightarrow> takes_all tk st g' us)"
proof (induction ts arbitrary: g)
  case Nil
  then show ?case by (auto elim: steps_NilE intro: steps_Nil)
next
  case (Cons t ts)
  then show ?case by (auto elim!: steps_ConsE) (meson steps_Cons)
qed

text \<open>The chunks as they arrive, each in its buffer.\<close>

fun on_reads :: "host \<Rightarrow> nat \<Rightarrow> ((nat \<times> int) \<times> bytes) list \<Rightarrow> snail \<Rightarrow> snail cr" where
  "on_reads hs a [] s = Ok s"
| "on_reads hs a ((buf, c) # cs) s = cbind (on_read hs a (int (length c)) buf c s) (on_reads hs a cs)"

locale reply_stream =
  fixes hs :: host and sub :: bool and a :: nat
    and inv :: "'g \<Rightarrow> rstore \<Rightarrow> frames \<Rightarrow> int \<Rightarrow> bytes \<Rightarrow> snail \<Rightarrow> bool"
    and takes :: "'g \<Rightarrow> resp \<Rightarrow> bool"
    and step :: "'g \<Rightarrow> resp \<Rightarrow> (int \<times> lua list) list \<Rightarrow> 'g \<Rightarrow> bool"
  assumes grants: "inv g h fs ty u s \<Longrightarrow> grants_all (hs_env hs)"
    and reader: "inv g h fs ty u s \<Longrightarrow> \<exists>r. get_reader s = Ok r \<and> reader_state h fs ty u r \<and> r_pos r < 1024"
    and put_reader: "inv g h fs ty u s \<Longrightarrow> reader_state h' fs' ty' u' r \<Longrightarrow> r_pos r < 1024 \<Longrightarrow>
      inv g h' fs' ty' u' (put_reader s r)"
    and buffer: "inv g h fs ty u s \<Longrightarrow> inv g h fs ty u (upd_w s (\<lambda>w. buf_free w buf))"
    and flags: "inv g h fs ty u s \<Longrightarrow> \<not> has_flag (cx_flags (s_cx s)) REDIS_DISCONNECTING \<and>
      \<not> has_flag (cx_flags (s_cx s)) REDIS_MONITORING"
    and stream: "inv g h fs ty u s \<Longrightarrow> handle_context (s_w s) a = Ok () \<and> (cx_sub_stream (s_cx s) = Some a) = sub"
    and idle: "inv g h fs ty u s \<Longrightarrow> runs (stop_if_idle sub a s) (\<lambda>s'. inv g h fs ty u s' \<and> calls s' = calls s)"
    and deliver: "inv g (store_of h (layout (rs_next h) t)) [] ty u s \<Longrightarrow> fresh h \<Longrightarrow> takes g t \<Longrightarrow>
      runs (if sub then cbind (deliver_message hs (rs_next h) s) (\<lambda>s. Ok (cb, s)) else deliver_reply hs (rs_next h) cb s)
        (\<lambda>(cb', s'). \<exists>cs g'. step g t cs g' \<and> inv g' (spent h t) [] ty u s' \<and> calls s' = calls s @ cs)"
begin

definition after :: "'g \<Rightarrow> rstore \<Rightarrow> resp list \<Rightarrow> frames \<Rightarrow> int \<Rightarrow> bytes \<Rightarrow> snail \<Rightarrow> snail \<Rightarrow> bool" where
  "after g h ts fs ty u s s' \<longleftrightarrow> (\<exists>cs g' h'. steps step g ts cs g' \<and> inv g' h' fs ty u s' \<and>
     rs_map h' = rs_map h \<and> calls s' = calls s @ cs)"

lemma after_Nil: "inv g h fs ty u s' \<Longrightarrow> calls s' = calls s \<Longrightarrow> after g h [] fs ty u s s'"
  using steps_Nil by (fastforce simp: after_def)

lemma after_trans:
  assumes "steps step g ts cs g1" and "after g1 h1 us fs ty u s1 s'" and "rs_map h1 = rs_map h"
    and "calls s1 = calls s @ cs"
  shows "after g h (ts @ us) fs ty u s s'"
  using assms steps_append by (fastforce simp: after_def)

lemma fresh_inv: "inv g h fs ty u s \<Longrightarrow> fresh h"
  using reader [of g h fs ty u s] unfolding reader_state_def by blast

lemma replies:
  assumes "inv g h fs ty u s" and "drain fs ty u = (ts, Blocked fs' ty' u')" and "length u < n"
    and "takes_all takes step g ts"
  shows "runs (replies_loop n hs sub cb s) (\<lambda>(go, s'). go \<and> after g h ts fs' ty' u' s s')"
  using assms
proof (induction fs ty u arbitrary: g h s ts n cb rule: drain.induct)
  case (1 fs ty u)
  from \<open>length u < n\<close> obtain m where n: "n = Suc m" by (cases n) auto
  obtain r where r: "get_reader s = Ok r" and st: "reader_state h fs ty u r"
    using reader [OF "1.prems"(1)] by auto
  show ?case
  proof (cases "prun fs ty u")
    case (Done t v)
    obtain us where us: "drain [] (- 1) v = (us, Blocked fs' ty' u')" "ts = t # us"
      using "1.prems"(2) Done by (auto simp: drain.simps [of fs ty u] split: prod.splits)
    obtain r1 where get: "redisReaderGetReply (hs_env hs) r = Ok (REDIS_OK, Some (rs_next h), r1)"
      and st1: "reader_state (store_of h (layout (rs_next h) t)) [] (- 1) v r1" "r_pos r1 < 1024"
      using getReply_done [OF st Done grants [OF "1.prems"(1)]] by blast
    let ?s = "put_reader s r1"
    have tk: "takes g t" "\<And>cs g'. step g t cs g' \<Longrightarrow> takes_all takes step g' us"
      using "1.prems"(4) us(2) by auto
    have len: "length v < m" using prun_consumes [OF Done] "1.prems"(3) n by simp
    have "runs (cbind (if sub then cbind (deliver_message hs (rs_next h) ?s) (\<lambda>s. Ok (cb, s)) else deliver_reply hs (rs_next h) cb ?s)
        (\<lambda>(cb, s). replies_loop m hs sub cb s)) (\<lambda>(go, s'). go \<and> after g h ts fs' ty' u' s s')"
      unfolding runs_cbind
    proof (rule runs_mono [OF deliver [OF put_reader [OF "1.prems"(1) st1] fresh_inv [OF "1.prems"(1)] tk(1)]], clarify)
      fix cb' s1 cs g'
      assume s1: "step g t cs g'" "inv g' (spent h t) [] (- 1) v s1" "calls s1 = calls ?s @ cs"
      have one: "steps step g [t] cs g'" using s1(1) by (rule steps_one)
      have "runs (replies_loop m hs sub cb' s1) (\<lambda>(go, s'). go \<and> after g' (spent h t) us fs' ty' u' s1 s')"
        using "1.IH" [OF Done s1(2) us(1) len tk(2) [OF s1(1)]] .
      then show "runs (replies_loop m hs sub cb' s1) (\<lambda>(go, s'). go \<and> after g h ts fs' ty' u' s s')"
        by (rule runs_mono) (use after_trans [OF one] s1(3) in \<open>auto simp: us(2)\<close>)
    qed
    with r get show ?thesis by (cases sub) (simp_all add: n redis_status cbind_assoc)
  next
    case (Blocked fs1 ty1 u1)
    then have eq: "fs1 = fs'" "ty1 = ty'" "u1 = u'" "ts = []"
      using "1.prems"(2) by (auto simp: drain.simps [of fs ty u])
    obtain r1 where get: "redisReaderGetReply (hs_env hs) r = Ok (REDIS_OK, None, r1)"
      and st1: "reader_state h fs1 ty1 u1 r1" "r_pos r1 < 1024"
      using getReply_blocked [OF st Blocked grants [OF "1.prems"(1)]] by blast
    have inv1: "inv g h fs' ty' u' (put_reader s r1)"
      using put_reader [OF "1.prems"(1) st1] by (simp add: eq)
    with flags [OF inv1] after_Nil [OF inv1] r get show ?thesis by (simp add: n eq redis_status)
  qed (use "1.prems"(2) in \<open>simp_all add: drain.simps [of fs ty u]\<close>)
qed

lemma chunk:
  assumes "inv g h fs ty u s" and "drain fs ty u = ([], Blocked fs ty u)"
    and dr: "drain fs ty (u @ c) = (ts, Blocked fs' ty' u')"
    and "length u + length c < min (2 ^ 29) (hs_fuel hs)" and "takes_all takes step g ts"
  shows "runs (on_read hs a (int (length c)) buf c s) (after g h ts fs' ty' u' s)"
proof -
  have stop: "runs (stop_if_idle sub a s1) (after g h ts fs' ty' u' s)" if "after g h ts fs' ty' u' s s1" for s1
  proof -
    from that obtain cs g' h' where s1: "steps step g ts cs g'" "inv g' h' fs' ty' u' s1" "rs_map h' = rs_map h"
      "calls s1 = calls s @ cs" by (auto simp: after_def)
    show ?thesis by (rule runs_mono [OF idle [OF s1(2)]]) (use s1 in \<open>auto simp: after_def\<close>)
  qed
  have sub: "(cx_sub_stream (s_cx s) = Some a) = sub" and ctx: "handle_context (s_w s) a = Ok ()"
    using stream [OF assms(1)] by simp_all
  show ?thesis
  proof (cases "c = []")
    case True
    with assms(2) dr have "ts = []" "fs' = fs" "ty' = ty" "u' = u" by auto
    with stop [of s] after_Nil [OF assms(1)] ctx flags [OF assms(1)] True show ?thesis
      by (simp add: on_read_def sub)
  next
    case False
    obtain r where r: "get_reader s = Ok r" and st: "reader_state h fs ty u r" and p: "r_pos r < 1024"
      using reader [OF assms(1)] by auto
    have lim: "r_len r + int (length c) < 2 ^ 30"
      using reader_state_len [OF st] assms(4) p by simp
    have "runs (redisReaderFeed (hs_env hs) r (Some c) (int (length c)))
        (feed_post (hs_env hs) h fs ty (u @ take (length c) c) (r_pos r))"
      using st grants [OF assms(1)] lim by (intro redisReaderFeed_refines) auto
    then obtain r1 where feed: "redisReaderFeed (hs_env hs) r (Some c) (int (length c)) = Ok (REDIS_OK, r1)"
      and st1: "reader_state h fs ty (u @ c) r1" and p1: "r_pos r1 < 1024"
      using grants [OF assms(1)] p by (fastforce simp: feed_post_def out_of_memory_def runs_iff)
    let ?s = "upd_w (put_reader s r1) (\<lambda>w. buf_free w buf)"
    have same: "after g h ts fs' ty' u' ?s = after g h ts fs' ty' u' s" by (simp add: after_def fun_eq_iff)
    have "runs (replies_loop (hs_fuel hs) hs sub None ?s) (\<lambda>(go, s'). go \<and> after g h ts fs' ty' u' ?s s')"
      using put_reader [OF assms(1) st1 p1] dr assms(4,5) by (intro replies buffer) auto
    then have "runs (cbind (replies_loop (hs_fuel hs) hs sub None ?s) (\<lambda>(go, s). if go then stop_if_idle sub a s else Ok s))
        (after g h ts fs' ty' u' s)"
      unfolding runs_cbind by (rule runs_mono) (use stop same in auto)
    with r feed ctx flags [OF assms(1)] False show ?thesis by (simp add: on_read_def Let_def sub)
  qed
qed

lemma chunks:
  assumes "inv g h fs ty u s" and "drain fs ty u = ([], Blocked fs ty u)"
    and "drain fs ty (u @ concat (map snd cs)) = (ts, Blocked fs' ty' u')"
    and "length u + length (concat (map snd cs)) < min (2 ^ 29) (hs_fuel hs)" and "takes_all takes step g ts"
  shows "runs (on_reads hs a cs s) (after g h ts fs' ty' u' s)"
  using assms
proof (induction cs arbitrary: g h fs ty u s ts)
  case Nil
  then show ?case using after_Nil by auto
next
  case (Cons b cs)
  obtain buf c where b: "b = (buf, c)" by (cases b)
  have "drain fs ty ((u @ c) @ concat (map snd cs)) = (ts, Blocked fs' ty' u')"
    using Cons.prems(3) by (simp add: b)
  then obtain ts1 ts2 f1 ty1 u1 where d1: "drain fs ty (u @ c) = (ts1, Blocked f1 ty1 u1)"
    and d2: "drain f1 ty1 (u1 @ concat (map snd cs)) = (ts2, Blocked fs' ty' u')" and ts: "ts = ts1 @ ts2"
    by (rule drain_append_blocked)
  have tk: "takes_all takes step g ts1" "\<And>ds g'. steps step g ts1 ds g' \<Longrightarrow> takes_all takes step g' ts2"
    using Cons.prems(5) by (auto simp: ts takes_all_append)
  have lim: "length u + length c < min (2 ^ 29) (hs_fuel hs)"
    "length u1 + length (concat (map snd cs)) < min (2 ^ 29) (hs_fuel hs)"
    using drain_blocked_len [OF d1] Cons.prems(4) by (auto simp: b)
  have "runs (cbind (on_read hs a (int (length c)) buf c s) (on_reads hs a cs)) (after g h ts fs' ty' u' s)"
    unfolding runs_cbind
  proof (rule runs_mono [OF chunk [OF Cons.prems(1,2) d1 lim(1) tk(1)]])
    fix s1
    assume "after g h ts1 f1 ty1 u1 s s1"
    then obtain ds g1 h1 where s1: "steps step g ts1 ds g1" "inv g1 h1 f1 ty1 u1 s1" "rs_map h1 = rs_map h"
      "calls s1 = calls s @ ds" by (auto simp: after_def)
    have "runs (on_reads hs a cs s1) (after g1 h1 ts2 fs' ty' u' s1)"
      by (rule Cons.IH [OF s1(2) drain_blocked_again [OF d1] d2 lim(2) tk(2) [OF s1(1)]])
    then show "runs (on_reads hs a cs s1) (after g h ts fs' ty' u' s)"
      by (rule runs_mono) (use after_trans [OF s1(1) _ s1(3,4)] in \<open>simp add: ts\<close>)
  qed
  then show ?case by (simp add: b)
qed

end

end
