(* ===== verification/Snail_Deliver.thy ===== *)
theory Snail_Deliver
  imports Snail_Stream
begin

text \<open>
  The command stream: what \<open>on_read\<close> does with the replies to commands, an instance of \<open>reply_stream\<close>
  on the queue of callbacks (\<open>Cb_Queue\<close>) and the translation of replies (\<open>Snail_Reply\<close>). The Lua
  functions that are called may themselves issue commands.
\<close>


section \<open>What a client looks like between two events\<close>

text \<open>
  The client is connected and does not monitor, its reader holds the unread bytes \<open>u\<close> and the
  open arrays \<open>fs\<close> over the store \<open>h\<close>, and the list of commands at \<open>e\<close> holds \<open>xs\<close>.
\<close>

definition connected :: "snail \<Rightarrow> bool" where
  "connected s \<longleftrightarrow>
     has_flag (cx_flags (s_cx s)) REDIS_CONNECTED \<and> \<not> has_flag (cx_flags (s_cx s)) REDIS_DISCONNECTING \<and>
     \<not> has_flag (cx_flags (s_cx s)) REDIS_FREEING \<and>
     (\<exists>a hd. cx_stream (s_cx s) = Some a \<and> w_hand (s_w s) a = Some hd)"

definition client_at :: "rstore \<Rightarrow> frames \<Rightarrow> int \<Rightarrow> bytes \<Rightarrow> nat \<Rightarrow> entry list \<Rightarrow> snail \<Rightarrow> bool" where
  "client_at h fs ty u e xs s \<longleftrightarrow>
     cx_live (s_cx s) \<and>
     (\<exists>r. cx_reader (s_cx s) = Some r \<and> reader_state h fs ty u r \<and> r_pos r < 1024) \<and>
     cx_list (s_cx s) = Some e \<and> cb_queue (s_w s) e xs \<and> connected s \<and>
     \<not> has_flag (cx_flags (s_cx s)) REDIS_MONITORING"

abbreviation refs_of :: "entry list \<Rightarrow> int list" where
  "refs_of xs \<equiv> map (\<lambda>(x, c, r). r) xs"

text \<open>The calls that replies to commands make.\<close>

definition deliveries :: "host \<Rightarrow> (int \<times> resp) list \<Rightarrow> (int \<times> lua list) list" where
  "deliveries hs rts = map (\<lambda>(r, t). (r, [LNil, to_lua t])) (filter (\<lambda>(r, t). has_ref hs r) rts)"

text \<open>The command stream \<open>a\<close> is open and knows its client.\<close>

definition stream_ready :: "nat \<Rightarrow> snail \<Rightarrow> bool" where
  "stream_ready a s \<longleftrightarrow>
     (\<exists>hd. w_hand (s_w s) a = Some hd \<and> h_data hd) \<and> cx_sub_stream (s_cx s) \<noteq> Some a"

definition keeps :: "snail \<Rightarrow> snail \<Rightarrow> bool" where
  "keeps s s' \<longleftrightarrow> (\<forall>a. stream_ready a s \<longrightarrow> stream_ready a s')"

lemma keeps_refl [simp]: "keeps s s"
  by (simp add: keeps_def)

lemma keeps_trans: "keeps s s' \<Longrightarrow> keeps s' s'' \<Longrightarrow> keeps s s''"
  by (simp add: keeps_def)

lemma keepsI:
  "w_hand (s_w s') = w_hand (s_w s) \<Longrightarrow> cx_sub_stream (s_cx s') = cx_sub_stream (s_cx s) \<Longrightarrow> keeps s s'"
  by (simp add: keeps_def stream_ready_def)

text \<open>
  What is asked of the Lua functions: they may issue commands, whose callbacks go behind the
  others, and leave the rest of the client as it is; \<open>ys\<close> are the callbacks they add.
\<close>

definition polite :: "host \<Rightarrow> bool" where
  "polite hs \<longleftrightarrow>
     (\<forall>ref args h fs ty u e xs s. client_at h fs ty u e xs s \<longrightarrow>
        runs (hs_lua hs ref args s) (\<lambda>s'. (\<exists>ys. client_at h fs ty u e (xs @ ys) s') \<and> calls s' = calls s \<and>
          keeps s s'))"

lemma deliveries_simps [simp]:
  "deliveries hs [] = []"
  "deliveries hs ((r, t) # rts) = (if has_ref hs r then [(r, [LNil, to_lua t])] else []) @ deliveries hs rts"
  by (simp_all add: deliveries_def)

lemma connected_cong:
  "cx_flags (s_cx s') = cx_flags (s_cx s) \<Longrightarrow> cx_stream (s_cx s') = cx_stream (s_cx s) \<Longrightarrow>
   w_hand (s_w s') = w_hand (s_w s) \<Longrightarrow> connected s' = connected s"
  by (simp add: connected_def)

lemma connected_reader [simp]: "connected (upd_cx s (cx_reader_update f)) = connected s"
  by (rule connected_cong) simp_all

lemma connected_hand: "w_hand w = w_hand (s_w s) \<Longrightarrow> connected (s\<lparr>s_w := w\<rparr>) = connected s"
  by (rule connected_cong) simp_all

lemma connected_not_disconnecting: "connected s \<Longrightarrow> \<not> has_flag (cx_flags (s_cx s)) REDIS_DISCONNECTING"
  by (simp add: connected_def)

lemma cb_queue_emit [simp]: "cb_queue (emit w x) e xs = cb_queue w e xs"
  by (simp add: cb_queue_def world_fresh_def emit_def)

lemma client_at_emit [simp]:
  "client_at h fs ty u e xs (upd_w s (\<lambda>w. emit w x)) = client_at h fs ty u e xs s"
  by (simp add: client_at_def connected_def) (simp add: emit_def)

lemma client_at_buf [simp]:
  "client_at h fs ty u e xs (upd_w s (\<lambda>w. buf_free w buf)) = client_at h fs ty u e xs s"
  by (simp add: client_at_def connected_def cb_queue_def world_fresh_def) (simp add: buf_free_def)

section \<open>One reply\<close>

lemma free_reply_object_spent:
  assumes "client_at (store_of h (layout (rs_next h) t)) [] ty u e xs s" and "fresh h"
  shows "runs (free_reply_object (rs_next h) s) (\<lambda>s'. client_at (spent h t) [] ty u e xs s' \<and> s_w s' = s_w s \<and>
           keeps s s' \<and> (\<exists>r. s' = put_reader s r))"
proof -
  obtain r where r: "cx_reader (s_cx s) = Some r" "cx_live (s_cx s)"
    and st: "reader_state (store_of h (layout (rs_next h) t)) [] ty u r" "r_pos r < 1024"
    using assms(1) by (auto simp: client_at_def)
  have "r_store r = store_of h (layout (rs_next h) t)"
    using reader_state_store [OF st(1)] by simp
  with assms r st reader_spent [OF st(1) assms(2)] free_spent [OF assms(2), of t] show ?thesis
    by (auto simp: free_reply_object_def get_reader_def put_reader_def client_at_def intro: keepsI)
qed

text \<open>A Lua function called with a value, then the reply released.\<close>

lemma call_and_free:
  assumes "polite hs" and "client_at (store_of h (layout (rs_next h) t)) [] ty u e xs s" and "fresh h"
  shows "runs (cbind (lua_pcall hs ref args s) (free_reply_object (rs_next h))) (\<lambda>s'.
           (\<exists>ys. client_at (spent h t) [] ty u e (xs @ ys) s') \<and> calls s' = calls s @ [(ref, args)] \<and> keeps s s')"
proof -
  let ?s = "upd_w s (\<lambda>w. emit w (LuaCall ref args))"
  have k: "keeps s ?s" by (rule keepsI) (simp_all add: emit_def)
  have "client_at (store_of h (layout (rs_next h) t)) [] ty u e xs ?s" using assms(2) by simp
  then have "runs (hs_lua hs ref args ?s) (\<lambda>s'.
      (\<exists>ys. client_at (store_of h (layout (rs_next h) t)) [] ty u e (xs @ ys) s') \<and> calls s' = calls ?s \<and>
      keeps ?s s')"
    using assms(1) unfolding polite_def by blast
  then show ?thesis
    unfolding runs_cbind lua_pcall_def
  proof (rule runs_mono, elim conjE exE)
    fix s' ys
    assume "client_at (store_of h (layout (rs_next h) t)) [] ty u e (xs @ ys) s'" and c: "calls s' = calls ?s" "keeps ?s s'"
    from free_reply_object_spent [OF this(1) assms(3)]
    show "runs (free_reply_object (rs_next h) s') (\<lambda>s'.
        (\<exists>ys. client_at (spent h t) [] ty u e (xs @ ys) s') \<and> calls s' = calls s @ [(ref, args)] \<and> keeps s s')"
      by (rule runs_mono) (use c k in \<open>auto intro: keeps_trans\<close>)
  qed
qed

lemma push_reply_client:
  assumes "client_at (store_of h (layout (rs_next h) t)) [] ty u e xs s" and "get_reader s = Ok r"
  shows "push_reply (Suc (rs_next (r_store r))) (r_store r) (rs_next h) = Ok (to_lua t)"
proof -
  have "reader_state (store_of h (layout (rs_next h) t)) [] ty u r"
    using assms by (auto simp: client_at_def get_reader_def)
  then have "r_store r = store_of h (layout (rs_next h) t)" using reader_state_store by fastforce
  then show ?thesis using push_reply_layout(1) [OF at_store_of] by (simp del: push_reply.simps)
qed

lemma deliver_reply_step:
  assumes "polite hs" and "fresh h"
    and at: "client_at (store_of h (layout (rs_next h) t)) [] ty u e ((x, c, ref) # xs) s"
  shows "runs (deliver_reply hs (rs_next h) cb s) (\<lambda>(cb', s').
           (\<exists>ys. client_at (spent h t) [] ty u e (xs @ ys) s') \<and>
           calls s' = calls s @ deliveries hs [(ref, t)] \<and> keeps s s')"
proof -
  have q: "cb_queue (s_w s) e ((x, c, ref) # xs)" and e: "cx_list (s_cx s) = Some e"
    using at by (auto simp: client_at_def)
  obtain w where shift: "shift_cb (s_w s) (Some e) = Ok (SNAIL_OK, Some (command_cb ref), w)"
    and w: "cb_queue w e xs" "same_rest (s_w s) w"
    using shift_cb_queue [OF q] by (auto simp: runs_iff)
  let ?s = "s\<lparr>s_w := w\<rparr>"
  have at': "client_at (store_of h (layout (rs_next h) t)) [] ty u e xs ?s"
    using at w by (simp add: client_at_def connected_hand same_rest_def)
  have calls: "calls ?s = calls s" using w(2) by (simp add: same_rest_def)
  have k: "keeps s ?s" using w(2) by (intro keepsI) (simp_all add: same_rest_def)
  have ref: "cb_ref (command_cb ref) = ref" by (simp add: command_cb_def)
  show ?thesis
  proof (cases "has_ref hs ref")
    case True
    obtain r where r: "get_reader ?s = Ok r" using at' by (auto simp: client_at_def get_reader_def)
    have un: "client_at (store_of h (layout (rs_next h) t)) [] ty u e xs (luaL_unref ref ?s)"
      "calls (luaL_unref ref ?s) = calls s"
      using at' calls by (simp_all add: luaL_unref_def)
    have k': "keeps s (luaL_unref ref ?s)"
      using k by (rule keeps_trans) (rule keepsI, simp_all add: luaL_unref_def emit_def)
    from call_and_free [OF assms(1) un(1) assms(2), of ref "[LNil, to_lua t]"] un(2)
    have "runs (cbind (lua_pcall hs ref [LNil, to_lua t] (luaL_unref ref ?s)) (free_reply_object (rs_next h))) (\<lambda>s'.
        (\<exists>ys. client_at (spent h t) [] ty u e (xs @ ys) s') \<and> calls s' = calls s @ [(ref, [LNil, to_lua t])] \<and> keeps s s')"
      by (auto elim!: runs_mono intro: keeps_trans [OF k'])
    with True r push_reply_client [OF at' r] e shift show ?thesis
      by (simp add: deliver_reply_def never_written_def ref runs_cbind)
  next
    case False
    from free_reply_object_spent [OF at' assms(2)]
    have "runs (free_reply_object (rs_next h) ?s) (\<lambda>s'.
        (\<exists>ys. client_at (spent h t) [] ty u e (xs @ ys) s') \<and> calls s' = calls s \<and> keeps s s')"
      by (rule runs_mono) (use calls k in \<open>auto intro: exI [of _ "[]"] keeps_trans\<close>)
    with False e shift show ?thesis
      by (simp add: deliver_reply_def never_written_def ref runs_cbind)
  qed
qed

lemma client_at_reader:
  assumes "client_at h fs ty u e xs s"
  obtains r where "get_reader s = Ok r" and "reader_state h fs ty u r" and "r_pos r < 1024"
  using assms by (auto simp: client_at_def get_reader_def)

lemma client_at_put_reader:
  assumes "client_at h fs ty u e xs s" and "reader_state h' fs' ty' u' r" and "r_pos r < 1024"
  shows "client_at h' fs' ty' u' e xs (put_reader s r)"
  using assms by (simp add: client_at_def put_reader_def)

lemma client_at_fresh: "client_at h fs ty u e xs s \<Longrightarrow> fresh h"
  by (auto simp: client_at_def reader_state_def)

section \<open>All replies of the chunks\<close>

text \<open>The callbacks pending, and what a reply does to them.\<close>

definition cmd_inv :: "host \<Rightarrow> nat \<Rightarrow> nat \<Rightarrow> snail \<Rightarrow> entry list \<Rightarrow> rstore \<Rightarrow> frames \<Rightarrow> int \<Rightarrow> bytes \<Rightarrow> snail \<Rightarrow> bool" where
  "cmd_inv hs a e s0 xs h fs ty u s \<longleftrightarrow>
     polite hs \<and> grants_all (hs_env hs) \<and> client_at h fs ty u e xs s \<and> stream_ready a s \<and> keeps s0 s"

definition cmd_step :: "host \<Rightarrow> entry list \<Rightarrow> resp \<Rightarrow> (int \<times> lua list) list \<Rightarrow> entry list \<Rightarrow> bool" where
  "cmd_step hs xs t cs xs' \<longleftrightarrow>
     (\<exists>x c r zs ys. xs = (x, c, r) # zs \<and> cs = deliveries hs [(r, t)] \<and> xs' = zs @ ys)"

lemma cmd_steps:
  "steps (cmd_step hs) xs ts cs xs' \<Longrightarrow> length ts \<le> length xs \<Longrightarrow>
   cs = deliveries hs (zip (refs_of xs) ts) \<and> (\<exists>ys. xs' = drop (length ts) xs @ ys)"
proof (induction rule: steps.induct)
  case (steps_Cons xs t cs xs1 ts ds xs')
  then obtain x c r zs ys where xs: "xs = (x, c, r) # zs" "cs = deliveries hs [(r, t)]" "xs1 = zs @ ys"
    by (auto simp: cmd_step_def)
  with steps_Cons show ?case by (auto simp: zip_append1)
qed simp

lemma cmd_takes_all: "length ts \<le> length xs \<Longrightarrow> takes_all (\<lambda>xs t. xs \<noteq> []) (cmd_step hs) xs ts"
  by (induction ts arbitrary: xs) (auto simp: cmd_step_def)

lemma stop_if_idle_client:
  assumes "client_at h fs ty u e xs s"
  shows "runs (stop_if_idle sub_mode a s) (\<lambda>s'. client_at h fs ty u e xs s' \<and> calls s' = calls s \<and> keeps s s')"
proof -
  have "\<exists>en. cx_list (s_cx s) = Some e \<and> w_ends (s_w s) e = Some en"
    using assms by (auto simp: client_at_def cb_queue_def)
  with assms show ?thesis
    by (auto simp: stop_if_idle_def list_is_empty_def intro!: keepsI) (simp_all add: emit_def)
qed

lemma cmd_inv_keeps:
  "cmd_inv hs a e s0 xs h fs ty u s \<Longrightarrow> client_at h' fs' ty' u' e xs' s' \<Longrightarrow> keeps s s' \<Longrightarrow>
   cmd_inv hs a e s0 xs' h' fs' ty' u' s'"
  using keeps_trans by (auto simp: cmd_inv_def keeps_def)

interpretation replies_in: reply_stream hs False a "cmd_inv hs a e s0" "\<lambda>xs t. xs \<noteq> []" "cmd_step hs"
  for hs a e s0
proof
  fix g h fs ty u s
  assume i: "cmd_inv hs a e s0 g h fs ty u s"
  then have at: "client_at h fs ty u e g s" by (simp add: cmd_inv_def)
  show "grants_all (hs_env hs)" using i by (simp add: cmd_inv_def)
  show "\<exists>r. get_reader s = Ok r \<and> reader_state h fs ty u r \<and> r_pos r < 1024"
    using at by (auto elim: client_at_reader)
  show "cmd_inv hs a e s0 g h' fs' ty' u' (put_reader s r)" if "reader_state h' fs' ty' u' r" "r_pos r < 1024" for h' fs' ty' u' r
    using i client_at_put_reader [OF at that] by (rule cmd_inv_keeps) (auto intro: keepsI simp: put_reader_def)
  show "cmd_inv hs a e s0 g h fs ty u (upd_w s (\<lambda>w. buf_free w buf))" for buf
    by (rule cmd_inv_keeps [OF i]) (use at in simp, rule keepsI, simp_all add: buf_free_def)
  show "\<not> has_flag (cx_flags (s_cx s)) REDIS_DISCONNECTING \<and> \<not> has_flag (cx_flags (s_cx s)) REDIS_MONITORING"
    using at by (simp add: client_at_def connected_not_disconnecting)
  show "handle_context (s_w s) a = Ok () \<and> (cx_sub_stream (s_cx s) = Some a) = False"
    using i by (auto simp: cmd_inv_def stream_ready_def handle_context_def)
  show "runs (stop_if_idle False a s) (\<lambda>s'. cmd_inv hs a e s0 g h fs ty u s' \<and> calls s' = calls s)"
    by (rule runs_mono [OF stop_if_idle_client [OF at]]) (use cmd_inv_keeps [OF i] in auto)
next
  fix g h t ty u s cb
  assume i: "cmd_inv hs a e s0 g (store_of h (layout (rs_next h) t)) [] ty u s" and "fresh h" "g \<noteq> []"
  obtain x c r zs where g: "g = (x, c, r) # zs" using \<open>g \<noteq> []\<close> by (cases g) auto
  have "runs (deliver_reply hs (rs_next h) cb s) (\<lambda>(cb', s'). (\<exists>ys. client_at (spent h t) [] ty u e (zs @ ys) s') \<and>
      calls s' = calls s @ deliveries hs [(r, t)] \<and> keeps s s')"
    using i \<open>fresh h\<close> by (intro deliver_reply_step) (auto simp: cmd_inv_def g)
  then have "runs (deliver_reply hs (rs_next h) cb s) (\<lambda>(cb', s'). \<exists>cs g'. cmd_step hs g t cs g' \<and>
      cmd_inv hs a e s0 g' (spent h t) [] ty u s' \<and> calls s' = calls s @ cs)"
    by (rule runs_mono) (use cmd_inv_keeps [OF i] in \<open>fastforce simp: cmd_step_def g\<close>)
  then show "runs (if False then cbind (deliver_message hs (rs_next h) s) (\<lambda>s. Ok (cb, s)) else deliver_reply hs (rs_next h) cb s)
      (\<lambda>(cb', s'). \<exists>cs g'. cmd_step hs g t cs g' \<and> cmd_inv hs a e s0 g' (spent h t) [] ty u s' \<and> calls s' = calls s @ cs)"
    by simp
qed

definition delivered :: "host \<Rightarrow> rstore \<Rightarrow> frames \<Rightarrow> int \<Rightarrow> bytes \<Rightarrow> nat \<Rightarrow> entry list \<Rightarrow> resp list \<Rightarrow> snail \<Rightarrow> snail \<Rightarrow> bool" where
  "delivered hs h fs ty u e xs ts s s' \<longleftrightarrow>
     (\<exists>h' ys. client_at h' fs ty u e (drop (length ts) xs @ ys) s' \<and> rs_map h' = rs_map h) \<and>
     calls s' = calls s @ deliveries hs (zip (refs_of xs) ts) \<and> keeps s s'"

lemma after_delivered:
  "replies_in.after hs a e s xs h ts fs ty u s s' \<Longrightarrow> length ts \<le> length xs \<Longrightarrow> delivered hs h fs ty u e xs ts s s'"
  using cmd_steps by (fastforce simp: replies_in.after_def delivered_def cmd_inv_def)

lemma on_read_delivers:
  assumes "polite hs" and "grants_all (hs_env hs)" and "client_at h fs ty u e xs s" and "stream_ready a s"
    and "drain fs ty u = ([], Blocked fs ty u)" and "drain fs ty (u @ c) = (ts, Blocked fs' ty' u')"
    and "length u + length c < min (2 ^ 29) (hs_fuel hs)" and "length ts \<le> length xs"
  shows "runs (on_read hs a (int (length c)) buf c s) (delivered hs h fs' ty' u' e xs ts s)"
proof -
  have "cmd_inv hs a e s xs h fs ty u s" using assms by (simp add: cmd_inv_def)
  from replies_in.chunk [OF this assms(5-7) cmd_takes_all [OF assms(8)]] show ?thesis
    by (rule runs_mono) (use after_delivered assms(8) in auto)
qed

lemma on_reads_deliver:
  assumes "polite hs" and "grants_all (hs_env hs)"
    and "client_at h fs ty u e xs s" and "stream_ready a s" and "drain fs ty u = ([], Blocked fs ty u)"
    and "drain fs ty (u @ concat (map snd cs)) = (ts, Blocked fs' ty' u')"
    and "length u + length (concat (map snd cs)) < min (2 ^ 29) (hs_fuel hs)" and "length ts \<le> length xs"
  shows "runs (on_reads hs a cs s) (delivered hs h fs' ty' u' e xs ts s)"
proof -
  have "cmd_inv hs a e s xs h fs ty u s" using assms by (simp add: cmd_inv_def)
  from replies_in.chunks [OF this assms(5-7) cmd_takes_all [OF assms(8)]] show ?thesis
    by (rule runs_mono) (use after_delivered assms(8) in auto)
qed

end
