(* ===== verification/Snail_Session.thy ===== *)
theory Snail_Session
  imports Snail_Deliver
begin

text \<open>
  A client over time: commands and chunks of replies in any order, against a specification
  without lists, buffers and stores; and how a new client gets to its connected state.
\<close>


section \<open>A plain command\<close>

lemma new_req_ok:
  assumes "world_fresh w" and "grants_all (hs_env hs)"
  shows "\<exists>a w'. new_req hs w = Ok (a, w') \<and> world_fresh w' \<and> w_hand w' = (w_hand w)(a \<mapsto> \<lparr>h_data = True, h_repeat = 0\<rparr>) \<and>
           w_chan w' = w_chan w \<and> w_call w' = w_call w \<and> w_ll w' = w_ll w \<and> w_ends w' = w_ends w \<and>
           w_node w' = w_node w \<and> w_bufs w' = w_bufs w \<and> w_trace w' = w_trace w \<and>
           set (w_reqs w') \<subseteq> set (w_reqs w) \<and> a < w_next w' \<and> w_next w \<le> w_next w' \<and>
           (a \<in> set (w_reqs w) \<or> a = w_next w)"
proof (cases "w_reqs w")
  case Nil
  with assms show ?thesis
    by (simp add: new_req_def req_alloc_def put_defs) (simp add: world_fresh_def)
next
  case (Cons a as)
  with assms show ?thesis
    by (simp add: new_req_def req_alloc_def put_defs) (auto simp: world_fresh_def)
qed

lemma cb_queue_cong:
  "cb_queue w e xs \<Longrightarrow> world_fresh w' \<Longrightarrow> w_call w' = w_call w \<Longrightarrow> w_ll w' = w_ll w \<Longrightarrow> w_ends w' = w_ends w \<Longrightarrow>
   cb_queue w' e xs"
  by (simp add: cb_queue_def)

lemma emit_hand [simp]: "w_hand (emit w x) = w_hand w"
  by (simp add: emit_def)

text \<open>What a command that goes out leaves: its callback at the end of the list, and a write.\<close>

definition sent :: "rstore \<Rightarrow> frames \<Rightarrow> int \<Rightarrow> bytes \<Rightarrow> nat \<Rightarrow> entry list \<Rightarrow> int \<Rightarrow> bytes \<Rightarrow> snail \<Rightarrow> snail \<Rightarrow> bool" where
  "sent h fs ty u e xs ref cmd s s' \<longleftrightarrow>
     (\<exists>x c. client_at h fs ty u e (xs @ [(x, c, ref)]) s') \<and> keeps s s' \<and>
     (\<exists>a req. cx_stream (s_cx s) = Some a \<and> w_trace (s_w s') = w_trace (s_w s) @ [UvWrite req a cmd])"

lemma start_write_runs:
  assumes at: "client_at h fs ty u e xs s" and "grants_all (hs_env hs)"
    and st: "(if sub then cx_sub_stream (s_cx s) else cx_stream (s_cx s)) = Some a" "w_hand (s_w s) a = Some hn"
  shows "\<exists>req w. start_write hs sub cmd s = Ok (hs_write hs a cmd, Some req, s\<lparr>s_w := emit w (UvWrite req a cmd)\<rparr>) \<and>
           world_fresh w \<and> req < w_next w \<and> w_hand w = (w_hand (s_w s))(req \<mapsto> \<lparr>h_data = True, h_repeat = 0\<rparr>) \<and>
           w_call w = w_call (s_w s) \<and> w_ll w = w_ll (s_w s) \<and> w_ends w = w_ends (s_w s) \<and> w_node w = w_node (s_w s) \<and>
           w_chan w = w_chan (s_w s) \<and> w_trace w = w_trace (s_w s)"
proof -
  have fl: "has_flag (cx_flags (s_cx s)) REDIS_CONNECTED" and q: "cb_queue (s_w s) e xs"
    using at by (simp_all add: client_at_def connected_def)
  have "world_fresh (s_w s)" using q by (simp add: cb_queue_def)
  from new_req_ok [OF this assms(2)] obtain req w where req: "new_req hs (s_w s) = Ok (req, w)" "req < w_next w"
    and w: "world_fresh w" "w_hand w = (w_hand (s_w s))(req \<mapsto> \<lparr>h_data = True, h_repeat = 0\<rparr>)"
      "w_call w = w_call (s_w s)" "w_ll w = w_ll (s_w s)" "w_ends w = w_ends (s_w s)" "w_node w = w_node (s_w s)"
      "w_chan w = w_chan (s_w s)" "w_trace w = w_trace (s_w s)"
    by auto
  obtain hd' where "w_hand w a = Some hd'" using st(2) w(2) by (cases "a = req") auto
  then have "start_write hs sub cmd s = Ok (hs_write hs a cmd, Some req, s\<lparr>s_w := emit w (UvWrite req a cmd)\<rparr>)"
    using fl st(1) req(1) by (simp add: start_write_def Let_def)
  with w req(2) show ?thesis by blast
qed

lemma send_command_runs:
  assumes at: "client_at h fs ty u e xs s" and "grants_all (hs_env hs)" and "\<And>a b. hs_write hs a b = 0"
    and st: "(if sub then cx_sub_stream (s_cx s) else cx_stream (s_cx s)) = Some a" "w_hand (s_w s) a = Some hn"
  shows "\<exists>req w. send_command hs sub cmd s = Ok (Ret 1, s\<lparr>s_w := emit w (UvWrite req a cmd)\<rparr>) \<and> world_fresh w \<and>
           w_hand w = (w_hand (s_w s))(req \<mapsto> \<lparr>h_data = True, h_repeat = 0\<rparr>) \<and> w_call w = w_call (s_w s) \<and>
           w_ll w = w_ll (s_w s) \<and> w_ends w = w_ends (s_w s) \<and> w_node w = w_node (s_w s) \<and>
           w_chan w = w_chan (s_w s) \<and> w_trace w = w_trace (s_w s)"
proof -
  have fl: "has_flag (cx_flags (s_cx s)) REDIS_CONNECTED" "\<not> has_flag (cx_flags (s_cx s)) REDIS_DISCONNECTING"
    "\<not> has_flag (cx_flags (s_cx s)) REDIS_FREEING"
    using at by (simp_all add: client_at_def connected_def)
  from start_write_runs [OF at assms(2) st, of cmd] show ?thesis
    using fl assms(3) by (fastforce simp: send_command_def Let_def)
qed

lemma send_command_ok:
  assumes at: "client_at h fs ty u e xs s" and "grants_all (hs_env hs)" and "\<And>a b. hs_write hs a b = 0"
  shows "runs (send_command hs False cmd s) (\<lambda>(res, s'). res = Ret 1 \<and> client_at h fs ty u e xs s' \<and> keeps s s' \<and>
           (\<exists>a req. cx_stream (s_cx s) = Some a \<and> w_trace (s_w s') = w_trace (s_w s) @ [UvWrite req a cmd]))"
proof -
  obtain a hd where a: "cx_stream (s_cx s) = Some a" "w_hand (s_w s) a = Some hd"
    using at by (auto simp: client_at_def connected_def)
  have st: "(if False then cx_sub_stream (s_cx s) else cx_stream (s_cx s)) = Some a" using a(1) by simp
  from send_command_runs [OF assms st a(2), of cmd] obtain req w
    where run: "send_command hs False cmd s = Ok (Ret 1, s\<lparr>s_w := emit w (UvWrite req a cmd)\<rparr>)"
    and w: "world_fresh w" "w_hand w = (w_hand (s_w s))(req \<mapsto> \<lparr>h_data = True, h_repeat = 0\<rparr>)"
      "w_call w = w_call (s_w s)" "w_ll w = w_ll (s_w s)" "w_ends w = w_ends (s_w s)" "w_trace w = w_trace (s_w s)"
    by auto
  let ?s = "s\<lparr>s_w := emit w (UvWrite req a cmd)\<rparr>"
  obtain hd' where hd': "w_hand w a = Some hd'" using a(2) w(2) by (cases "a = req") auto
  have q: "cb_queue (s_w s) e xs" using at by (simp add: client_at_def)
  have "client_at h fs ty u e xs ?s"
    using at cb_queue_cong [OF q w(1,3-5)] hd' a(1) by (auto simp: client_at_def connected_def)
  moreover have "keeps s ?s"
    using w(2) by (auto simp: keeps_def stream_ready_def)
  ultimately show ?thesis using run a(1) w(6) by auto
qed

text \<open>A command whose words are in order and whose callback is registered is sent.\<close>

lemma command_steps:
  assumes env: "grants_all (hs_env hs)" and "split_callback hs args = (ws, ref)"
    and "command_args hs ws [] [] = Ok (Ret (word # names, tm))"
    and "length (encode (RArray (map RString (word # names)))) < 2 ^ 30"
  shows "lua_client_command hs args s =
    cbind (register_command hs ref names tm word s)
      (\<lambda>(sub, s). send_command hs sub (encode (RArray (map RString (word # names)))) s)"
proof -
  let ?argv = "word # names" and ?cmd = "encode (RArray (map RString (word # names)))"
  have "args_in (map (\<lambda>a. a @ [NUL]) ?argv) (Some (map (\<lambda>a. int (length a)) ?argv)) ?argv"
    unfolding args_in_def arg_at_def by (auto simp: nth_Cons' nth_append)
  then have fmt: "redisFormatCommandArgv (hs_env hs) (int (length ?argv)) (map (\<lambda>a. a @ [NUL]) ?argv)
      (Some (map (\<lambda>a. int (length a)) ?argv)) = Ok (int (length ?cmd), Some (?cmd @ [NUL]))"
    using redisFormatCommandArgv_eq [OF _ assms(4)] env by (simp add: Let_def del: encode.simps)
  with assms show ?thesis by (simp add: lua_client_command_def Let_def del: encode.simps)
qed

lemma command_runs:
  assumes "grants_all (hs_env hs)" and "split_callback hs args = (ws, ref)"
    and "command_args hs ws [] [] = Ok (Ret (word # names, tm))"
    and "length (encode (RArray (map RString (word # names)))) < 2 ^ 30"
    and "register_command hs ref names tm word s = Ok (sub, s1)"
  shows "lua_client_command hs args s = send_command hs sub (encode (RArray (map RString (word # names)))) s1"
  unfolding command_steps [OF assms(1-4)] assms(5) by simp

lemma plain_registered:
  assumes at: "client_at h fs ty u e xs s" and env: "grants_all (hs_env hs)" and "command_kind word = Plain"
  shows "\<exists>w x c. register_command hs ref names tm word s = Ok (False, s\<lparr>s_w := w\<rparr>) \<and>
           client_at h fs ty u e (xs @ [(x, c, ref)]) (s\<lparr>s_w := w\<rparr>) \<and> same_rest (s_w s) w"
proof -
  have q: "cb_queue (s_w s) e xs" and e: "cx_list (s_cx s) = Some e"
    using at by (simp_all add: client_at_def)
  have "runs (append_callback (hs_env hs) (s_w s) (Some e) ref) (\<lambda>w. \<exists>x c. cb_queue w e (xs @ [(x, c, ref)]) \<and> same_rest (s_w s) w)"
    by (rule runs_mono [OF append_callback_queue [OF q]]) (use env in auto)
  then obtain w x c where app: "append_callback (hs_env hs) (s_w s) (Some e) ref = Ok w"
    and w: "cb_queue w e (xs @ [(x, c, ref)])" "same_rest (s_w s) w"
    by (auto simp: runs_iff)
  have "client_at h fs ty u e (xs @ [(x, c, ref)]) (s\<lparr>s_w := w\<rparr>)"
    using at w by (simp add: client_at_def connected_hand same_rest_def)
  moreover have "register_command hs ref names tm word s = Ok (False, s\<lparr>s_w := w\<rparr>)"
    using assms(3) e app by (simp add: register_command_def)
  ultimately show ?thesis using w(2) by blast
qed

lemma plain_command_sent:
  assumes at: "client_at h fs ty u e xs s" and env: "grants_all (hs_env hs)" and wr: "\<And>a b. hs_write hs a b = 0"
    and "split_callback hs args = (ws, ref)" and "command_args hs ws [] [] = Ok (Ret (word # names, tm))"
    and "command_kind word = Plain" and "length (encode (RArray (map RString (word # names)))) < 2 ^ 30"
  shows "runs (lua_client_command hs args s) (\<lambda>(res, s'). res = Ret 1 \<and>
           sent h fs ty u e xs ref (encode (RArray (map RString (word # names)))) s s')"
proof -
  let ?cmd = "encode (RArray (map RString (word # names)))"
  obtain w x c where reg: "register_command hs ref names tm word s = Ok (False, s\<lparr>s_w := w\<rparr>)"
    and at': "client_at h fs ty u e (xs @ [(x, c, ref)]) (s\<lparr>s_w := w\<rparr>)" and w: "same_rest (s_w s) w"
    using plain_registered [OF at env assms(6)] by blast
  let ?s = "s\<lparr>s_w := w\<rparr>"
  have k: "keeps s ?s" "w_trace (s_w ?s) = w_trace (s_w s)" "cx_stream (s_cx ?s) = cx_stream (s_cx s)"
    using w by (auto simp: same_rest_def intro: keepsI)
  from send_command_ok [OF at' env wr, of ?cmd]
  have "runs (send_command hs False ?cmd ?s) (\<lambda>(res, s'). res = Ret 1 \<and> sent h fs ty u e xs ref ?cmd s s')"
    by (rule runs_mono) (use k keeps_trans in \<open>fastforce simp: sent_def simp del: encode.simps\<close>)
  moreover have "lua_client_command hs args s = send_command hs False ?cmd ?s"
    by (rule command_runs [OF env assms(4,5,7) reg])
  ultimately show ?thesis by (simp only:)
qed

section \<open>Commands and chunks in any order\<close>

text \<open>A call of \<open>command\<close> that is neither a subscription nor monitoring, its callback and its words.\<close>

definition plain_call :: "host \<Rightarrow> larg list \<Rightarrow> int \<Rightarrow> bytes list \<Rightarrow> bool" where
  "plain_call hs args ref argv \<longleftrightarrow>
     (\<exists>ws tm. split_callback hs args = (ws, ref) \<and> command_args hs ws [] [] = Ok (Ret (argv, tm))) \<and>
     argv \<noteq> [] \<and> command_kind (hd argv) = Plain \<and> length (encode (RArray (map RString argv))) < 2 ^ 30"

datatype client_event = Issue "larg list" | Arrive "nat \<times> int" bytes

fun client_step :: "host \<Rightarrow> nat \<Rightarrow> client_event \<Rightarrow> snail \<Rightarrow> snail cr" where
  "client_step hs a (Issue args) s = cbind (lua_client_command hs args s) (\<lambda>(res, s). Ok s)"
| "client_step hs a (Arrive buf c) s = on_read hs a (int (length c)) buf c s"

fun client_run :: "host \<Rightarrow> nat \<Rightarrow> client_event list \<Rightarrow> snail \<Rightarrow> snail cr" where
  "client_run hs a [] s = Ok s"
| "client_run hs a (ev # evs) s = cbind (client_step hs a ev s) (client_run hs a evs)"

text \<open>
  What the client promises, without lists, trees, buffers or stores: pending callbacks are a
  queue of references; a chunk completes replies, each of which goes to the callback that is
  first; the functions called may issue commands of their own (\<open>extra\<close>).
\<close>

inductive spec_run :: "host \<Rightarrow> frames \<times> int \<times> bytes \<Rightarrow> int list \<Rightarrow> client_event list \<Rightarrow>
    (int \<times> lua list) list \<Rightarrow> frames \<times> int \<times> bytes \<Rightarrow> int list \<Rightarrow> bool" for hs where
  spec_Nil: "spec_run hs q refs [] [] q refs"
| spec_Issue: "plain_call hs args ref argv \<Longrightarrow> spec_run hs q (refs @ [ref]) evs cs q' refs' \<Longrightarrow>
    spec_run hs q refs (Issue args # evs) cs q' refs'"
| spec_Arrive: "drain fs ty (u @ c) = (ts, Blocked fs1 ty1 u1) \<Longrightarrow> length ts \<le> length refs \<Longrightarrow>
    spec_run hs (fs1, ty1, u1) (drop (length ts) refs @ extra) evs cs q' refs' \<Longrightarrow>
    spec_run hs (fs, ty, u) refs (Arrive buf c # evs) (deliveries hs (zip refs ts) @ cs) q' refs'"

inductive_cases spec_run_NilE: "spec_run hs q refs [] cs q' refs'"
inductive_cases spec_run_IssueE: "spec_run hs q refs (Issue args # evs) cs q' refs'"
inductive_cases spec_run_ArriveE: "spec_run hs q refs (Arrive buf c # evs) cs q' refs'"

text \<open>
  The server's part: never more replies than commands (of which \<open>n\<close> are pending), and no input
  outside the protocol's defined range.
\<close>

fun fair_input :: "host \<Rightarrow> client_event list \<Rightarrow> frames \<Rightarrow> int \<Rightarrow> bytes \<Rightarrow> nat \<Rightarrow> bool" where
  "fair_input hs [] fs ty u n = True"
| "fair_input hs (Issue args # evs) fs ty u n =
     ((\<exists>ref argv. plain_call hs args ref argv) \<and> fair_input hs evs fs ty u (Suc n))"
| "fair_input hs (Arrive buf c # evs) fs ty u n =
     (length u + length c < min (2 ^ 29) (hs_fuel hs) \<and>
      (case drain fs ty (u @ c) of
         (ts, Blocked fs1 ty1 u1) \<Rightarrow> length ts \<le> n \<and> fair_input hs evs fs1 ty1 u1 (n - length ts)
       | _ \<Rightarrow> False))"

lemma fair_input_mono: "fair_input hs evs fs ty u n \<Longrightarrow> n \<le> m \<Longrightarrow> fair_input hs evs fs ty u m"
proof (induction hs evs fs ty u n arbitrary: m rule: fair_input.induct)
  case (3 hs buf c evs fs ty u n)
  obtain ts out where dr: "drain fs ty (u @ c) = (ts, out)" by fastforce
  then obtain f1 t1 u1 where out: "out = Blocked f1 t1 u1"
    using "3.prems"(1) by (cases out) auto
  have "fair_input hs evs f1 t1 u1 (n - length ts)" "length ts \<le> n"
    using "3.prems"(1) by (simp_all add: dr out)
  moreover have "n - length ts \<le> m - length ts" using "3.prems"(2) by simp
  ultimately have "fair_input hs evs f1 t1 u1 (m - length ts)"
    using "3.IH" [OF dr [symmetric] out] by blast
  with "3.prems" dr out show ?case by simp
qed auto

lemma plain_call_sent:
  assumes "client_at h fs ty u e xs s" and "grants_all (hs_env hs)" and "\<And>a b. hs_write hs a b = 0"
    and "plain_call hs args ref argv"
  shows "runs (lua_client_command hs args s) (\<lambda>(res, s'). res = Ret 1 \<and>
           sent h fs ty u e xs ref (encode (RArray (map RString argv))) s s')"
proof -
  obtain word names where argv: "argv = word # names" using assms(4) by (cases argv) (auto simp: plain_call_def)
  show ?thesis
    using assms(4) plain_command_sent [OF assms(1,2,3)] unfolding plain_call_def argv by auto
qed

lemma client_run_refines:
  assumes "polite hs" and "grants_all (hs_env hs)" and "\<And>a b. hs_write hs a b = 0"
    and "client_at h fs ty u e xs s" and "stream_ready a s" and "drain fs ty u = ([], Blocked fs ty u)"
    and "fair_input hs evs fs ty u (length xs)"
  shows "runs (client_run hs a evs s) (\<lambda>s'. \<exists>cs h' fs' ty' u' ys.
           spec_run hs (fs, ty, u) (refs_of xs) evs cs (fs', ty', u') (refs_of ys) \<and>
           calls s' = calls s @ cs \<and> client_at h' fs' ty' u' e ys s' \<and> rs_map h' = rs_map h)"
  using assms(4-)
proof (induction evs arbitrary: h fs ty u xs s)
  case Nil
  have "spec_run hs (fs, ty, u) (refs_of xs) [] [] (fs, ty, u) (refs_of xs)" by (rule spec_Nil)
  with Nil.prems(1) show ?case
    by (simp, intro exI [of _ h] exI [of _ fs] exI [of _ ty] exI [of _ u] exI [of _ xs]) simp
next
  case (Cons ev evs)
  show ?case
  proof (cases ev)
    case (Issue args)
    obtain ref argv where pc: "plain_call hs args ref argv" and fair: "fair_input hs evs fs ty u (Suc (length xs))"
      using Cons.prems(4) by (auto simp: Issue)
    have "runs (client_step hs a ev s) (\<lambda>s1. \<exists>x c. client_at h fs ty u e (xs @ [(x, c, ref)]) s1 \<and>
        stream_ready a s1 \<and> calls s1 = calls s)"
      unfolding Issue client_step.simps runs_cbind
    proof (rule runs_mono [OF plain_call_sent [OF Cons.prems(1) assms(2,3) pc]], clarify)
      fix s1
      assume "sent h fs ty u e xs ref (encode (RArray (map RString argv))) s s1"
      then obtain x c where "client_at h fs ty u e (xs @ [(x, c, ref)]) s1" "keeps s s1" "calls s1 = calls s"
        by (auto simp: sent_def)
      then show "runs (Ok s1) (\<lambda>s1. \<exists>x c. client_at h fs ty u e (xs @ [(x, c, ref)]) s1 \<and>
          stream_ready a s1 \<and> calls s1 = calls s)"
        unfolding runs.simps using Cons.prems(2) keeps_def by blast
    qed
    then show ?thesis
      unfolding client_run.simps runs_cbind
    proof (rule runs_mono, elim exE conjE)
      fix s1 x c
      assume s1: "client_at h fs ty u e (xs @ [(x, c, ref)]) s1" "stream_ready a s1" "calls s1 = calls s"
      have "runs (client_run hs a evs s1) (\<lambda>s'. \<exists>cs h' fs' ty' u' ys.
          spec_run hs (fs, ty, u) (refs_of (xs @ [(x, c, ref)])) evs cs (fs', ty', u') (refs_of ys) \<and>
          calls s' = calls s1 @ cs \<and> client_at h' fs' ty' u' e ys s' \<and> rs_map h' = rs_map h)"
        using Cons.IH [OF s1(1,2) Cons.prems(3)] fair by simp
      then show "runs (client_run hs a evs s1) (\<lambda>s'. \<exists>cs h' fs' ty' u' ys.
          spec_run hs (fs, ty, u) (refs_of xs) (ev # evs) cs (fs', ty', u') (refs_of ys) \<and>
          calls s' = calls s @ cs \<and> client_at h' fs' ty' u' e ys s' \<and> rs_map h' = rs_map h)"
        by (rule runs_mono) (use s1(3) spec_Issue [OF pc] in \<open>fastforce simp: Issue\<close>)
    qed
  next
    case (Arrive buf c)
    obtain ts f1 t1 u1 where dr: "drain fs ty (u @ c) = (ts, Blocked f1 t1 u1)" and len: "length ts \<le> length xs"
      and lim: "length u + length c < min (2 ^ 29) (hs_fuel hs)"
      and fair: "fair_input hs evs f1 t1 u1 (length xs - length ts)"
      using Cons.prems(4) by (auto simp: Arrive split: prod.splits outcome.splits)
    have "runs (on_read hs a (int (length c)) buf c s) (delivered hs h f1 t1 u1 e xs ts s)"
      using assms(1,2) Cons.prems dr len lim by (intro on_read_delivers) auto
    then show ?thesis
      unfolding client_run.simps runs_cbind Arrive client_step.simps
    proof (rule runs_mono)
      fix s1
      assume "delivered hs h f1 t1 u1 e xs ts s s1"
      then obtain h1 ys where at1: "client_at h1 f1 t1 u1 e (drop (length ts) xs @ ys) s1" and h1: "rs_map h1 = rs_map h"
        and k: "calls s1 = calls s @ deliveries hs (zip (refs_of xs) ts)" "stream_ready a s1"
        using Cons.prems(2) by (auto simp: delivered_def keeps_def)
      have "fair_input hs evs f1 t1 u1 (length (drop (length ts) xs @ ys))"
        by (rule fair_input_mono [OF fair]) simp
      from Cons.IH [OF at1 k(2) drain_blocked_again [OF dr] this]
      show "runs (client_run hs a evs s1) (\<lambda>s'. \<exists>cs h' fs' ty' u' ys.
          spec_run hs (fs, ty, u) (refs_of xs) (Arrive buf c # evs) cs (fs', ty', u') (refs_of ys) \<and>
          calls s' = calls s @ cs \<and> client_at h' fs' ty' u' e ys s' \<and> rs_map h' = rs_map h)"
      proof (rule runs_mono, elim exE conjE)
        fix s' cs h' fs' ty' u' zs
        assume "spec_run hs (f1, t1, u1) (refs_of (drop (length ts) xs @ ys)) evs cs (fs', ty', u') (refs_of zs)"
          and "calls s' = calls s1 @ cs" "client_at h' fs' ty' u' e zs s'" "rs_map h' = rs_map h1"
        moreover from this(1) have "spec_run hs (fs, ty, u) (refs_of xs) (Arrive buf c # evs)
            (deliveries hs (zip (refs_of xs) ts) @ cs) (fs', ty', u') (refs_of zs)"
          using spec_Arrive [OF dr, of "refs_of xs" hs "refs_of ys"] len by (simp add: drop_map)
        ultimately show "\<exists>cs h' fs' ty' u' ys.
          spec_run hs (fs, ty, u) (refs_of xs) (Arrive buf c # evs) cs (fs', ty', u') (refs_of ys) \<and>
          calls s' = calls s @ cs \<and> client_at h' fs' ty' u' e ys s' \<and> rs_map h' = rs_map h"
          using k(1) h1 by (metis append.assoc)
      qed
    qed
  qed
qed


section \<open>Connecting\<close>

text \<open>The first two calls of a program that uses the client.\<close>

definition open_session :: "host \<Rightarrow> bytes \<Rightarrow> bool option \<Rightarrow> world \<Rightarrow> snail cr" where
  "open_session hs path ignore w =
     cbind (lua_client_new hs (AStr path) ignore w) (\<lambda>res.
     case res of
       Raise m \<Rightarrow> Flt LuaPanic
     | Ret s \<Rightarrow> cbind (lua_client_connect hs s) (\<lambda>(r, s). Ok s))"

lemma world_fresh_emit [simp]: "world_fresh (emit w x) = world_fresh w"
  by (simp add: world_fresh_def emit_def)

lemma pipe_connect_ok:
  assumes "world_fresh (s_w s)" and "grants_all (hs_env hs)" and "cx_path (s_cx s) \<noteq> None"
  shows "\<exists>q w. pipe_connect hs st s = Ok (s\<lparr>s_w := w\<rparr>) \<and> world_fresh w \<and>
           w_hand w = (w_hand (s_w s))(q \<mapsto> \<lparr>h_data = True, h_repeat = 0\<rparr>) \<and> q < w_next w \<and>
           w_call w = w_call (s_w s) \<and> w_ll w = w_ll (s_w s) \<and> w_ends w = w_ends (s_w s) \<and>
           w_trace w = w_trace (s_w s) @ [UvConnect q st] \<and> w_next (s_w s) \<le> w_next w \<and>
           set (w_reqs w) \<subseteq> set (w_reqs (s_w s)) \<and> (q \<in> set (w_reqs (s_w s)) \<or> q = w_next (s_w s))"
proof -
  obtain q w where "new_req hs (s_w s) = Ok (q, w)" "world_fresh w"
    "w_hand w = (w_hand (s_w s))(q \<mapsto> \<lparr>h_data = True, h_repeat = 0\<rparr>)" "q < w_next w"
    "w_call w = w_call (s_w s)" "w_ll w = w_ll (s_w s)" "w_ends w = w_ends (s_w s)" "w_trace w = w_trace (s_w s)"
    "w_next (s_w s) \<le> w_next w" "set (w_reqs w) \<subseteq> set (w_reqs (s_w s))" "q \<in> set (w_reqs (s_w s)) \<or> q = w_next (s_w s)"
    using new_req_ok [OF assms(1,2)] by blast
  then show ?thesis
    using assms(3) by (auto simp: pipe_connect_def intro!: exI [of _ q] exI [of _ "emit w (UvConnect q st)"])
      (auto simp: emit_def)
qed

text \<open>A client with two pipes and nothing connected; \<open>q1\<close> and \<open>q2\<close> are the requests under way.\<close>

definition connecting :: "host \<Rightarrow> nat \<Rightarrow> nat \<Rightarrow> nat \<Rightarrow> nat \<Rightarrow> nat \<Rightarrow> snail \<Rightarrow> bool" where
  "connecting hs e a b q1 q2 s \<longleftrightarrow>
     (\<exists>r. cx_reader (s_cx s) = Some r \<and> reader_state empty_store [] (- 1) [] r \<and> r_pos r < 1024) \<and>
     cx_live (s_cx s) \<and> cx_list (s_cx s) = Some e \<and> cb_queue (s_w s) e [] \<and>
     cx_stream (s_cx s) = Some a \<and> cx_sub_stream (s_cx s) = Some b \<and> a \<noteq> b \<and>
     a \<in> dom (w_hand (s_w s)) \<and> b \<in> dom (w_hand (s_w s)) \<and>
     (\<forall>q\<in>{q1, q2}. \<exists>hd. w_hand (s_w s) q = Some hd \<and> h_data hd) \<and>
     {a, b} \<inter> ({q1, q2} \<union> set (w_reqs (s_w s))) = {} \<and>
     cx_flags (s_cx s) = 0 \<and> cx_stream_flags (s_cx s) = 0 \<and>
     cx_channels (s_cx s) = Tip \<and> cx_patterns (s_cx s) = Tip \<and> cx_timers (s_cx s) = Tip \<and>
     cx_connect_cb (s_cx s) = hs_noref hs \<and> cx_error_cb (s_cx s) = hs_noref hs \<and>
     cx_disconnect_cb (s_cx s) = hs_noref hs"

lemma new_pipe_ok:
  assumes "world_fresh w" and "grants_all (hs_env hs)"
  shows "\<exists>w'. new_pipe hs w = (Some (w_next w), w') \<and> world_fresh w' \<and> w_next w' = Suc (w_next w) \<and>
           w_hand w' = (w_hand w)(w_next w \<mapsto> \<lparr>h_data = False, h_repeat = 0\<rparr>) \<and>
           w_call w' = w_call w \<and> w_ll w' = w_ll w \<and> w_ends w' = w_ends w \<and> w_trace w' = w_trace w \<and> w_reqs w' = w_reqs w"
  using assms by (auto simp: new_pipe_def put_defs world_fresh_def less_Suc_eq)

lemma lua_client_new_ok:
  assumes "world_fresh w" and "grants_all (hs_env hs)"
  shows "\<exists>s r. lua_client_new hs (AStr path) ignore w = Ok (Ret s) \<and> world_fresh (s_w s) \<and>
           cx_reader (s_cx s) = Some r \<and> reader_state empty_store [] (- 1) [] r \<and> r_pos r < 1024 \<and>
           cx_live (s_cx s) \<and> cx_list (s_cx s) = Some (w_next w) \<and>
           w_ends (s_w s) (w_next w) = Some \<lparr>e_head = None, e_tail = None\<rparr> \<and>
           cx_flags (s_cx s) = 0 \<and> cx_stream_flags (s_cx s) = 0 \<and> cx_path (s_cx s) \<noteq> None \<and>
           cx_channels (s_cx s) = Tip \<and> cx_patterns (s_cx s) = Tip \<and> cx_timers (s_cx s) = Tip \<and>
           cx_connect_cb (s_cx s) = hs_noref hs \<and> cx_error_cb (s_cx s) = hs_noref hs \<and>
           cx_disconnect_cb (s_cx s) = hs_noref hs \<and> w_trace (s_w s) = w_trace w \<and>
           cx_ignore_sub (s_cx s) = (ignore \<noteq> Some False)"
proof -
  obtain r where r: "redisReaderCreate (hs_env hs) empty_store = Ok (Some r)" "r_pos r = 0"
    using create_grants [OF assms(2)] by auto
  then have "reader_state empty_store [] (- 1) [] r"
    using redisReaderCreate_refines [OF fresh_empty_store(1) r(1)] by simp
  with r assms show ?thesis
    by (auto simp: lua_client_new_def put_defs world_fresh_def less_Suc_eq split: option.splits)
qed

lemma open_session_connecting:
  assumes "world_fresh w" and "grants_all (hs_env hs)"
  shows "runs (open_session hs path ignore w) (\<lambda>s. \<exists>a b q1 q2.
           connecting hs (w_next w) a b q1 q2 s \<and> w_trace (s_w s) = w_trace w @ [UvConnect q1 a, UvConnect q2 b] \<and>
           cx_ignore_sub (s_cx s) = (ignore \<noteq> Some False))"
proof -
  let ?e = "w_next w"
  obtain s r where s: "lua_client_new hs (AStr path) ignore w = Ok (Ret s)" "world_fresh (s_w s)"
    "cx_reader (s_cx s) = Some r" "reader_state empty_store [] (- 1) [] r" "r_pos r < 1024"
    "cx_live (s_cx s)" "cx_list (s_cx s) = Some ?e"
    "w_ends (s_w s) ?e = Some \<lparr>e_head = None, e_tail = None\<rparr>"
    "cx_flags (s_cx s) = 0" "cx_stream_flags (s_cx s) = 0" "cx_path (s_cx s) \<noteq> None"
    "cx_channels (s_cx s) = Tip" "cx_patterns (s_cx s) = Tip" "cx_timers (s_cx s) = Tip"
    "cx_connect_cb (s_cx s) = hs_noref hs" "cx_error_cb (s_cx s) = hs_noref hs"
    "cx_disconnect_cb (s_cx s) = hs_noref hs" "w_trace (s_w s) = w_trace w" "cx_ignore_sub (s_cx s) = (ignore \<noteq> Some False)"
    using lua_client_new_ok [OF assms, of path ignore] by blast
  let ?a = "w_next (s_w s)" and ?b = "Suc (w_next (s_w s))"
  obtain w1 where w1: "new_pipe hs (s_w s) = (Some ?a, w1)" "world_fresh w1" "w_next w1 = ?b"
    "w_hand w1 = (w_hand (s_w s))(?a \<mapsto> \<lparr>h_data = False, h_repeat = 0\<rparr>)" "w_ends w1 = w_ends (s_w s)"
    "w_trace w1 = w_trace (s_w s)" "w_reqs w1 = w_reqs (s_w s)"
    using new_pipe_ok [OF s(2) assms(2)] by blast
  obtain w2 where w2: "new_pipe hs w1 = (Some ?b, w2)" "world_fresh w2"
    "w_hand w2 = (w_hand w1)(?b \<mapsto> \<lparr>h_data = False, h_repeat = 0\<rparr>)" "w_ends w2 = w_ends w1" "w_trace w2 = w_trace w1"
    "w_next w2 = Suc ?b" "w_reqs w2 = w_reqs w1"
    using new_pipe_ok [OF w1(2) assms(2)] w1(3) by metis
  let ?s = "upd_cx (s\<lparr>s_w := w2\<rparr>) (\<lambda>cx. cx\<lparr>cx_stream := Some ?a, cx_sub_stream := Some ?b, cx_flags := 0\<rparr>)"
  obtain q1 w3 where w3: "pipe_connect hs ?a ?s = Ok (?s\<lparr>s_w := w3\<rparr>)" "world_fresh w3"
    "w_hand w3 = (w_hand w2)(q1 \<mapsto> \<lparr>h_data = True, h_repeat = 0\<rparr>)" "w_ends w3 = w_ends w2"
    "w_trace w3 = w_trace w2 @ [UvConnect q1 ?a]"
    and r3: "Suc ?b \<le> w_next w3" "set (w_reqs w3) \<subseteq> set (w_reqs (s_w s))" "q1 \<in> set (w_reqs (s_w s)) \<or> q1 = Suc ?b"
    using pipe_connect_ok [of ?s hs ?a] w2(2,6,7) w1(7) assms(2) s(11) by auto
  let ?s3 = "?s\<lparr>s_w := w3\<rparr>"
  obtain q2 w4 where w4: "pipe_connect hs ?b ?s3 = Ok (?s3\<lparr>s_w := w4\<rparr>)" "world_fresh w4"
    "w_hand w4 = (w_hand w3)(q2 \<mapsto> \<lparr>h_data = True, h_repeat = 0\<rparr>)" "w_ends w4 = w_ends w3"
    "w_trace w4 = w_trace w3 @ [UvConnect q2 ?b]"
    and r4: "set (w_reqs w4) \<subseteq> set (w_reqs w3)" "q2 \<in> set (w_reqs w3) \<or> q2 = w_next w3"
    using pipe_connect_ok [of ?s3 hs ?b] w3(2) assms(2) s(11) by auto
  have "?a \<notin> set (w_reqs (s_w s))" "?b \<notin> set (w_reqs (s_w s))"
    using s(2) by (auto simp: world_fresh_def)
  then have apart: "{?a, ?b} \<inter> ({q1, q2} \<union> set (w_reqs w4)) = {}" using r3 r4 by auto
  have "open_session hs path ignore w = Ok (?s3\<lparr>s_w := w4\<rparr>)"
    using s(1) w1(1) w2(1) w3(1) w4(1) by (simp add: open_session_def lua_client_connect_def Let_def)
  moreover have "connecting hs ?e ?a ?b q1 q2 (?s3\<lparr>s_w := w4\<rparr>)"
    using s w1 w2 w3 w4 apart by (auto simp: connecting_def cb_queue_def)
  moreover have "w_trace (s_w (?s3\<lparr>s_w := w4\<rparr>)) = w_trace w @ [UvConnect q1 ?a, UvConnect q2 ?b]"
    using s w1 w2 w3 w4 by simp
  moreover have "cx_ignore_sub (s_cx (?s3\<lparr>s_w := w4\<rparr>)) = (ignore \<noteq> Some False)" using s by simp
  ultimately show ?thesis unfolding runs_iff by blast
qed

text \<open>The two connections may be reported in either order.\<close>

lemma connecting_sym: "connecting hs e a b q1 q2 s \<Longrightarrow> connecting hs e a b q2 q1 s"
  by (auto simp: connecting_def)

lemma cb_queue_req_free: "cb_queue w e xs \<Longrightarrow> q < w_next w \<Longrightarrow> cb_queue (req_free w q) e xs"
  by (simp add: cb_queue_def world_fresh_def req_free_def)

lemma connected_twice:
  assumes "connecting hs e a b q1 q2 s"
  shows "runs (cbind (on_connect hs q1 0 s) (on_connect hs q2 0)) (\<lambda>s'.
           client_at empty_store [] (- 1) [] e [] s' \<and> cx_stream (s_cx s') = Some a \<and>
           cx_sub_stream (s_cx s') = Some b \<and> cx_channels (s_cx s') = Tip \<and> cx_patterns (s_cx s') = Tip \<and>
           has_flag (cx_stream_flags (s_cx s')) STREAM_CONNECTED \<and> has_flag (cx_stream_flags (s_cx s')) SUB_STREAM_CONNECTED \<and>
           a \<notin> set (w_reqs (s_w s')) \<and> b \<notin> set (w_reqs (s_w s')) \<and>
           cx_disconnect_cb (s_cx s') = hs_noref hs \<and> cx_error_cb (s_cx s') = hs_noref hs \<and> cx_connect_cb (s_cx s') = hs_noref hs \<and>
           cx_timers (s_cx s') = cx_timers (s_cx s) \<and>
           cx_ignore_sub (s_cx s') = cx_ignore_sub (s_cx s) \<and> w_hand (s_w s') = w_hand (s_w s) \<and> w_trace (s_w s') = w_trace (s_w s))"
proof -
  have q: "cb_queue (s_w s) e []" and fresh: "world_fresh (s_w s)" using assms by (simp_all add: connecting_def cb_queue_def)
  have lt: "q1 < w_next (s_w s)" "q2 < w_next (s_w s)"
    using assms fresh by (auto simp: connecting_def world_fresh_def not_less [symmetric])
  let ?w1 = "req_free (s_w s) q1" let ?w2 = "req_free ?w1 q2"
  have "cb_queue ?w1 e []" using q lt(1) by (rule cb_queue_req_free)
  then have q2: "cb_queue ?w2 e []" by (rule cb_queue_req_free) (use lt(2) in \<open>simp add: req_free_def\<close>)
  have hands: "w_hand ?w1 = w_hand (s_w s)" "w_hand ?w2 = w_hand (s_w s)" "w_trace ?w2 = w_trace (s_w s)"
    by (simp_all add: req_free_def)
  have apart: "a \<notin> set (w_reqs ?w2)" "b \<notin> set (w_reqs ?w2)"
    using assms by (auto simp: connecting_def req_free_def)
  have ctx: "handle_context (s_w s) q1 = Ok ()" "handle_context ?w1 q2 = Ok ()"
    using assms hands by (auto simp: handle_context_def connecting_def)
  have noref: "\<not> has_ref hs (cx_connect_cb (s_cx s))" using assms by (simp add: connecting_def has_ref_def)
  let ?f = "set_flag 0 STREAM_CONNECTED" let ?g = "set_flag ?f SUB_STREAM_CONNECTED"
  have fl: "cx_flags (s_cx s) = 0" "cx_stream_flags (s_cx s) = 0" using assms by (simp_all add: connecting_def)
  let ?s = "upd_cx (s\<lparr>s_w := ?w2\<rparr>) (\<lambda>cx. cx\<lparr>cx_stream_flags := ?g, cx_flags := set_flag 0 REDIS_CONNECTED\<rparr>)"
  have "cbind (on_connect hs q1 0 s) (on_connect hs q2 0) = Ok ?s"
    using ctx fl noref
    by (simp add: on_connect_def call_if_set_def flag_simps Let_def upd_cx_def upd_w_def)
  moreover have "client_at empty_store [] (- 1) [] e [] ?s"
    using assms q2 hands by (auto simp: client_at_def connected_def connecting_def flag_simps)
  ultimately show ?thesis using assms hands apart by (simp add: connecting_def flag_simps)
qed


text \<open>After the first write the command stream knows its client and reading starts.\<close>

lemma on_write_runs:
  assumes at: "client_at h fs ty u e xs s" and a: "w_hand (s_w s) a = Some hn"
    and "handle_context (s_w s) req = Ok ()" and "0 \<le> hs_read_start hs a"
  shows "runs (on_write hs req a 0 s) (\<lambda>s'. client_at h fs ty u e xs s' \<and> s_cx s' = s_cx s \<and> w_node (s_w s') = w_node (s_w s) \<and>
           w_hand (s_w s') = (w_hand (s_w s))(a \<mapsto> hn\<lparr>h_data := True\<rparr>) \<and> calls s' = calls s \<and>
           w_call (s_w s') = w_call (s_w s) \<and> w_ll (s_w s') = w_ll (s_w s) \<and> w_ends (s_w s') = w_ends (s_w s) \<and>
           w_chan (s_w s') = w_chan (s_w s))"
proof -
  have q: "cb_queue (s_w s) e xs" using at by (simp add: client_at_def)
  then have fresh: "world_fresh (s_w s)" by (simp add: cb_queue_def)
  have "w_hand (s_w s) req \<noteq> None" using assms(3) by (auto simp: handle_context_def cr_simps load_def split: option.splits)
  then have lt: "req < w_next (s_w s)" "a < w_next (s_w s)"
    using fresh a by (auto simp: world_fresh_def not_less [symmetric])
  let ?w = "req_free (put_hand (s_w s) a (hn\<lparr>h_data := True\<rparr>)) req"
  have "cb_queue (put_hand (s_w s) a (hn\<lparr>h_data := True\<rparr>)) e xs"
    using q lt(2) by (auto simp: cb_queue_def world_fresh_def put_hand_def)
  then have q': "cb_queue ?w e xs" by (rule cb_queue_req_free) (use lt(1) in \<open>simp add: put_hand_def\<close>)
  let ?s = "s\<lparr>s_w := emit ?w (UvReadStart a)\<rparr>"
  have "on_write hs req a 0 s = Ok ?s"
    using assms(3,4) a by (simp add: on_write_def set_data_def Let_def upd_w_def)
  moreover have "client_at h fs ty u e xs ?s"
    using at q' by (auto simp: client_at_def connected_def req_free_def put_hand_def)
  moreover have "w_node (s_w ?s) = w_node (s_w s)" "w_chan (s_w ?s) = w_chan (s_w s)"
    "w_call (s_w ?s) = w_call (s_w s)" "w_ll (s_w ?s) = w_ll (s_w s)" "w_ends (s_w ?s) = w_ends (s_w s)"
    by (simp_all add: emit_def req_free_def put_hand_def)
  ultimately show ?thesis by (simp add: req_free_def put_hand_def)
qed

lemma on_write_ready:
  assumes "client_at h fs ty u e xs s" and "cx_stream (s_cx s) = Some a" and "cx_sub_stream (s_cx s) \<noteq> Some a"
    and "handle_context (s_w s) req = Ok ()" and "0 \<le> hs_read_start hs a"
  shows "runs (on_write hs req a 0 s) (\<lambda>s'. client_at h fs ty u e xs s' \<and> stream_ready a s' \<and> calls s' = calls s)"
proof -
  obtain hd where a: "w_hand (s_w s) a = Some hd" using assms(1,2) by (auto simp: client_at_def connected_def)
  show ?thesis
    by (rule runs_mono [OF on_write_runs [OF assms(1) a assms(4,5)]]) (use assms(3) in \<open>auto simp: stream_ready_def\<close>)
qed

section \<open>An example of the parties outside\<close>

text \<open>
  A host that grants everything; the Lua function under reference 7 answers its reply with
  another command, whose callback is 8.
\<close>

definition quiet_host :: host where
  "quiet_host = \<lparr>hs_env = libc_env, hs_lua = (\<lambda>ref args s. Ok s), hs_noref = - 2, hs_refnil = - 1,
     hs_max_stack = 8000, hs_req_size = 256, hs_pipe_size = 264, hs_tonumber = (\<lambda>t. None),
     hs_strerror = (\<lambda>n. ''EPIPE''), hs_write = (\<lambda>a c. 0), hs_read_start = (\<lambda>a. 0), hs_timer_init = 0,
     hs_timer_start = 0, hs_fuel = 4096\<rparr>"

definition chatty_host :: host where
  "chatty_host = quiet_host\<lparr>hs_lua := (\<lambda>ref args s.
     if ref = 7 then cbind (lua_client_command quiet_host [AStr ''PING'', AFun 8] s) (\<lambda>(res, s). Ok s)
     else Ok s)\<rparr>"

lemma host_simps [simp]:
  "grants_all (hs_env quiet_host)" "grants_all (hs_env chatty_host)" "hs_write quiet_host a c = 0"
  "hs_write chatty_host a c = 0" "hs_fuel chatty_host = 4096" "hs_fuel quiet_host = 4096"
  "has_ref quiet_host r \<longleftrightarrow> r \<noteq> - 2 \<and> r \<noteq> - 1" "has_ref chatty_host r \<longleftrightarrow> r \<noteq> - 2 \<and> r \<noteq> - 1"
  "hs_read_start chatty_host a = 0" "hs_read_start quiet_host a = 0"
  "hs_lua quiet_host ref args s = Ok s"
  by (auto simp: quiet_host_def chatty_host_def has_ref_def)

lemma plain_calls:
  "plain_call quiet_host [AStr ''PING'', AFun r] r [''PING'']"
  "plain_call chatty_host [AStr ''PING'', AFun r] r [''PING'']"
  "plain_call chatty_host [AStr ''GET'', ANum 5 ''5'', AFun r] r [''GET'', ''5'']"
proof -
  have kind: "command_kind ''PING'' = Plain" "command_kind ''GET'' = Plain" by code_simp+
  have max: "hs_max_stack quiet_host = 8000" "hs_max_stack chatty_host = 8000"
    by (simp_all add: quiet_host_def chatty_host_def)
  have pre: "\<not> has_prefix ''PING'' TIMER_EVENT" "\<not> has_prefix ''GET'' TIMER_EVENT" "\<not> has_prefix ''5'' TIMER_EVENT"
    by code_simp+
  show "plain_call quiet_host [AStr ''PING'', AFun r] r [''PING'']"
    "plain_call chatty_host [AStr ''PING'', AFun r] r [''PING'']"
    "plain_call chatty_host [AStr ''GET'', ANum 5 ''5'', AFun r] r [''GET'', ''5'']"
    using kind max pre
    by (simp_all add: plain_call_def split_callback_def push_arg_def int_dec_def nat_dec_small crlf_def)
qed

lemma chatty_polite: "polite chatty_host"
  unfolding polite_def
proof (intro allI impI)
  fix ref args h fs ty u e xs s
  assume at: "client_at h fs ty u e xs s"
  show "runs (hs_lua chatty_host ref args s) (\<lambda>s'. (\<exists>ys. client_at h fs ty u e (xs @ ys) s') \<and> calls s' = calls s \<and> keeps s s')"
  proof (cases "ref = 7")
    case True
    have "runs (lua_client_command quiet_host [AStr ''PING'', AFun 8] s) (\<lambda>(res, s'). res = Ret 1 \<and>
        sent h fs ty u e xs 8 (encode (RArray (map RString [''PING'']))) s s')"
      using at plain_calls(1) by (intro plain_call_sent) auto
    then have "runs (cbind (lua_client_command quiet_host [AStr ''PING'', AFun 8] s) (\<lambda>(res, s). Ok s))
        (\<lambda>s'. (\<exists>ys. client_at h fs ty u e (xs @ ys) s') \<and> calls s' = calls s \<and> keeps s s')"
      unfolding runs_cbind by (rule runs_mono) (use sent_def in auto)
    with True show ?thesis by (simp add: chatty_host_def)
  next
    case False
    have "client_at h fs ty u e (xs @ []) s" using at by simp
    with False show ?thesis unfolding chatty_host_def by (auto simp del: append_Nil2)
  qed
qed

section \<open>An example client\<close>

lemma ready_streams:
  obtains s a e where "client_at empty_store [] (- 1) [] e [] s" and "stream_ready a s" and "calls s = []"
    and "cx_stream (s_cx s) = Some a" and "cx_error_cb (s_cx s) = hs_noref chatty_host"
    and "has_flag (cx_stream_flags (s_cx s)) STREAM_CONNECTED" and "has_flag (cx_stream_flags (s_cx s)) SUB_STREAM_CONNECTED"
proof -
  have fresh: "world_fresh queue_world" using queue_world_empty by (simp add: cb_queue_def)
  obtain s a b q1 q2 where s: "connecting chatty_host 1 a b q1 q2 s"
    "w_trace (s_w s) = [UvConnect q1 a, UvConnect q2 b]"
    using open_session_connecting [OF fresh host_simps(2), of "''/tmp/redis.sock''" None]
    by (auto simp: runs_iff queue_world_def)
  obtain s1 where s1: "client_at empty_store [] (- 1) [] 1 [] s1" "cx_stream (s_cx s1) = Some a"
    "cx_sub_stream (s_cx s1) = Some b" "w_hand (s_w s1) = w_hand (s_w s)" "w_trace (s_w s1) = w_trace (s_w s)"
    "cx_error_cb (s_cx s1) = hs_noref chatty_host"
    "has_flag (cx_stream_flags (s_cx s1)) STREAM_CONNECTED" "has_flag (cx_stream_flags (s_cx s1)) SUB_STREAM_CONNECTED"
    using connected_twice [OF s(1)] by (auto simp: runs_iff)
  have "handle_context (s_w s1) q1 = Ok ()" "a \<noteq> b" "a \<in> dom (w_hand (s_w s1))"
    using s(1) s1(4) by (auto simp: connecting_def handle_context_def)
  then obtain hn where a: "w_hand (s_w s1) a = Some hn" and ctx: "handle_context (s_w s1) q1 = Ok ()" and "a \<noteq> b" by auto
  obtain s2 where "client_at empty_store [] (- 1) [] 1 [] s2" "s_cx s2 = s_cx s1" "calls s2 = calls s1"
    "w_hand (s_w s2) = (w_hand (s_w s1))(a \<mapsto> hn\<lparr>h_data := True\<rparr>)"
    using on_write_runs [OF s1(1) a ctx, of chatty_host] by (auto simp: runs_iff)
  then show thesis
    by (intro that [of 1 s2 a]) (use s1 s(2) \<open>a \<noteq> b\<close> in \<open>simp_all add: stream_ready_def\<close>)
qed

lemma ready_client:
  obtains s a e where "client_at empty_store [] (- 1) [] e [] s" and "stream_ready a s" and "calls s = []"
  using ready_streams by metis

end
