(* ===== verification/Cb_Release.thy ===== *)
theory Cb_Release
  imports Cb_Tree "HOL-Library.Multiset"
begin

text \<open>
  The life of callbacks. \<open>attach\<close> counts the list cells that hold a callback, so that a callback
  subscribed to several names is released, with its channels, by the last of its lists. \<open>counted\<close>
  states this, \<open>destroy_nodes_counted\<close> that releasing trees keeps it, and \<open>subs_over\<close> what the
  subscriptions add to a store: a callback, its channels, nodes and cells.
\<close>


section \<open>Lists of cells\<close>

lemma chain_cong: "(\<And>x. x \<in> fst ` set zs \<Longrightarrow> m' x = m x) \<Longrightarrow> chain m' p zs = chain m p zs"
  by (induction m p zs rule: chain.induct) auto

lemma chain_head: "chain m p zs \<Longrightarrow> p = (case zs of [] \<Rightarrow> None | (x, c) # _ \<Rightarrow> Some x)"
  by (cases zs) auto

lemma chain_cell: "chain m p zs \<Longrightarrow> (x, c) \<in> set zs \<Longrightarrow> \<exists>n. m x = Some \<lparr>ll_cb = c, ll_next = n\<rparr>"
  by (induction m p zs rule: chain.induct) auto

definition cells_at :: "world \<Rightarrow> nat \<Rightarrow> (nat \<times> nat) list \<Rightarrow> bool" where
  "cells_at w l zs \<longleftrightarrow>
     (\<exists>h. w_ends w l = Some \<lparr>e_head = h, e_tail = (if zs = [] then None else Some (fst (last zs)))\<rparr> \<and>
        chain (w_ll w) h zs) \<and> distinct (map fst zs)"

lemma cells_at_cong:
  assumes "w_ends w' l = w_ends w l" and "\<And>x. x \<in> fst ` set zs \<Longrightarrow> w_ll w' x = w_ll w x"
  shows "cells_at w' l zs = cells_at w l zs"
  using assms chain_cong [of zs "w_ll w'" "w_ll w"] by (simp add: cells_at_def)

lemma cells_at_dom: "cells_at w l zs \<Longrightarrow> x \<in> fst ` set zs \<Longrightarrow> w_ll w x \<noteq> None"
  by (auto simp: cells_at_def dest: chain_cell)

section \<open>Counted callbacks\<close>

type_synonym cells = "(nat \<times> nat) list"

definition chans :: "world \<Rightarrow> nat \<Rightarrow> nat list" where
  "chans w c = (case w_call w c of None \<Rightarrow> [] | Some b \<Rightarrow> List.map_filter id (cb_channels b))"

definition callback_at :: "world \<Rightarrow> nat \<Rightarrow> nat \<Rightarrow> bool" where
  "callback_at w n c \<longleftrightarrow> (\<exists>b. w_call w c = Some b \<and> cb_attach b = int n \<and>
     cb_nb_channel b = int (length (cb_channels b)) \<and> distinct (chans w c) \<and> set (chans w c) \<subseteq> dom (w_chan w))"

definition counted :: "world \<Rightarrow> nat set \<Rightarrow> cells \<Rightarrow> bool" where
  "counted w C zs \<longleftrightarrow> snd ` set zs \<subseteq> C \<and> length zs < 2 ^ 31 \<and>
     (\<forall>c\<in>C. callback_at w (count_list (map snd zs) c) c) \<and>
     (\<forall>c\<in>C. \<forall>d\<in>C. c \<noteq> d \<longrightarrow> set (chans w c) \<inter> set (chans w d) = {})"

definition full :: "world \<Rightarrow> nat \<Rightarrow> bool" where
  "full w c \<longleftrightarrow> (\<exists>b. w_call w c = Some b \<and> None \<notin> set (cb_channels b))"

definition gone :: "cells \<Rightarrow> cells \<Rightarrow> nat set" where
  "gone zs rest = snd ` set zs - snd ` set rest"

definition freed :: "world \<Rightarrow> world \<Rightarrow> nat set \<Rightarrow> cells \<Rightarrow> cells \<Rightarrow> bool" where
  "freed w w' C zs rest \<longleftrightarrow> w_ll w' = w_ll w |` (- fst ` set zs) \<and> (\<forall>c. c \<notin> C \<longrightarrow> w_call w' c = w_call w c) \<and>
     (\<forall>c\<in>gone zs rest. w_call w' c = None) \<and>
     (\<forall>c. c \<notin> gone zs rest \<longrightarrow> map_option cb_channels (w_call w' c) = map_option cb_channels (w_call w c)) \<and>
     w_chan w' = w_chan w |` (- (\<Union>c\<in>gone zs rest. set (chans w c))) \<and> w_hand w' = w_hand w \<and> w_next w' = w_next w \<and>
     w_bufs w' = w_bufs w"

definition listless :: "world \<Rightarrow> world \<Rightarrow> bool" where
  "listless w w' \<longleftrightarrow> w_node w' = w_node w \<and> w_ends w' = w_ends w \<and> w_trace w' = w_trace w \<and> w_reqs w' = w_reqs w"

lemma gone_append: "gone (ys @ zs) rest = gone ys (zs @ rest) \<union> gone zs rest"
  by (auto simp: gone_def)

lemma gone_Nil [simp]: "gone [] rest = {}"
  by (simp add: gone_def)

lemma chans_slots: "map_option cb_channels (w_call w' c) = map_option cb_channels (w_call w c) \<Longrightarrow> chans w' c = chans w c"
  by (auto simp: chans_def split: option.splits)

lemma full_slots: "map_option cb_channels (w_call w' c) = map_option cb_channels (w_call w c) \<Longrightarrow> full w' c = full w c"
  by (cases "w_call w c"; cases "w_call w' c") (auto simp: full_def)

lemma freed_refl [simp]: "freed w w C [] rest"
  by (simp add: freed_def restrict_map_def)

lemma freed_kept: "freed w w' C zs rest \<Longrightarrow> c \<notin> gone zs rest \<Longrightarrow> chans w' c = chans w c \<and> full w' c = full w c"
  by (intro conjI chans_slots full_slots) (simp_all add: freed_def)

lemma freed_trans:
  assumes 1: "freed w w1 C ys (zs @ rest)" and 2: "freed w1 w2 (C - gone ys (zs @ rest)) zs rest" and "snd ` set ys \<subseteq> C"
  shows "freed w w2 C (ys @ zs) rest"
proof -
  have dis: "gone ys (zs @ rest) \<inter> gone zs rest = {}" and sub: "gone ys (zs @ rest) \<subseteq> C" using assms(3) by (auto simp: gone_def)
  have same: "chans w1 c = chans w c" if "c \<in> gone zs rest" for c using freed_kept [OF 1, of c] dis that by blast
  have chan: "w_chan w2 = w_chan w |` (- (\<Union>c\<in>gone (ys @ zs) rest. set (chans w c)))"
    using 1 2 same unfolding freed_def gone_append by (simp add: UN_Un Compl_Un)
  have ll: "w_ll w2 = w_ll w |` (- fst ` set (ys @ zs))" using 1 2 by (simp add: freed_def image_Un Compl_Un)
  have out: "w_call w2 c = w_call w c" if "c \<notin> C" for c using 1 2 that by (simp add: freed_def)
  have none: "w_call w2 c = None" if "c \<in> gone ys (zs @ rest) \<union> gone zs rest" for c
    using that 1 2 by (cases "c \<in> gone zs rest") (auto simp: freed_def)
  have slots: "map_option cb_channels (w_call w2 c) = map_option cb_channels (w_call w c)"
    if "c \<notin> gone ys (zs @ rest) \<union> gone zs rest" for c using that 1 2 by (simp add: freed_def)
  have "w_hand w2 = w_hand w \<and> w_next w2 = w_next w \<and> w_bufs w2 = w_bufs w" using 1 2 by (simp add: freed_def)
  then show ?thesis unfolding freed_def using chan ll out none slots unfolding gone_append by blast
qed

section \<open>Releasing cells\<close>

lemma destroy_channels_runs:
  "distinct cs \<Longrightarrow> set cs \<subseteq> dom (w_chan w) \<Longrightarrow>
   destroy_channels (map Some cs) w = Ok (w\<lparr>w_chan := w_chan w |` (- set cs)\<rparr>)"
proof (induction cs arbitrary: w)
  case Nil
  then show ?case by (simp add: restrict_map_def)
next
  case (Cons c cs)
  then obtain x where c: "w_chan w c = Some x" by auto
  let ?w = "w\<lparr>w_chan := (w_chan w)(c := None)\<rparr>"
  have "destroy_channels (map Some cs) ?w = Ok (?w\<lparr>w_chan := w_chan ?w |` (- set cs)\<rparr>)"
    by (rule Cons.IH) (use Cons.prems in auto)
  moreover have "w_chan ?w |` (- set cs) = w_chan w |` (- set (c # cs))" by (auto simp: restrict_map_def fun_eq_iff)
  ultimately show ?case using c by (simp add: destroy_channel_def)
qed

lemma map_filter_full: "None \<notin> set xs \<Longrightarrow> xs = map Some (List.map_filter id xs)"
proof (induction xs)
  case (Cons x xs)
  then show ?case by (cases x) (simp_all add: List.map_filter_simps)
qed (simp add: List.map_filter_simps)

lemma destroy_callback_runs:
  assumes "w_call w c = Some b" and "None \<notin> set (cb_channels b)" and "cb_nb_channel b = int (length (cb_channels b))"
    and "distinct (chans w c)" and "set (chans w c) \<subseteq> dom (w_chan w)"
  shows "destroy_callback w (Some c) = Ok (w\<lparr>w_chan := w_chan w |` (- set (chans w c)), w_call := (w_call w)(c := None)\<rparr>)"
proof -
  have "cb_channels b = map Some (chans w c)" using map_filter_full [OF assms(2)] assms(1) by (simp add: chans_def)
  then show ?thesis using assms destroy_channels_runs [OF assms(4,5)] by (simp add: destroy_callback_def)
qed

lemma destroy_wrapper_counted:
  assumes n: "counted w C ((x, c) # rest)" and f: "full w c" and x: "w_ll w x = Some \<lparr>ll_cb = c, ll_next = q\<rparr>"
  shows "\<exists>w'. destroy_wrapper w (Some x) = Ok w' \<and> counted w' (C - gone [(x, c)] rest) rest \<and>
           freed w w' C [(x, c)] rest \<and> listless w w'"
proof -
  obtain b where b: "w_call w c = Some b" "cb_attach b = int (Suc (count_list (map snd rest) c))"
    "cb_nb_channel b = int (length (cb_channels b))" "distinct (chans w c)" "set (chans w c) \<subseteq> dom (w_chan w)"
    and full: "None \<notin> set (cb_channels b)" and C: "c \<in> C"
    using n f by (auto simp: counted_def full_def callback_at_def)
  have le: "count_list (map snd rest) c \<le> length rest" using count_le_length [of "map snd rest" c] by simp
  show ?thesis
  proof (cases "count_list (map snd rest) c = 0")
    case True
    then have g: "gone [(x, c)] rest = {c}" by (auto simp: gone_def count_list_0_iff)
    let ?w = "w\<lparr>w_chan := w_chan w |` (- set (chans w c)), w_call := (w_call w)(c := None), w_ll := (w_ll w)(x := None)\<rparr>"
    have run: "destroy_wrapper w (Some x) = Ok ?w"
      using x b True destroy_callback_runs [OF b(1) full b(3-5)] by (simp add: destroy_wrapper_def)
    have other: "chans ?w d = chans w d" if "d \<noteq> c" for d using that by (simp add: chans_def)
    have "callback_at ?w (count_list (map snd rest) d) d" if d: "d \<in> C - {c}" for d
    proof -
      have "callback_at w (count_list (map snd rest) d) d" "set (chans w d) \<inter> set (chans w c) = {}"
        using n d C by (auto simp: counted_def)
      then show ?thesis using d by (auto simp: callback_at_def other)
    qed
    moreover have "snd ` set rest \<subseteq> C - {c}" using n True by (auto simp: counted_def count_list_0_iff)
    moreover have "length rest < 2 ^ 31" using n by (simp add: counted_def)
    moreover have "set (chans ?w d) \<inter> set (chans ?w d') = {}" if "d \<in> C - {c}" "d' \<in> C - {c}" "d \<noteq> d'" for d d'
      using n that by (simp add: counted_def other)
    ultimately have "counted ?w (C - {c}) rest" unfolding counted_def by blast
    moreover have "freed w ?w C [(x, c)] rest"
      unfolding freed_def g using C by (auto simp: restrict_map_def fun_eq_iff)
    ultimately show ?thesis using run g by (intro exI [of _ ?w]) (simp add: listless_def)
  next
    case False
    then have g: "gone [(x, c)] rest = {}" by (auto simp: gone_def count_list_0_iff)
    let ?b = "b\<lparr>cb_attach := int (count_list (map snd rest) c)\<rparr>"
    let ?w = "w\<lparr>w_call := (w_call w)(c \<mapsto> ?b), w_ll := (w_ll w)(x := None)\<rparr>"
    have "int (count_list (map snd rest) c) < 2 ^ 31" using le n by (simp add: counted_def)
    then have run: "destroy_wrapper w (Some x) = Ok ?w"
      using x b False by (simp add: destroy_wrapper_def s_int_ok put_defs)
    have other: "chans ?w d = chans w d" for d using b(1) by (simp add: chans_def)
    have "callback_at ?w (count_list (map snd rest) d) d" if "d \<in> C" for d
      using n b that by (cases "d = c") (auto simp: callback_at_def other counted_def)
    then have "counted ?w C rest" using n by (simp add: counted_def other)
    moreover have "freed w ?w C [(x, c)] rest"
      unfolding freed_def g using C b(1) by (auto simp: restrict_map_def fun_eq_iff)
    ultimately show ?thesis using run g by (intro exI [of _ ?w]) (simp add: listless_def)
  qed
qed

lemma counted_sub: "counted w C (ys @ zs) \<Longrightarrow> snd ` set ys \<subseteq> C"
  by (auto simp: counted_def)

lemma destroy_cells_counted:
  assumes "chain (w_ll w) p zs" and "distinct (map fst zs)" and "counted w C (zs @ rest)"
    and "\<forall>c\<in>snd ` set zs. full w c" and "length zs \<le> n"
  shows "\<exists>w'. destroy_cells n p w = Ok w' \<and> counted w' (C - gone zs rest) rest \<and> freed w w' C zs rest \<and> listless w w'"
  using assms
proof (induction zs arbitrary: n p w C)
  case Nil
  then show ?case by (cases n) (auto simp: listless_def)
next
  case (Cons z zs)
  obtain x c where z: "z = (x, c)" by (cases z)
  obtain m where n: "n = Suc m" using Cons.prems(5) by (cases n) auto
  obtain q where p: "p = Some x" and x: "w_ll w x = Some \<lparr>ll_cb = c, ll_next = q\<rparr>" and ch: "chain (w_ll w) q zs"
    using Cons.prems(1) by (auto simp: z)
  obtain w1 where w1: "destroy_wrapper w (Some x) = Ok w1" "counted w1 (C - gone [(x, c)] (zs @ rest)) (zs @ rest)"
    "freed w w1 C [(x, c)] (zs @ rest)" "listless w w1"
    using destroy_wrapper_counted [of w C x c "zs @ rest" q] Cons.prems(3,4) x by (auto simp: z)
  have ll: "w_ll w1 = (w_ll w)(x := None)" using w1(3) by (auto simp: freed_def restrict_map_def fun_eq_iff)
  have "x \<notin> fst ` set zs" using Cons.prems(2) by (auto simp: z)
  then have ch1: "chain (w_ll w1) q zs" unfolding ll using ch by (simp add: chain_other)
  have "full w1 d" if d: "d \<in> snd ` set zs" for d
  proof -
    have "d \<notin> gone [(x, c)] (zs @ rest)" using d by (auto simp: gone_def)
    with freed_kept [OF w1(3)] Cons.prems(4) d show ?thesis by auto
  qed
  then have f1: "\<forall>d\<in>snd ` set zs. full w1 d" by blast
  from Cons.IH [OF ch1 _ w1(2) f1, of m] Cons.prems(2,5) n obtain w2 where
    w2: "destroy_cells m q w1 = Ok w2" "counted w2 (C - gone [(x, c)] (zs @ rest) - gone zs rest) rest"
    "freed w1 w2 (C - gone [(x, c)] (zs @ rest)) zs rest" "listless w1 w2" by (auto simp: z)
  have "freed w w2 C ([(x, c)] @ zs) rest"
    using freed_trans [OF w1(3) w2(3)] counted_sub [of w C "[(x, c)]" "zs @ rest"] Cons.prems(3) by (simp add: z)
  moreover have "C - gone [(x, c)] (zs @ rest) - gone zs rest = C - gone (z # zs) rest"
    using gone_append [of "[(x, c)]" zs rest] by (auto simp: z)
  ultimately show ?case using w1 w2 x p by (simp add: n z listless_def)
qed

lemma destroy_list_counted:
  assumes l: "cells_at w e zs" and n: "counted w C (zs @ rest)" and f: "\<forall>c\<in>snd ` set zs. full w c"
    and lt: "\<forall>x\<in>fst ` set zs. x < w_next w"
  shows "\<exists>w'. destroy_list w (Some e) = Ok w' \<and> counted w' (C - gone zs rest) rest \<and> freed w w' C zs rest \<and>
           w_ends w' = (w_ends w)(e \<mapsto> \<lparr>e_head = None, e_tail = None\<rparr>) \<and> w_node w' = w_node w \<and> w_trace w' = w_trace w \<and>
           w_reqs w' = w_reqs w"
proof -
  obtain h t where e: "w_ends w e = Some \<lparr>e_head = h, e_tail = t\<rparr>" "chain (w_ll w) h zs" "distinct (map fst zs)"
    using l by (auto simp: cells_at_def)
  have "card (fst ` set zs) \<le> card {..<w_next w}" using lt by (intro card_mono) auto
  then have "length zs \<le> w_next w" using distinct_card [OF e(3)] by simp
  from destroy_cells_counted [OF e(2,3) n f this] obtain w1 where w1: "destroy_cells (w_next w) h w = Ok w1"
    "counted w1 (C - gone zs rest) rest" "freed w w1 C zs rest" "listless w w1" by blast
  have "chans (put_ends w1 a x) = chans w1" for a x by (simp add: fun_eq_iff chans_def put_defs)
  then show ?thesis
    using w1 e by (simp add: destroy_list_def listless_def counted_def callback_at_def freed_def put_defs)
qed

section \<open>Releasing trees\<close>

text \<open>\<open>destroy_tree\<close> releases the nodes one after the other, children first.\<close>

fun nodes :: "ctree \<Rightarrow> nat list" where
  "nodes Tip = []"
| "nodes (Branch a l r) = nodes l @ nodes r @ [a]"

fun destroy_nodes :: "nat list \<Rightarrow> world \<Rightarrow> world cr" where
  "destroy_nodes [] w = Ok w"
| "destroy_nodes (a # as) w =
     cbind (load (w_node w) a) (\<lambda>nd.
     cbind (never_written (n_data nd)) (\<lambda>d.
     let w = (case d of None \<Rightarrow> w | Some h \<Rightarrow> stop_timer w h) in
     cbind (destroy_list w (n_cb_list nd)) (\<lambda>w.
     let w = (case n_cb_list nd of None \<Rightarrow> w | Some e \<Rightarrow> w\<lparr>w_ends := (w_ends w)(e := None)\<rparr>) in
     destroy_nodes as (w\<lparr>w_node := (w_node w)(a := None)\<rparr>))))"

lemma destroy_nodes_append: "destroy_nodes (as @ bs) w = cbind (destroy_nodes as w) (destroy_nodes bs)"
  by (induction as arbitrary: w) (simp_all add: cbind_assoc Let_def)

lemma destroy_tree_nodes: "destroy_tree t w = destroy_nodes (nodes t) w"
proof (induction t arbitrary: w)
  case (Branch a l r)
  have "destroy_tree (Branch a l r) w = cbind (destroy_nodes (nodes l) w) (\<lambda>w. cbind (destroy_nodes (nodes r) w) (destroy_nodes [a]))"
    unfolding destroy_tree.simps Branch.IH by (intro arg_cong [where f = "cbind _"] ext) (simp add: Let_def)
  moreover have "destroy_nodes (nodes r @ [a]) = (\<lambda>w. cbind (destroy_nodes (nodes r) w) (destroy_nodes [a]))"
    by (rule ext) (rule destroy_nodes_append)
  ultimately show ?case by (simp only: nodes.simps destroy_nodes_append)
qed simp

definition cells_of :: "(nat \<Rightarrow> cells) \<Rightarrow> nat list \<Rightarrow> cells" where
  "cells_of L as = concat (map L as)"

definition nodes_at :: "world \<Rightarrow> (nat \<Rightarrow> cells) \<Rightarrow> nat list \<Rightarrow> bool" where
  "nodes_at w L as \<longleftrightarrow> distinct as \<and> distinct (map fst (cells_of L as)) \<and>
     (\<forall>a\<in>set as. (\<exists>nd. w_node w a = Some nd \<and> n_cb_list nd = Some (Suc a) \<and> n_data nd \<noteq> None) \<and> cells_at w (Suc a) (L a))"

definition timer_of :: "world \<Rightarrow> nat \<Rightarrow> nat list" where
  "timer_of w a = (case w_node w a of Some nd \<Rightarrow> (case n_data nd of Some (Some h) \<Rightarrow> [h] | _ \<Rightarrow> []) | None \<Rightarrow> [])"

definition node_timers :: "world \<Rightarrow> nat list \<Rightarrow> nat list" where
  "node_timers w as = concat (map (timer_of w) as)"

lemma cells_of_simps [simp]: "cells_of L [] = []" "cells_of L (a # as) = L a @ cells_of L as"
  "cells_of L (as @ bs) = cells_of L as @ cells_of L bs"
  by (simp_all add: cells_of_def)

lemma destroy_nodes_counted:
  assumes "nodes_at w L as" and "counted w C (cells_of L as @ rest)" and "\<forall>c\<in>snd ` set (cells_of L as). full w c"
    and "\<forall>x\<in>fst ` set (cells_of L as). x < w_next w"
  shows "\<exists>w'. destroy_nodes as w = Ok w' \<and> counted w' (C - gone (cells_of L as) rest) rest \<and> freed w w' C (cells_of L as) rest \<and>
           w_node w' = w_node w |` (- set as) \<and> w_ends w' = w_ends w |` (- Suc ` set as) \<and>
           w_trace w' = w_trace w @ map TimerStop (node_timers w as) \<and> w_reqs w' = rev (node_timers w as) @ w_reqs w"
  using assms
proof (induction as arbitrary: w C)
  case Nil
  then show ?case by (simp add: node_timers_def restrict_map_def)
next
  case (Cons a as)
  obtain nd d where nd: "w_node w a = Some nd" "n_cb_list nd = Some (Suc a)" "n_data nd = Some d"
    and l: "cells_at w (Suc a) (L a)" using Cons.prems(1) by (auto simp: nodes_at_def)
  define w0 where "w0 = (case d of None \<Rightarrow> w | Some h \<Rightarrow> stop_timer w h)"
  have w0: "w_node w0 = w_node w" "w_ends w0 = w_ends w" "w_ll w0 = w_ll w" "w_call w0 = w_call w" "w_chan w0 = w_chan w"
    "w_next w0 = w_next w" "w_hand w0 = w_hand w" "w_bufs w0 = w_bufs w" "w_trace w0 = w_trace w @ map TimerStop (timer_of w a)"
    "w_reqs w0 = rev (timer_of w a) @ w_reqs w"
    by (auto simp: w0_def stop_timer_def req_free_def emit_def timer_of_def nd split: option.splits)
  have same: "chans w0 = chans w" "full w0 = full w" by (simp_all add: fun_eq_iff chans_def full_def w0)
  have n0: "counted w0 C (L a @ (cells_of L as @ rest))"
    using Cons.prems(2) by (simp add: counted_def callback_at_def same w0)
  have l0: "cells_at w0 (Suc a) (L a)" using l by (subst cells_at_cong [of _ _ w]) (simp_all add: w0)
  obtain w1 where w1: "destroy_list w0 (Some (Suc a)) = Ok w1" "counted w1 (C - gone (L a) (cells_of L as @ rest)) (cells_of L as @ rest)"
    "freed w0 w1 C (L a) (cells_of L as @ rest)" "w_ends w1 = (w_ends w)(Suc a \<mapsto> \<lparr>e_head = None, e_tail = None\<rparr>)"
    "w_node w1 = w_node w" "w_trace w1 = w_trace w0" "w_reqs w1 = w_reqs w0"
    using destroy_list_counted [OF l0 n0] Cons.prems(3,4) by (auto simp: same w0)
  let ?w = "w1\<lparr>w_ends := (w_ends w1)(Suc a := None), w_node := (w_node w1)(a := None)\<rparr>" and ?C = "C - gone (L a) (cells_of L as @ rest)"
  have freed: "freed w ?w C (L a) (cells_of L as @ rest)" using w1(3) by (simp add: freed_def same w0)
  have n1: "counted ?w ?C (cells_of L as @ rest)" using w1(2) by (simp add: counted_def callback_at_def chans_def)
  have apart: "x \<notin> fst ` set (L a)" if "x \<in> fst ` set (cells_of L as)" for x
    using Cons.prems(1) that by (auto simp: nodes_at_def)
  have at: "cells_at ?w (Suc b) (L b)" if b: "b \<in> set as" for b
  proof -
    have "b \<noteq> a" "cells_at w (Suc b) (L b)" using Cons.prems(1) b by (auto simp: nodes_at_def)
    moreover have "w_ll ?w x = w_ll w x" if "x \<in> fst ` set (L b)" for x
    proof -
      have "x \<in> fst ` set (cells_of L as)" using that b by (auto simp: cells_of_def)
      then have "x \<notin> fst ` set (L a)" by (rule apart)
      moreover have "w_ll ?w = w_ll w |` (- fst ` set (L a))" using freed by (simp add: freed_def)
      ultimately show ?thesis by (simp add: restrict_map_def)
    qed
    ultimately show ?thesis using w1(4) by (subst cells_at_cong [of _ _ w]) simp_all
  qed
  have nodes: "nodes_at ?w L as" using Cons.prems(1) at w1(5) by (auto simp: nodes_at_def)
  have "full ?w c" if "c \<in> snd ` set (cells_of L as)" for c
  proof -
    have "c \<notin> gone (L a) (cells_of L as @ rest)" using that by (auto simp: gone_def)
    with freed_kept [OF freed] Cons.prems(3) that show ?thesis by auto
  qed
  moreover have "x < w_next ?w" if "x \<in> fst ` set (cells_of L as)" for x
    using Cons.prems(4) that freed by (auto simp: freed_def)
  ultimately obtain w2 where w2: "destroy_nodes as ?w = Ok w2" "counted w2 (?C - gone (cells_of L as) rest) rest"
    "freed ?w w2 ?C (cells_of L as) rest" "w_node w2 = w_node ?w |` (- set as)" "w_ends w2 = w_ends ?w |` (- Suc ` set as)"
    "w_trace w2 = w_trace ?w @ map TimerStop (node_timers ?w as)" "w_reqs w2 = rev (node_timers ?w as) @ w_reqs ?w"
    using Cons.IH [OF nodes n1] by blast
  have "timer_of ?w b = timer_of w b" if "b \<in> set as" for b
    using that Cons.prems(1) w1(5) by (auto simp: nodes_at_def timer_of_def)
  then have timers: "timer_of w a @ node_timers ?w as = node_timers w (a # as)"
    by (simp add: node_timers_def cong: map_cong)
  have "destroy_nodes (a # as) w = destroy_nodes as ?w"
    using nd w1(1,5) by (simp add: never_written_def Let_def w0_def [symmetric])
  moreover have "?C - gone (cells_of L as) rest = C - gone (cells_of L (a # as)) rest" by (auto simp: gone_append)
  moreover have "freed w w2 C (cells_of L (a # as)) rest"
    using freed_trans [OF freed w2(3)] counted_sub [of w C "L a"] Cons.prems(2) by simp
  moreover have "w_node w2 = w_node w |` (- set (a # as))" "w_ends w2 = w_ends w |` (- Suc ` set (a # as))"
    using w2(4,5) w1(4,5) by (auto simp: restrict_map_def fun_eq_iff)
  ultimately show ?case using w2(1,2,6,7) w1(6,7) timers [symmetric] by (simp add: w0)
qed

section \<open>Subscriptions over a store\<close>

definition subs_over :: "world \<Rightarrow> world \<Rightarrow> (nat \<Rightarrow> cells) \<Rightarrow> nat list \<Rightarrow> nat set \<Rightarrow> bool" where
  "subs_over w0 w L as C \<longleftrightarrow> world_fresh w \<and> nodes_at w L as \<and> counted w C (cells_of L as) \<and>
     (\<forall>h\<in>set (node_timers w as). h < w_next w) \<and>
     w_node w |` (- set as) = w_node w0 \<and> w_ends w |` (- Suc ` set as) = w_ends w0 \<and>
     w_ll w |` (- fst ` set (cells_of L as)) = w_ll w0 \<and> w_call w |` (- C) = w_call w0 \<and>
     w_chan w |` (- (\<Union>c\<in>C. set (chans w c))) = w_chan w0"

lemma subs_none: "world_fresh w \<Longrightarrow> subs_over w w L [] {}"
  by (simp add: subs_over_def nodes_at_def counted_def node_timers_def restrict_map_def)

lemma counted_at: "counted w C zs \<Longrightarrow> c \<in> C \<Longrightarrow> callback_at w (count_list (map snd zs) c) c"
  by (simp add: counted_def)

lemma counted_chans: "counted w C zs \<Longrightarrow> c \<in> C \<Longrightarrow> set (chans w c) \<subseteq> dom (w_chan w)"
  by (auto simp: counted_def callback_at_def)

lemma node_timers_cong: "w_node w' = w_node w \<Longrightarrow> node_timers w' as = node_timers w as"
proof -
  assume "w_node w' = w_node w"
  then have "timer_of w' = timer_of w" by (simp add: fun_eq_iff timer_of_def)
  then show ?thesis by (simp add: node_timers_def)
qed

text \<open>A new callback.\<close>

lemma subs_callback:
  assumes s: "subs_over w0 w L as C" and b: "cb_attach b = 0" "cb_nb_channel b = int n" "cb_channels b = replicate n None"
  shows "subs_over w0 (put_call (bump w) (w_next w) b) L as (insert (w_next w) C)" and "w_next w \<notin> C"
proof -
  let ?a = "w_next w" and ?w = "put_call (bump w) (w_next w) b"
  have n: "counted w C (cells_of L as)" and fresh: "world_fresh w" using s by (simp_all add: subs_over_def)
  have a: "w_call w ?a = None" using fresh by (simp add: world_fresh_def)
  show C: "?a \<notin> C" using counted_at [OF n, of ?a] a by (auto simp: callback_at_def)
  have none: "List.map_filter id (replicate n None) = ([] :: nat list)" by (induction n) (simp_all add: List.map_filter_simps)
  have ch: "chans ?w c = (if c = ?a then [] else chans w c)" for c by (simp add: chans_def put_defs b none)
  have "?a \<notin> snd ` set (cells_of L as)" using n C by (auto simp: counted_def)
  then have zero: "count_list (map snd (cells_of L as)) ?a = 0" by (simp add: count_list_0_iff)
  have "callback_at ?w (count_list (map snd (cells_of L as)) c) c" if "c \<in> insert ?a C" for c
    using that counted_at [OF n, of c] C zero unfolding callback_at_def ch by (auto simp: put_defs b)
  then have "counted ?w (insert ?a C) (cells_of L as)" using n unfolding counted_def ch by auto
  moreover have "world_fresh ?w" using fresh by (auto simp: world_fresh_def put_defs)
  moreover have "nodes_at ?w L as" using s by (simp add: subs_over_def nodes_at_def cells_at_def put_defs)
  moreover have "node_timers ?w as = node_timers w as" by (rule node_timers_cong) (simp add: put_defs)
  moreover have "w_call ?w |` (- insert ?a C) = w_call w |` (- C)" using a by (auto simp: put_defs restrict_map_def fun_eq_iff)
  moreover have "(\<Union>c\<in>insert ?a C. set (chans ?w c)) = (\<Union>c\<in>C. set (chans w c))" using C by (auto simp: ch split: if_splits)
  ultimately show "subs_over w0 ?w L as (insert ?a C)" using s unfolding subs_over_def by (auto simp: put_defs intro: less_SucI)
qed

text \<open>A channel in a free place of a callback.\<close>

lemma map_filter_update:
  "i < length xs \<Longrightarrow> xs ! i = None \<Longrightarrow> v \<notin> set (List.map_filter id xs) \<Longrightarrow> distinct (List.map_filter id xs) \<Longrightarrow>
   distinct (List.map_filter id (xs[i := Some v])) \<and> set (List.map_filter id (xs[i := Some v])) = insert v (set (List.map_filter id xs))"
proof (induction xs arbitrary: i)
  case (Cons x xs)
  then show ?case by (cases i; cases x) (auto simp: List.map_filter_simps)
qed simp

lemma subs_channel:
  assumes s: "subs_over w0 w L as C" and c: "c \<in> C" "w_call w c = Some b" and i: "i < length (cb_channels b)" "cb_channels b ! i = None"
  shows "subs_over w0 (put_call (put_chan (bump w) (w_next w) x) c (b\<lparr>cb_channels := (cb_channels b)[i := Some (w_next w)]\<rparr>)) L as C"
    (is "subs_over w0 ?w L as C")
proof -
  let ?h = "w_next w"
  have n: "counted w C (cells_of L as)" and fresh: "world_fresh w" using s by (simp_all add: subs_over_def)
  have h: "w_chan w ?h = None" using fresh by (simp add: world_fresh_def)
  then have new: "?h \<notin> set (chans w d)" if "d \<in> C" for d using counted_chans [OF n that] by auto
  have d: "distinct (chans w c)" using counted_at [OF n c(1)] by (auto simp: callback_at_def)
  have ch: "chans ?w e = chans w e" if "e \<noteq> c" for e using that by (simp add: chans_def put_defs)
  have chc: "distinct (chans ?w c)" "set (chans ?w c) = insert ?h (set (chans w c))"
    using map_filter_update [OF i, of ?h] new [OF c(1)] d c(2) by (simp_all add: chans_def put_defs)
  have "callback_at ?w (count_list (map snd (cells_of L as)) e) e" if e: "e \<in> C" for e
  proof (cases "e = c")
    case True
    with counted_at [OF n c(1)] c(2) chc show ?thesis by (auto simp: callback_at_def put_defs)
  next
    case False
    with counted_at [OF n e] ch show ?thesis by (auto simp: callback_at_def put_defs)
  qed
  moreover have "set (chans ?w e) \<inter> set (chans ?w f) = {}" if "e \<in> C" "f \<in> C" "e \<noteq> f" for e f
  proof -
    have dis: "set (chans w e) \<inter> set (chans w f) = {}" using n that by (simp add: counted_def)
    show ?thesis
    proof (cases "e = c")
      case True
      with that have "f \<noteq> c" by simp
      with True dis chc(2) new [OF that(2)] ch show ?thesis by auto
    next
      case False
      with dis chc(2) new [OF that(1)] ch [of e] ch [of f] show ?thesis by (cases "f = c") auto
    qed
  qed
  ultimately have "counted ?w C (cells_of L as)" using n unfolding counted_def by (intro conjI ballI impI) simp_all
  moreover have "world_fresh ?w" using fresh c(2) by (auto simp: world_fresh_def put_defs)
  moreover have "nodes_at ?w L as" using s by (simp add: subs_over_def nodes_at_def cells_at_def put_defs)
  moreover have "node_timers ?w as = node_timers w as" by (rule node_timers_cong) (simp add: put_defs)
  moreover have "w_call ?w |` (- C) = w_call w |` (- C)" using c(1) by (auto simp: put_defs restrict_map_def fun_eq_iff)
  moreover have "w_chan ?w |` (- (\<Union>c\<in>C. set (chans ?w c))) = w_chan w |` (- (\<Union>c\<in>C. set (chans w c)))"
  proof -
    have "(\<Union>c\<in>C. set (chans ?w c)) = insert ?h (\<Union>c\<in>C. set (chans w c))"
      using chc(2) ch c(1) by (auto split: if_splits) (metis insert_iff)+
    then show ?thesis using h by (auto simp: put_defs restrict_map_def fun_eq_iff)
  qed
  ultimately show ?thesis using s unfolding subs_over_def by (auto simp: put_defs intro: less_SucI)
qed

text \<open>A new node with its empty list.\<close>

lemma subs_node:
  assumes s: "subs_over w0 w L as C" and env: "grants_all env"
    and w1: "w' = snd (snd (snd (new_node env w nd st)))"
  shows "subs_over w0 w' (L(w_next w := [])) (w_next w # as) C" and "w_call w' = w_call w"
    and "cells_of (L(w_next w := [])) (w_next w # as) = cells_of L as"
proof -
  let ?a = "w_next w"
  have fresh: "world_fresh w" and at: "nodes_at w L as" using s by (simp_all add: subs_over_def)
  have w': "w' = put_ends (put_node (bump (bump w)) ?a (nd\<lparr>n_cb_list := Some (Suc ?a), n_data := Some None\<rparr>)) (Suc ?a) \<lparr>e_head = None, e_tail = None\<rparr>"
    using env by (simp add: w1 new_node_def Let_def)
  show "w_call w' = w_call w" by (simp add: w' put_defs)
  have empty: "w_node w ?a = None" "w_ends w (Suc ?a) = None" using fresh by (simp_all add: world_fresh_def)
  have a: "?a \<notin> set as" using at empty by (auto simp: nodes_at_def)
  then have cells: "cells_of (L(?a := [])) as = cells_of L as" by (simp add: cells_of_def)
  then show "cells_of (L(?a := [])) (?a # as) = cells_of L as" by simp
  have ch: "chans w' = chans w" by (simp add: fun_eq_iff chans_def w' put_defs)
  have keep: "cells_at w' (Suc b) (L b) = cells_at w (Suc b) (L b)" if "b \<in> set as" for b
    by (rule cells_at_cong) (use that a in \<open>auto simp: w' put_defs\<close>)
  have "nodes_at w' (L(?a := [])) (?a # as)"
    unfolding nodes_at_def using at a keep by (auto simp: nodes_at_def cells w' put_defs cells_at_def)
  moreover have "counted w' C (cells_of L as)" using s by (simp add: subs_over_def counted_def callback_at_def ch) (simp add: w' put_defs)
  moreover have "world_fresh w'" using fresh by (auto simp: world_fresh_def w' put_defs)
  moreover have "node_timers w' (?a # as) = node_timers w as"
    using a by (auto simp: node_timers_def timer_of_def w' put_defs intro!: arg_cong [where f = concat])
  moreover have "w_node w' |` (- set (?a # as)) = w_node w |` (- set as)" "w_ends w' |` (- Suc ` set (?a # as)) = w_ends w |` (- Suc ` set as)"
    using empty by (auto simp: w' put_defs restrict_map_def fun_eq_iff)
  ultimately show "subs_over w0 w' (L(?a := [])) (?a # as) C"
    using s unfolding subs_over_def ch by (auto simp: cells w' put_defs intro: less_SucI)
qed


text \<open>One more cell for a callback at the end of the list of a node.\<close>

lemma push_cb_cells:
  assumes l: "cells_at w l zs" and x: "w_ll w x = Some \<lparr>ll_cb = c, ll_next = None\<rparr>" "x \<notin> fst ` set zs"
    and b: "w_call w c = Some b" "- (2 ^ 31) \<le> cb_attach b + 1" "cb_attach b + 1 < 2 ^ 31"
  obtains w' where "push_cb w (Some l) (Some x) = Ok w'" and "cells_at w' l (zs @ [(x, c)])"
    and "w_call w' = (w_call w)(c \<mapsto> b\<lparr>cb_attach := cb_attach b + 1\<rparr>)"
    and "\<And>y. y \<notin> fst ` set zs \<Longrightarrow> w_ll w' y = w_ll w y" and "dom (w_ll w') = dom (w_ll w)"
    and "\<And>k. k \<noteq> l \<Longrightarrow> w_ends w' k = w_ends w k" and "dom (w_ends w') = dom (w_ends w)"
    and "same_rest w w'" and "w_next w' = w_next w"
proof (cases zs rule: rev_cases)
  case Nil
  then have "w_ends w l = Some \<lparr>e_head = None, e_tail = None\<rparr>" using l by (auto simp: cells_at_def)
  with x b Nil show ?thesis
    by (intro that [of "w\<lparr>w_ends := (w_ends w)(l \<mapsto> \<lparr>e_head = Some x, e_tail = Some x\<rparr>),
        w_call := (w_call w)(c \<mapsto> b\<lparr>cb_attach := cb_attach b + 1\<rparr>)\<rparr>"])
      (auto simp: push_cb_def put_defs s_int_ok cells_at_def same_rest_def Let_def)
next
  case (snoc ys z)
  obtain t ct where z: "z = (t, ct)" by (cases z)
  obtain h where ends: "w_ends w l = Some \<lparr>e_head = h, e_tail = Some t\<rparr>" and ch: "chain (w_ll w) h (ys @ [(t, ct)])"
    using l by (auto simp: cells_at_def snoc z)
  obtain n where t: "w_ll w t = Some \<lparr>ll_cb = ct, ll_next = n\<rparr>" using chain_cell [OF ch, of t ct] by auto
  have h: "h \<noteq> None" using ch by (cases ys) auto
  have tx: "t \<noteq> x" using x(2) by (auto simp: snoc z)
  have same: "(w_ll w)(t \<mapsto> \<lparr>ll_cb = ct, ll_next = Some x\<rparr>, x \<mapsto> \<lparr>ll_cb = c, ll_next = None\<rparr>) =
      (w_ll w)(t \<mapsto> \<lparr>ll_cb = ct, ll_next = Some x\<rparr>)"
    using x(1) tx by (auto simp: fun_eq_iff)
  have ch': "chain ((w_ll w)(t \<mapsto> \<lparr>ll_cb = ct, ll_next = Some x\<rparr>)) h (ys @ [(t, ct), (x, c)])"
    using chain_snoc [OF ch, of x c] l x(2) unfolding same by (simp add: cells_at_def snoc z)
  show ?thesis
    using ends t h tx x b ch' l
    by (intro that [of "w\<lparr>w_ll := (w_ll w)(t \<mapsto> \<lparr>ll_cb = ct, ll_next = Some x\<rparr>),
        w_ends := (w_ends w)(l \<mapsto> \<lparr>e_head = h, e_tail = Some x\<rparr>), w_call := (w_call w)(c \<mapsto> b\<lparr>cb_attach := cb_attach b + 1\<rparr>)\<rparr>"])
      (auto simp: push_cb_def put_defs s_int_ok cells_at_def same_rest_def Let_def snoc z)
qed

lemma cells_lt: "world_fresh w \<Longrightarrow> cells_at w l zs \<Longrightarrow> x \<in> fst ` set zs \<Longrightarrow> x < w_next w"
  using cells_at_dom [of w l zs x] by (auto simp: world_fresh_def not_le [symmetric])

lemma count_snoc: "mset zs' = add_mset (x, c) (mset zs) \<Longrightarrow>
    count_list (map snd zs') d = count_list (map snd zs) d + (if d = c then 1 else 0)"
proof -
  assume "mset zs' = add_mset (x, c) (mset zs)"
  then have "mset (map snd zs') = add_mset c (mset (map snd zs))" by simp
  then show ?thesis by (simp add: count_mset [symmetric])
qed

lemma cells_push: "distinct as \<Longrightarrow> a \<in> set as \<Longrightarrow>
    mset (cells_of (L(a := L a @ [z])) as) = add_mset z (mset (cells_of L as))"
proof (induction as)
  case (Cons b as)
  show ?case
  proof (cases "a = b")
    case True
    then have "cells_of (L(a := L a @ [z])) as = cells_of L as" using Cons.prems by (simp add: cells_of_def)
    with True show ?thesis by (simp del: fun_upd_apply add: fun_upd_same)
  next
    case False
    with Cons show ?thesis by simp
  qed
qed simp


lemma cells_apart:
  "distinct (map fst (cells_of L as)) \<Longrightarrow> a \<in> set as \<Longrightarrow> d \<in> set as \<Longrightarrow> a \<noteq> d \<Longrightarrow> fst ` set (L a) \<inter> fst ` set (L d) = {}"
proof (induction as)
  case (Cons b as)
  have sub: "fst ` set (L c) \<subseteq> fst ` set (cells_of L as)" if "c \<in> set as" for c
    using that by (intro image_mono) (auto simp: cells_of_def)
  have "fst ` set (L b) \<inter> fst ` set (cells_of L as) = {}" and "distinct (map fst (cells_of L as))"
    using Cons.prems(1) by simp_all
  with Cons sub show ?case unfolding set_simps by blast
qed simp

lemma subs_push:
  assumes s: "subs_over w0 w L as C" and a: "a \<in> set as" and c: "c \<in> C" and room: "length (cells_of L as) + 1 < 2 ^ 31"
  obtains w' where "push_cb (put_ll (bump w) (w_next w) \<lparr>ll_cb = c, ll_next = None\<rparr>) (Some (Suc a)) (Some (w_next w)) = Ok w'"
    and "subs_over w0 w' (L(a := L a @ [(w_next w, c)])) as C" and "w_node w' = w_node w"
    and "\<And>d. map_option cb_channels (w_call w' d) = map_option cb_channels (w_call w d)" and "same_rest w w'"
proof -
  let ?x = "w_next w" and ?L = "L(a := L a @ [(w_next w, c)])"
  define v where "v = put_ll (bump w) ?x \<lparr>ll_cb = c, ll_next = None\<rparr>"
  have fresh: "world_fresh w" and at: "nodes_at w L as" and n: "counted w C (cells_of L as)" using s by (simp_all add: subs_over_def)
  have as: "distinct as" and all: "distinct (map fst (cells_of L as))" using at by (simp_all add: nodes_at_def)
  have l: "cells_at w (Suc b) (L b)" if "b \<in> set as" for b using at that by (simp add: nodes_at_def)
  have old: "y \<noteq> ?x" if "y \<in> fst ` set (cells_of L as)" for y
    using that cells_lt [OF fresh l] by (fastforce simp: cells_of_def)
  have mem: "y \<in> fst ` set (cells_of L as)" if "b \<in> set as" "y \<in> fst ` set (L b)" for b y
    using that by (auto simp: cells_of_def)
  have x: "w_ll w ?x = None" using fresh by (simp add: world_fresh_def)
  have lv: "cells_at v (Suc b) (L b)" if "b \<in> set as" for b
    by (subst cells_at_cong [of _ _ w]) (use l that mem [OF that] old in \<open>auto simp: v_def put_defs\<close>)
  obtain b where b: "w_call w c = Some b" "cb_attach b = int (count_list (map snd (cells_of L as)) c)"
    "cb_nb_channel b = int (length (cb_channels b))"
    using counted_at [OF n c] by (auto simp: callback_at_def)
  have "count_list (map snd (cells_of L as)) c \<le> length (cells_of L as)"
    using count_le_length [of "map snd (cells_of L as)" c] by simp
  then have range: "- (2 ^ 31) \<le> cb_attach b + 1" "cb_attach b + 1 < 2 ^ 31" using b(2) room by simp_all
  have nx: "?x \<notin> fst ` set (L a)" using old mem [OF a] by blast
  have vx: "w_ll v ?x = Some \<lparr>ll_cb = c, ll_next = None\<rparr>" "?x \<notin> fst ` set (L a)" "w_call v c = Some b"
    using nx b(1) by (simp_all add: v_def put_defs)
  obtain w' where run: "push_cb v (Some (Suc a)) (Some ?x) = Ok w'" and cells: "cells_at w' (Suc a) (L a @ [(?x, c)])"
    and call: "w_call w' = (w_call v)(c \<mapsto> b\<lparr>cb_attach := cb_attach b + 1\<rparr>)"
    and ll: "\<And>y. y \<notin> fst ` set (L a) \<Longrightarrow> w_ll w' y = w_ll v y" and "dom (w_ll w') = dom (w_ll v)"
    and ends: "\<And>k. k \<noteq> Suc a \<Longrightarrow> w_ends w' k = w_ends v k" and "dom (w_ends w') = dom (w_ends v)"
    and rest: "same_rest v w'" and "w_next w' = w_next v"
    by (rule push_cb_cells [OF lv [OF a] vx range]) blast
  have node: "w_node w' = w_node w" "w_chan w' = w_chan w" "w_hand w' = w_hand w" "w_reqs w' = w_reqs w" "w_next w' = Suc ?x"
    using rest \<open>w_next w' = w_next v\<close> by (simp_all add: same_rest_def v_def put_defs)
  have call': "w_call w' = (w_call w)(c \<mapsto> b\<lparr>cb_attach := cb_attach b + 1\<rparr>)" using call by (simp add: v_def put_defs)
  have slots: "map_option cb_channels (w_call w' d) = map_option cb_channels (w_call w d)" for d using b(1) by (simp add: call')
  have ch: "chans w' = chans w" by (rule ext) (rule chans_slots [OF slots])
  have ms: "mset (cells_of ?L as) = add_mset (?x, c) (mset (cells_of L as))" by (rule cells_push [OF as a])
  then have set: "set (cells_of ?L as) = insert (?x, c) (set (cells_of L as))" by (metis set_mset_mset set_mset_add_mset_insert)
  have len: "length (cells_of ?L as) = length (cells_of L as) + 1" using ms by (metis size_mset size_add_mset Suc_eq_plus1)
  have fx: "?x \<notin> fst ` set (cells_of L as)" using old by blast
  have "mset (map fst (cells_of ?L as)) = mset (?x # map fst (cells_of L as))" using ms by simp
  then have "distinct (map fst (cells_of ?L as)) = distinct (?x # map fst (cells_of L as))" by (rule mset_eq_imp_distinct_iff)
  with all fx have dist: "distinct (map fst (cells_of ?L as))" by simp
  have "cells_at w' (Suc d) (?L d)" if d: "d \<in> set as" for d
  proof (cases "d = a")
    case False
    have "y \<notin> fst ` set (L a)" if "y \<in> fst ` set (L d)" for y
      using that cells_apart [OF all a d] False by blast
    then have "cells_at w' (Suc d) (L d) = cells_at v (Suc d) (L d)" using False ll ends by (intro cells_at_cong) auto
    with lv [OF d] False show ?thesis by simp
  qed (simp add: cells)
  then have nodes: "nodes_at w' ?L as" using at dist by (auto simp: nodes_at_def node)
  have "callback_at w' (count_list (map snd (cells_of ?L as)) d) d" if "d \<in> C" for d
    using counted_at [OF n that] b unfolding count_snoc [OF ms] callback_at_def ch by (auto simp: call' node)
  then have "counted w' C (cells_of ?L as)" using n c room unfolding counted_def ch len set by auto
  moreover have "world_fresh w'" 
  proof -
    have "y \<notin> dom (w_ll v)" "y \<notin> dom (w_ends v)" if "Suc ?x \<le> y" for y
      using that fresh by (simp_all add: world_fresh_def v_def put_defs domIff)
    then have "y \<notin> dom (w_ll w')" "y \<notin> dom (w_ends w')" if "Suc ?x \<le> y" for y
      unfolding \<open>dom (w_ll w') = dom (w_ll v)\<close> \<open>dom (w_ends w') = dom (w_ends v)\<close> using that by blast+
    then have "w_ll w' y = None" "w_ends w' y = None" if "Suc ?x \<le> y" for y using that by (simp_all add: domIff)
    moreover have "w_call w' y = None" if "Suc ?x \<le> y" for y
      using fresh b(1) that by (auto simp: world_fresh_def call')
    ultimately show ?thesis using fresh by (simp add: world_fresh_def node less_SucI) 
  qed
  moreover have "w_ll w' |` (- fst ` set (cells_of ?L as)) = w_ll w |` (- fst ` set (cells_of L as))"
  proof -
    have "w_ll w' y = w_ll w y" if "y \<notin> fst ` set (cells_of L as)" "y \<noteq> ?x" for y
    proof -
      have "y \<notin> fst ` set (L a)" using that(1) mem [OF a] by blast
      with ll that(2) show ?thesis by (simp add: v_def put_defs)
    qed
    then show ?thesis using x by (auto simp: set restrict_map_def fun_eq_iff)
  qed
  moreover have "w_ends w' |` (- Suc ` set as) = w_ends w |` (- Suc ` set as)"
    using ends a by (auto simp: v_def put_defs restrict_map_def fun_eq_iff)
  moreover have "w_call w' |` (- C) = w_call w |` (- C)" using c by (auto simp: call' restrict_map_def fun_eq_iff)
  moreover have "node_timers w' as = node_timers w as" by (rule node_timers_cong [OF node(1)])
  ultimately have "subs_over w0 w' ?L as C" using s nodes unfolding subs_over_def ch node by (auto intro: less_SucI)
  moreover have "same_rest w w'" using rest by (simp add: same_rest_def v_def put_defs)
  ultimately show thesis using that run node(1) slots unfolding v_def by blast
qed


text \<open>The order of the nodes does not matter.\<close>

lemma cells_of_order: "mset as = mset bs \<Longrightarrow> mset (cells_of L as) = mset (cells_of L bs)"
proof -
  have "mset (cells_of L as) = \<Sum>\<^sub># (image_mset (\<lambda>a. mset (L a)) (mset as))" for as
    by (induction as) simp_all
  then show "mset as = mset bs \<Longrightarrow> mset (cells_of L as) = mset (cells_of L bs)" by simp
qed

lemma subs_order:
  assumes s: "subs_over w0 w L as C" and m: "mset as = mset bs"
  shows "subs_over w0 w L bs C"
proof -
  have set: "set as = set bs" using m by (rule mset_eq_setD)
  have ms: "mset (cells_of L as) = mset (cells_of L bs)" using m by (rule cells_of_order)
  then have cells: "set (cells_of L as) = set (cells_of L bs)" "length (cells_of L as) = length (cells_of L bs)"
    by (rule mset_eq_setD, metis mset_eq_length)
  have "mset (map snd (cells_of L as)) = mset (map snd (cells_of L bs))" "mset (map fst (cells_of L as)) = mset (map fst (cells_of L bs))"
    using ms by simp_all
  then have "count_list (map snd (cells_of L as)) c = count_list (map snd (cells_of L bs)) c"
    "distinct (map fst (cells_of L as)) = distinct (map fst (cells_of L bs))" for c
    using mset_eq_imp_distinct_iff by (auto simp: count_mset [symmetric] simp del: mset_map)
  moreover have "distinct as = distinct bs" using m by (rule mset_eq_imp_distinct_iff)
  moreover have "set (node_timers w as) = set (node_timers w bs)" using set by (simp add: node_timers_def)
  ultimately show ?thesis using s unfolding subs_over_def nodes_at_def counted_def set cells by simp
qed

text \<open>Releasing all nodes gives back the store without the subscriptions; what stays are the callbacks in no list.\<close>

lemma subs_released:
  assumes s: "subs_over w0 w L as C" and f: "\<forall>c\<in>C. full w c"
  shows "\<exists>w'. destroy_nodes as w = Ok w' \<and> w_node w' = w_node w0 \<and> w_ends w' = w_ends w0 \<and> w_ll w' = w_ll w0 \<and>
           w_call w' |` (- (C - snd ` set (cells_of L as))) = w_call w0 \<and> (\<forall>c\<in>C - snd ` set (cells_of L as). w_call w' c \<noteq> None) \<and>
           w_chan w' |` (- (\<Union>c\<in>C - snd ` set (cells_of L as). set (chans w c))) = w_chan w0 \<and>
           w_hand w' = w_hand w \<and> w_next w' = w_next w \<and> w_bufs w' = w_bufs w \<and>
           w_trace w' = w_trace w @ map TimerStop (node_timers w as) \<and> w_reqs w' = rev (node_timers w as) @ w_reqs w"
proof -
  let ?A = "snd ` set (cells_of L as)"
  have n: "counted w C (cells_of L as @ [])" and at: "nodes_at w L as" and fresh: "world_fresh w"
    using s by (simp_all add: subs_over_def)
  have A: "?A \<subseteq> C" using n by (simp add: counted_def)
  have g: "gone (cells_of L as) [] = ?A" by (simp add: gone_def)
  have "x < w_next w" if "x \<in> fst ` set (cells_of L as)" for x
    using that at cells_lt [OF fresh] by (fastforce simp: cells_of_def nodes_at_def)
  then have "\<forall>x\<in>fst ` set (cells_of L as). x < w_next w" by blast
  moreover have "\<forall>c\<in>?A. full w c" using f A by blast
  ultimately obtain w' where w': "destroy_nodes as w = Ok w'" "freed w w' C (cells_of L as) []"
    "w_node w' = w_node w |` (- set as)" "w_ends w' = w_ends w |` (- Suc ` set as)"
    "w_trace w' = w_trace w @ map TimerStop (node_timers w as)" "w_reqs w' = rev (node_timers w as) @ w_reqs w"
    using destroy_nodes_counted [OF at n] by blast
  have call: "w_call w' c = (if c \<in> C then None else w_call w c)" if "c \<notin> C - ?A" for c
    using w'(2) that unfolding freed_def g by auto
  have kept: "w_call w' c \<noteq> None" if "c \<in> C - ?A" for c
  proof -
    have "map_option cb_channels (w_call w' c) = map_option cb_channels (w_call w c)" using w'(2) that unfolding freed_def g by auto
    moreover have "w_call w c \<noteq> None" using f that by (auto simp: full_def)
    ultimately show ?thesis by auto
  qed
  have "w_call w' |` (- (C - ?A)) = w_call w |` (- C)" using call A by (auto simp: restrict_map_def fun_eq_iff)
  moreover have "w_chan w' |` (- (\<Union>c\<in>C - ?A. set (chans w c))) = w_chan w |` (- (\<Union>c\<in>C. set (chans w c)))"
  proof -
    have "C = ?A \<union> (C - ?A)" using A by blast
    then have "(\<Union>c\<in>C. set (chans w c)) = (\<Union>c\<in>?A. set (chans w c)) \<union> (\<Union>c\<in>C - ?A. set (chans w c))"
      by (metis UN_Un)
    moreover have "w_chan w' = w_chan w |` (- (\<Union>c\<in>?A. set (chans w c)))" using w'(2) unfolding freed_def g by (elim conjE)
    ultimately show ?thesis by (simp only: restrict_restrict Compl_Un)
  qed
  ultimately show ?thesis
    using w' s kept unfolding subs_over_def freed_def by (intro exI [of _ w']) simp
qed

section \<open>The leaf of an insertion\<close>

text \<open>A known leaf and the same tree, or one new node.\<close>

lemma tree_insert_leaf:
  assumes "name_tree w t" and "grants_all env"
  shows "(\<exists>a\<in>set (nodes t). tree_insert env w t key = Ok (SNAIL_OK, t, Some a, w)) \<or>
         (\<exists>t'. tree_insert env w t key = Ok (SNAIL_OK, t', Some (w_next w),
             snd (snd (snd (new_node env w \<lparr>n_key = Some key, n_ikey = None, n_cb_list = None, n_data = None\<rparr> SNAIL_OK)))) \<and>
           mset (nodes t') = add_mset (w_next w) (mset (nodes t)))"
  using assms(1)
proof (induction t)
  case Tip
  with assms(2) show ?case by (simp add: new_node_def Let_def)
next
  case (Branch a l r)
  then obtain nd k where nd: "w_node w a = Some nd" "n_key nd = Some k" by auto
  let ?cmp = "c_strncmp key k (length key)"
  consider "?cmp < 0" | "0 < ?cmp" | "?cmp = 0" by linarith
  then show ?case
    by cases (use Branch nd in \<open>auto simp: Let_def\<close>)
qed

lemma insert_timer_leaf:
  assumes "timer_tree w t" and "grants_all env"
  shows "(\<exists>a\<in>set (nodes t). (\<exists>nd. w_node w a = Some nd \<and> n_ikey nd = Some key) \<and>
           insert_timer env w t key = Ok (SNAIL_OK, t, Some a, w)) \<or>
         (\<exists>t'. insert_timer env w t key = Ok (2, t', Some (w_next w),
             snd (snd (snd (new_node env w \<lparr>n_key = None, n_ikey = Some key, n_cb_list = None, n_data = None\<rparr> 2)))) \<and>
           mset (nodes t') = add_mset (w_next w) (mset (nodes t)))"
  using assms(1)
proof (induction t)
  case Tip
  with assms(2) show ?case by (simp add: new_node_def Let_def)
next
  case (Branch a l r)
  then obtain nd k where nd: "w_node w a = Some nd" "n_ikey nd = Some k" by auto
  consider "key < k" | "k < key" | "key = k" by linarith
  then show ?case
    by cases (use Branch nd in \<open>auto simp: never_written_def\<close>)
qed

end
