(* ===== verification/Snail_Subscribe.thy ===== *)
theory Snail_Subscribe
  imports Snail_Session Cb_Release
begin

text \<open>
  The subscriptions of a client: the trees of channels and patterns, the list of subscribers of
  every name, and what \<open>register_subscription\<close> does to them. A table \<open>T\<close> says for every channel
  (\<open>False\<close>) and pattern (\<open>True\<close>) where its list is and who is in it.
\<close>

section \<open>The tree finds or makes a leaf\<close>

lemma tree_insert_found:
  "name_tree w t \<Longrightarrow> tree_search w key t = Ok (Some (Suc a)) \<Longrightarrow> tree_insert env w t key = Ok (SNAIL_OK, t, Some a, w)"
proof (induction t)
  case (Branch b l r)
  then obtain nd k where "w_node w b = Some nd" "n_key nd = Some k" "n_cb_list nd = Some (Suc b)" by auto
  with Branch show ?case by (auto simp: Let_def split: if_splits)
qed simp

lemma tree_insert_new:
  assumes "name_tree w t" and "tree_search w key t = Flt AssertFail" and "grants_all env"
  shows "\<exists>t'. tree_insert env w t key = Ok (SNAIL_OK, t', Some (w_next w),
           snd (snd (snd (new_node env w \<lparr>n_key = Some key, n_ikey = None, n_cb_list = None, n_data = None\<rparr> SNAIL_OK))))"
  using assms(1,2)
proof (induction t)
  case Tip
  with assms(3) show ?case by (simp add: new_node_def Let_def)
next
  case (Branch b l r)
  then obtain nd k where nd: "w_node w b = Some nd" "n_key nd = Some k" by auto
  let ?cmp = "c_strncmp key k (length key)"
  consider (lt) "?cmp < 0" | (gt) "0 < ?cmp" | (eq) "?cmp = 0" by linarith
  then show ?case
  proof cases
    case lt
    with Branch nd obtain t' where "tree_insert env w l key = Ok (SNAIL_OK, t', Some (w_next w),
        snd (snd (snd (new_node env w \<lparr>n_key = Some key, n_ikey = None, n_cb_list = None, n_data = None\<rparr> SNAIL_OK))))"
      by (auto simp: Let_def)
    with lt nd show ?thesis by (simp add: Let_def)
  next
    case gt
    with Branch nd obtain t' where "tree_insert env w r key = Ok (SNAIL_OK, t', Some (w_next w),
        snd (snd (snd (new_node env w \<lparr>n_key = Some key, n_ikey = None, n_cb_list = None, n_data = None\<rparr> SNAIL_OK))))"
      by (auto simp: Let_def)
    with gt nd show ?thesis by (simp add: Let_def)
  next
    case eq
    with Branch nd show ?thesis by (simp add: Let_def)
  qed
qed

section \<open>The table of subscriptions\<close>

text \<open>
  A subscriber: its list cell, its callback and its channel (by address), the reference of its Lua
  function and whether the server has confirmed it.
\<close>

type_synonym subscriber = "nat \<times> nat \<times> nat \<times> int \<times> bool"
type_synonym table = "bool \<times> bytes \<Rightarrow> (nat \<times> subscriber list) option"

definition sub_cell :: "subscriber \<Rightarrow> nat \<times> nat" where
  "sub_cell = (\<lambda>(x, c, ch, r, act). (x, c))"

definition parts :: "subscriber \<Rightarrow> nat list" where
  "parts = (\<lambda>(x, c, ch, r, act). [x, c, ch])"

lemma parts_simps [simp]: "parts (x, c, ch, r, act) = [x, c, ch]" "sub_cell (x, c, ch, r, act) = (x, c)"
  by (simp_all add: parts_def sub_cell_def)

definition subscriber_at :: "world \<Rightarrow> bytes \<Rightarrow> subscriber \<Rightarrow> bool" where
  "subscriber_at w name = (\<lambda>(x, c, ch, r, act).
     (\<exists>b. w_call w c = Some b \<and> cb_ref b = r \<and> cb_nb_channel b = 1 \<and> cb_channels b = [Some ch] \<and>
        (if act then \<exists>f. cb_flags b = Some f \<and> has_flag f CALLBACK_INITIALIZED else cb_flags b = None)) \<and>
     w_chan w ch = Some \<lparr>ch_name = Some name, ch_ikey = 0, ch_flags = (if act then CHANNEL_SUBSCRIBED else 0)\<rparr>)"

definition list_at :: "world \<Rightarrow> bytes \<Rightarrow> nat \<Rightarrow> subscriber list \<Rightarrow> bool" where
  "list_at w name l ys \<longleftrightarrow> cells_at w l (map sub_cell ys) \<and> distinct (concat (map parts ys)) \<and>
     (\<forall>y\<in>set ys. subscriber_at w name y) \<and> ys \<noteq> []"

definition footprint :: "nat \<times> subscriber list \<Rightarrow> nat set" where
  "footprint = (\<lambda>(l, ys). insert l (set (concat (map parts ys))))"

definition cmd_footprint :: "nat \<Rightarrow> entry list \<Rightarrow> nat set" where
  "cmd_footprint e xs = insert e (set (concat (map (\<lambda>(x, c, r). [x, c]) xs)))"

definition tree_of :: "bool \<Rightarrow> snail \<Rightarrow> ctree" where
  "tree_of pv s = (if pv then cx_patterns (s_cx s) else cx_channels (s_cx s))"

text \<open>Every address is owned by one name, or by the list of commands.\<close>

definition apart :: "table \<Rightarrow> nat set \<Rightarrow> bool" where
  "apart T S \<longleftrightarrow> (\<exists>own. (\<forall>k v. T k = Some v \<longrightarrow> (\<forall>a\<in>footprint v. own a = Some k)) \<and> (\<forall>a\<in>S. own a = None))"

definition table_at :: "table \<Rightarrow> nat \<Rightarrow> entry list \<Rightarrow> snail \<Rightarrow> bool" where
  "table_at T e xs s \<longleftrightarrow>
     (\<forall>pv. name_tree (s_w s) (tree_of pv s) \<and> tree_keys (s_w s) (tree_of pv s) \<subseteq> {n. T (pv, n) \<noteq> None}) \<and>
     (\<forall>pv n l ys. T (pv, n) = Some (l, ys) \<longrightarrow>
        tree_search (s_w s) n (tree_of pv s) = Ok (Some l) \<and> list_at (s_w s) n l ys) \<and>
     apart T (cmd_footprint e xs)"

lemma table_atD:
  assumes "table_at T e xs s"
  shows "name_tree (s_w s) (tree_of pv s)" and "tree_keys (s_w s) (tree_of pv s) \<subseteq> {n. T (pv, n) \<noteq> None}"
    and "T (pv, n) = Some (l, ys) \<Longrightarrow> tree_search (s_w s) n (tree_of pv s) = Ok (Some l)"
    and "T (pv, n) = Some (l, ys) \<Longrightarrow> list_at (s_w s) n l ys" and "apart T (cmd_footprint e xs)"
  using assms unfolding table_at_def by blast+

section \<open>What leaves a table alone\<close>

definition agree :: "world \<Rightarrow> world \<Rightarrow> nat set \<Rightarrow> bool" where
  "agree w w' S \<longleftrightarrow> (\<forall>a\<in>S. w_ends w' a = w_ends w a \<and> w_ll w' a = w_ll w a \<and> w_call w' a = w_call w a \<and>
     w_chan w' a = w_chan w a)"

lemma agree_trans: "agree w w1 S \<Longrightarrow> agree w1 w2 S \<Longrightarrow> agree w w2 S"
  by (simp add: agree_def)

lemma list_at_agree:
  assumes "agree w w' (footprint (l, ys))"
  shows "list_at w' n l ys = list_at w n l ys"
proof -
  have "x \<in> footprint (l, ys)" if "x \<in> fst ` set (map sub_cell ys)" for x
    using that by (auto simp: footprint_def parts_def split_def intro!: bexI)
  then have "cells_at w' l (map sub_cell ys) = cells_at w l (map sub_cell ys)"
    using assms by (intro cells_at_cong) (auto simp: agree_def footprint_def)
  moreover have "subscriber_at w' n y = subscriber_at w n y" if "y \<in> set ys" for y
  proof -
    obtain x c ch r act where y: "y = (x, c, ch, r, act)" by (cases y)
    then have "c \<in> footprint (l, ys)" "ch \<in> footprint (l, ys)"
      using that by (force simp: footprint_def)+
    with assms show ?thesis by (simp add: y subscriber_at_def agree_def)
  qed
  ultimately show ?thesis by (simp add: list_at_def)
qed

lemma footprint_lt:
  assumes "list_at w n l ys" and "world_fresh w" and "a \<in> footprint (l, ys)"
  shows "a < w_next w"
proof -
  have "w_ends w l \<noteq> None" using assms(1) by (auto simp: list_at_def cells_at_def)
  moreover have "w_ll w x \<noteq> None \<and> w_call w c \<noteq> None \<and> w_chan w ch \<noteq> None" if "(x, c, ch, r, act) \<in> set ys" for x c ch r act
  proof -
    have "(x, c) \<in> set (map sub_cell ys)" using that by force
    then show ?thesis
      using assms(1) that chain_cell [of "w_ll w" _ "map sub_cell ys" x c]
      by (fastforce simp: list_at_def cells_at_def subscriber_at_def)
  qed
  ultimately show ?thesis
    using assms(2,3) by (fastforce simp: footprint_def world_fresh_def not_less [symmetric])
qed

lemma apart_more:
  assumes "apart T S" and "\<And>k v a. T k = Some v \<Longrightarrow> a \<in> footprint v \<Longrightarrow> a \<notin> N"
  shows "apart T (S \<union> N)"
proof -
  from assms(1) obtain own where "\<forall>k v. T k = Some v \<longrightarrow> (\<forall>a\<in>footprint v. own a = Some k)" "\<forall>a\<in>S. own a = None"
    by (auto simp: apart_def)
  with assms(2) show ?thesis
    unfolding apart_def by (intro exI [of _ "\<lambda>a. if a \<in> N then None else own a"]) fastforce
qed

lemma apart_less: "apart T S \<Longrightarrow> S' \<subseteq> S \<Longrightarrow> apart T S'"
  unfolding apart_def by blast

lemma tree_node_cong:
  assumes "w_node w' = w_node w"
  shows "name_tree w' t = name_tree w t" and "tree_keys w' t = tree_keys w t" and "tree_search w' k t = tree_search w k t"
  using assms by (induction t) (simp_all add: Let_def cong: if_cong)

lemma table_at_frame:
  assumes "table_at T e xs s" and "w_node (s_w s') = w_node (s_w s)"
    and "cx_channels (s_cx s') = cx_channels (s_cx s)" and "cx_patterns (s_cx s') = cx_patterns (s_cx s)"
    and "\<And>k v. T k = Some v \<Longrightarrow> agree (s_w s) (s_w s') (footprint v)" and "apart T (cmd_footprint e xs')"
  shows "table_at T e xs' s'"
proof -
  have tree: "tree_of pv s' = tree_of pv s" for pv using assms(3,4) by (simp add: tree_of_def)
  with tree_node_cong [OF assms(2)] assms(1,6) list_at_agree [OF assms(5)] show ?thesis
    unfolding table_at_def tree by auto
qed

section \<open>A new subscription\<close>

text \<open>
  The leaf of a name: the one it has, or a new one at the end of the store. A name that is a proper
  prefix of a subscribed one would be given the list of the longer name, so that is excluded.
\<close>

lemma leaf_for:
  assumes "name_tree w t" and "tree_keys w t \<subseteq> K" and "world_fresh w" and "grants_all env" and "NUL \<notin> set name"
    and pre: "\<And>n. n \<in> K \<Longrightarrow> prefix name n \<Longrightarrow> n = name"
    and found: "name \<in> K \<Longrightarrow> tree_search w name t = Ok (Some l0)"
  obtains t' a l w' nd where "tree_insert env w t name = Ok (SNAIL_OK, t', Some a, w')"
    and "name_inserted w t name (SNAIL_OK, t', Some a, w')" and "w_node w' a = Some nd" and "n_cb_list nd = Some l"
    and "tree_search w' name t' = Ok (Some l)" and "name \<in> K \<Longrightarrow> l = l0 \<and> w' = w"
    and "name \<notin> K \<Longrightarrow> w_next w \<le> l \<and> w_ends w' l = Some \<lparr>e_head = None, e_tail = None\<rparr>"
    and "\<And>b. b \<noteq> l \<Longrightarrow> w_ends w' b = w_ends w b"
proof -
  obtain t' a w' where ins: "tree_insert env w t name = Ok (SNAIL_OK, t', Some a, w')"
    and ni: "name_inserted w t name (SNAIL_OK, t', Some a, w')"
    using tree_insert_ok [OF assms(1,3,4), of name] by (auto simp: runs_iff name_inserted_def)
  from ni obtain nd where nd: "w_node w' a = Some nd" "n_cb_list nd = Some (Suc a)" "tree_search w' name t' = Ok (Some (Suc a))"
    by (auto simp: name_inserted_def)
  have old: "Suc a = l0 \<and> w' = w" if "name \<in> K"
  proof -
    from tree_search_prefix [OF assms(1,5) found [OF that]] obtain b where b: "l0 = Suc b" by auto
    with tree_insert_found [OF assms(1), of name b env] found [OF that] ins show ?thesis by auto
  qed
  have new: "w_next w \<le> Suc a \<and> w_ends w' (Suc a) = Some \<lparr>e_head = None, e_tail = None\<rparr> \<and>
      (\<forall>b. b \<noteq> Suc a \<longrightarrow> w_ends w' b = w_ends w b)" if "name \<notin> K"
  proof -
    have "tree_search w name t = Flt AssertFail"
      using tree_search_cases [OF assms(1), of name] tree_search_prefix [OF assms(1,5)] assms(2) pre that by blast
    from tree_insert_new [OF assms(1) this assms(4)] ins assms(4) show ?thesis
      by (auto simp: new_node_def Let_def put_defs)
  qed
  show thesis using that [OF ins ni nd(1,2,3)] old new by blast
qed

lemma cmd_footprint_lt:
  assumes "cb_queue w e xs" and "a \<in> cmd_footprint e xs"
  shows "a < w_next w"
proof -
  have "w_ends w e \<noteq> None" using assms(1) by (auto simp: cb_queue_def)
  then have "e < w_next w" using assms(1) by (auto simp: cb_queue_def world_fresh_def not_less [symmetric])
  with assms(2) cb_queue_cell(3,4) [OF assms(1)] show ?thesis by (auto simp: cmd_footprint_def)
qed

lemma cb_queue_agree:
  assumes "cb_queue w e xs" and "agree w w' (cmd_footprint e xs)" and "world_fresh w'"
  shows "cb_queue w' e xs"
proof -
  have c: "x \<in> cmd_footprint e xs" "c \<in> cmd_footprint e xs" if "(x, c, r) \<in> set xs" for x c r
    using that by (force simp: cmd_footprint_def)+
  have "chain (w_ll w') h (map cell_of xs) = chain (w_ll w) h (map cell_of xs)" for h
    by (rule chain_cong) (use c(1) assms(2) in \<open>auto simp: agree_def\<close>)
  moreover have "w_ends w' e = w_ends w e" using assms(2) by (simp add: agree_def cmd_footprint_def)
  moreover have "\<forall>(x, c, r)\<in>set xs. w_call w' c = Some (command_cb r)"
    using c(2) assms(1,2) by (fastforce simp: cb_queue_def agree_def)
  ultimately show ?thesis using assms(1,3) by (simp add: cb_queue_def)
qed

lemma apart_upd:
  assumes "apart T S" and "S \<inter> N = {}" and "\<And>k' v a. T k' = Some v \<Longrightarrow> a \<in> footprint v \<Longrightarrow> a \<notin> N"
    and "footprint v \<subseteq> (case T k of None \<Rightarrow> {} | Some v' \<Rightarrow> footprint v') \<union> N"
  shows "apart (T(k \<mapsto> v)) S"
proof -
  from assms(1) obtain own where own: "\<And>k v a. T k = Some v \<Longrightarrow> a \<in> footprint v \<Longrightarrow> own a = Some k" "\<And>a. a \<in> S \<Longrightarrow> own a = None"
    unfolding apart_def by blast
  show ?thesis
    unfolding apart_def
  proof (intro exI [of _ "\<lambda>a. if a \<in> N then Some k else own a"] conjI allI impI ballI)
    fix k' v' a
    assume "(T(k \<mapsto> v)) k' = Some v'" "a \<in> footprint v'"
    then have "a \<in> N \<and> k' = k \<or> (\<exists>v'. T k' = Some v' \<and> a \<in> footprint v' \<and> a \<notin> N)"
    proof (cases "k' = k")
      case True
      then show ?thesis using \<open>(T(k \<mapsto> v)) k' = Some v'\<close> \<open>a \<in> footprint v'\<close> assms(4) by (cases "T k") auto
    next
      case False
      then have "T k' = Some v'" using \<open>(T(k \<mapsto> v)) k' = Some v'\<close> by simp
      with assms(3) \<open>a \<in> footprint v'\<close> show ?thesis by blast
    qed
    then show "(if a \<in> N then Some k else own a) = Some k'" using own(1) by metis
  next
    fix a assume "a \<in> S"
    with assms(2) own(2) show "(if a \<in> N then Some k else own a) = None" by auto
  qed
qed

definition old_subs :: "table \<Rightarrow> bool \<times> bytes \<Rightarrow> subscriber list" where
  "old_subs T k = (case T k of None \<Rightarrow> [] | Some (l, ys) \<Rightarrow> ys)"

definition old_part :: "table \<Rightarrow> bool \<times> bytes \<Rightarrow> nat set" where
  "old_part T k = (case T k of None \<Rightarrow> {} | Some v \<Rightarrow> footprint v)"

lemma old_part_apart:
  assumes "apart T S"
  shows "a \<in> S \<Longrightarrow> a \<notin> old_part T k" and "T k' = Some v \<Longrightarrow> k' \<noteq> k \<Longrightarrow> a \<in> footprint v \<Longrightarrow> a \<notin> old_part T k"
proof -
  from assms obtain own where own: "\<And>k v a. T k = Some v \<Longrightarrow> a \<in> footprint v \<Longrightarrow> own a = Some k" "\<And>a. a \<in> S \<Longrightarrow> own a = None"
    unfolding apart_def by blast
  have old: "own a = Some k" if "a \<in> old_part T k" for a
    using that own(1) [of k] unfolding old_part_def by (cases "T k") simp_all
  show "a \<in> S \<Longrightarrow> a \<notin> old_part T k" using own(2) [of a] old [of a] by fastforce
  show "T k' = Some v \<Longrightarrow> k' \<noteq> k \<Longrightarrow> a \<in> footprint v \<Longrightarrow> a \<notin> old_part T k"
    using own(1) [of k' v a] old [of a] by fastforce
qed

lemma table_lt:
  assumes "table_at T e xs s" and "world_fresh (s_w s)"
  shows "T k = Some v \<Longrightarrow> a \<in> footprint v \<Longrightarrow> a < w_next (s_w s)" and "a \<in> old_part T k \<Longrightarrow> a < w_next (s_w s)"
proof -
  show lt: "a < w_next (s_w s)" if "T k = Some v" "a \<in> footprint v" for k v
    using footprint_lt [OF table_atD(4) [OF assms(1)] assms(2)] that by (cases k; cases v) blast
  show "a \<in> old_part T k \<Longrightarrow> a < w_next (s_w s)" using lt [of k] unfolding old_part_def by (cases "T k") auto
qed

lemma old_subs_at:
  assumes "table_at T e xs s"
  shows "distinct (concat (map parts (old_subs T (pv, n))))" and "y \<in> set (old_subs T (pv, n)) \<Longrightarrow> subscriber_at (s_w s) n y"
    and "y \<in> set (old_subs T (pv, n)) \<Longrightarrow> set (parts y) \<subseteq> old_part T (pv, n)"
  using table_atD(4) [OF assms, of pv n]
  by (cases "T (pv, n)"; force simp: old_subs_def old_part_def footprint_def list_at_def)+

text \<open>The store with the callback and the channel of a new subscriber.\<close>

definition prepared :: "world \<Rightarrow> bytes \<Rightarrow> int \<Rightarrow> world" where
  "prepared w name ref =
     w\<lparr>w_next := Suc (Suc (w_next w)),
       w_call := (w_call w)(w_next w \<mapsto> \<lparr>cb_ref = ref, cb_flags = None, cb_nb_channel = 1, cb_attach = 0,
                              cb_channels = [Some (Suc (w_next w))]\<rparr>),
       w_chan := (w_chan w)(Suc (w_next w) \<mapsto> \<lparr>ch_name = Some name, ch_ikey = 0, ch_flags = 0\<rparr>)\<rparr>"

lemma prepared_simps [simp]:
  "w_next (prepared w name ref) = Suc (Suc (w_next w))" "w_ll (prepared w name ref) = w_ll w"
  "w_ends (prepared w name ref) = w_ends w" "w_node (prepared w name ref) = w_node w"
  "w_hand (prepared w name ref) = w_hand w" "w_reqs (prepared w name ref) = w_reqs w"
  "w_trace (prepared w name ref) = w_trace w"
  by (simp_all add: prepared_def)

lemma prepared_fresh: "world_fresh w \<Longrightarrow> world_fresh (prepared w name ref)"
  by (auto simp: world_fresh_def prepared_def less_SucI)

lemma prepared_tree [simp]:
  "name_tree (prepared w name ref) t = name_tree w t" "tree_keys (prepared w name ref) t = tree_keys w t"
  "tree_search (prepared w name ref) k t = tree_search w k t"
  by (rule tree_node_cong, simp)+

text \<open>The leaf \<open>a\<close> of the name, in the tree \<open>t'\<close>, with its list \<open>l\<close>.\<close>

definition leaf_at :: "table \<Rightarrow> bool \<times> bytes \<Rightarrow> world \<Rightarrow> ctree \<Rightarrow> ctree \<Rightarrow> nat \<Rightarrow> nat \<Rightarrow> world \<Rightarrow> bool" where
  "leaf_at T k w t t' a l w' \<longleftrightarrow>
     name_inserted w t (snd k) (SNAIL_OK, t', Some a, w') \<and> (\<exists>nd. w_node w' a = Some nd \<and> n_cb_list nd = Some l) \<and>
     tree_search w' (snd k) t' = Ok (Some l) \<and> cells_at w' l (map sub_cell (old_subs T k)) \<and>
     l \<in> old_part T k \<union> {b. w_next w \<le> b} \<and> (\<forall>b. b \<noteq> l \<longrightarrow> w_ends w' b = w_ends w b)"

lemma leaf_prepared:
  assumes T: "table_at T e xs s" and "world_fresh (s_w s)" and "grants_all env" and "NUL \<notin> set name"
    and pre: "\<And>n. T (pv, n) \<noteq> None \<Longrightarrow> prefix name n \<Longrightarrow> n = name"
  shows "\<exists>t' a l w'. tree_insert env (prepared (s_w s) name ref) (tree_of pv s) name = Ok (SNAIL_OK, t', Some a, w') \<and>
           leaf_at T (pv, name) (prepared (s_w s) name ref) (tree_of pv s) t' a l w'"
proof -
  let ?w = "prepared (s_w s) name ref" and ?K = "{n. T (pv, n) \<noteq> None}" and ?old = "old_subs T (pv, name)"
  obtain l0 where l0: "T (pv, name) \<noteq> None \<Longrightarrow> T (pv, name) = Some (l0, ?old)"
    by (cases "T (pv, name)") (auto simp: old_subs_def)
  have p1: "name_tree ?w (tree_of pv s)" "tree_keys ?w (tree_of pv s) \<subseteq> ?K"
    using table_atD(1,2) [OF T, of pv] by simp_all
  have p2: "n = name" if "n \<in> ?K" "prefix name n" for n using pre that by simp
  have p3: "tree_search ?w name (tree_of pv s) = Ok (Some l0)" if "name \<in> ?K"
    using table_atD(3) [OF T l0] that by simp
  obtain t' a l w' nd where ins: "tree_insert env ?w (tree_of pv s) name = Ok (SNAIL_OK, t', Some a, w')"
    and ni: "name_inserted ?w (tree_of pv s) name (SNAIL_OK, t', Some a, w')" and nd: "w_node w' a = Some nd" "n_cb_list nd = Some l"
    and found: "tree_search w' name t' = Ok (Some l)" and old: "name \<in> ?K \<Longrightarrow> l = l0 \<and> w' = ?w"
    and new: "name \<notin> ?K \<Longrightarrow> w_next ?w \<le> l \<and> w_ends w' l = Some \<lparr>e_head = None, e_tail = None\<rparr>"
    and ends: "\<And>b. b \<noteq> l \<Longrightarrow> w_ends w' b = w_ends ?w b"
    by (rule leaf_for [OF p1 prepared_fresh [OF assms(2)] assms(3,4) p2 p3]) simp_all
  have "cells_at w' l (map sub_cell ?old) \<and> l \<in> old_part T (pv, name) \<union> {b. w_next ?w \<le> b}"
  proof (cases "T (pv, name)")
    case None
    with new show ?thesis by (simp add: cells_at_def old_subs_def)
  next
    case (Some v)
    with l0 old have eq: "T (pv, name) = Some (l, ?old)" and w': "w' = ?w" by auto
    from table_atD(4) [OF T eq] have "cells_at (s_w s) l (map sub_cell ?old)" by (simp add: list_at_def)
    then have "cells_at w' l (map sub_cell ?old)" unfolding w' by (subst cells_at_cong [of _ _ "s_w s"]) auto
    with eq show ?thesis by (simp add: old_part_def footprint_def)
  qed
  with ins ni nd found ends show ?thesis unfolding leaf_at_def by fastforce
qed

text \<open>
  The store with the new subscriber in its list: whatever lies outside the old list and the new
  addresses is as it was.
\<close>

definition extended :: "table \<Rightarrow> bool \<times> bytes \<Rightarrow> int \<Rightarrow> world \<Rightarrow> world \<Rightarrow> nat \<Rightarrow> nat \<Rightarrow> world \<Rightarrow> bool" where
  "extended T k ref w w4 l x w' \<longleftrightarrow>
     world_fresh w' \<and> (\<forall>S. (\<forall>b\<in>S. b < w_next w \<and> b \<notin> old_part T k) \<longrightarrow> agree w w' S) \<and>
     cells_at w' l (map sub_cell (old_subs T k) @ [(x, w_next w)]) \<and>
     w_call w' = (w_call w)(w_next w \<mapsto> \<lparr>cb_ref = ref, cb_flags = None, cb_nb_channel = 1, cb_attach = 1,
       cb_channels = [Some (Suc (w_next w))]\<rparr>) \<and>
     w_chan w' = (w_chan w)(Suc (w_next w) \<mapsto> \<lparr>ch_name = Some (snd k), ch_ikey = 0, ch_flags = 0\<rparr>) \<and>
     w_node w' = w_node w4 \<and> w_hand w' = w_hand w \<and> w_trace w' = w_trace w"

lemma extended_frame:
  assumes l: "leaf_at T k (prepared w (snd k) ref) t t' a l w4" and old: "\<And>b. b \<in> old_part T k \<Longrightarrow> b < w_next w"
    and oldp: "fst ` set (map sub_cell (old_subs T k)) \<subseteq> old_part T k"
    and w6: "\<And>y. y \<notin> fst ` set (map sub_cell (old_subs T k)) \<Longrightarrow> y \<noteq> w_next w4 \<Longrightarrow> w_ll w6 y = w_ll w4 y"
    "\<And>b. b \<noteq> l \<Longrightarrow> w_ends w6 b = w_ends w4 b"
    "\<And>b. b \<noteq> w_next w \<Longrightarrow> w_call w6 b = w_call w4 b" "w_chan w6 = w_chan w4"
    and S: "\<And>b. b \<in> S \<Longrightarrow> b < w_next w \<and> b \<notin> old_part T k"
  shows "agree w w6 S"
  unfolding agree_def
proof (intro ballI conjI)
  have g: "grows (prepared w (snd k) ref) w4" using l by (simp add: leaf_at_def name_inserted_def)
  fix b assume "b \<in> S"
  then have b: "b < w_next w" "b \<notin> old_part T k" using S by blast+
  have "b \<noteq> l" using b l by (auto simp: leaf_at_def)
  with l show "w_ends w6 b = w_ends w b" by (simp add: leaf_at_def w6)
  have "b \<notin> fst ` set (map sub_cell (old_subs T k))" using b(2) oldp by blast
  moreover have "b \<noteq> w_next w4" using b(1) g by (simp add: grows_def)
  ultimately show "w_ll w6 b = w_ll w b" using w6(1) g by (simp add: grows_def)
  show "w_call w6 b = w_call w b" "w_chan w6 b = w_chan w b"
    using b(1) g w6(3,4) by (simp_all add: grows_def prepared_def)
qed

lemma attach_extended:
  assumes fresh: "world_fresh w" and env: "grants_all env" and l: "leaf_at T k (prepared w (snd k) ref) t t' a l w4"
    and old: "\<And>b. b \<in> old_part T k \<Longrightarrow> b < w_next w"
    and oldp: "\<And>y. y \<in> set (old_subs T k) \<Longrightarrow> set (parts y) \<subseteq> old_part T k"
  shows "\<exists>w'. attach_callback env w4 (w_next w) (Some a) = Ok w' \<and> extended T k ref w w4 l (w_next w4) w' \<and> w_next w < w_next w4"
proof -
  let ?w3 = "prepared w (snd k) ref" and ?x = "w_next w4" and ?c = "w_next w"
  let ?w5 = "w4\<lparr>w_next := Suc ?x, w_ll := (w_ll w4)(?x \<mapsto> \<lparr>ll_cb = ?c, ll_next = None\<rparr>)\<rparr>"
  let ?xs = "fst ` set (map sub_cell (old_subs T k))"
  obtain nd where nd: "w_node w4 a = Some nd" "n_cb_list nd = Some l" and cells4: "cells_at w4 l (map sub_cell (old_subs T k))"
    and g: "grows ?w3 w4" and fresh4: "world_fresh w4"
    using l by (auto simp: leaf_at_def name_inserted_def)
  have xs: "?xs \<subseteq> old_part T k" using oldp by fastforce
  have next4: "Suc (Suc ?c) \<le> ?x" using g by (simp add: grows_def)
  have x: "?x \<notin> ?xs" using xs old next4 by fastforce
  have "w_ll ?w5 y = w_ll w4 y" if "y \<in> ?xs" for y
    using that x by (cases "y = ?x") (simp_all del: set_map)
  with cells4 have cells5: "cells_at ?w5 l (map sub_cell (old_subs T k))" by (subst cells_at_cong [of _ _ w4]) simp_all
  let ?b = "\<lparr>cb_ref = ref, cb_flags = None, cb_nb_channel = 1, cb_attach = 0, cb_channels = [Some (Suc ?c)]\<rparr>"
  have call: "w_call ?w5 ?c = Some ?b" using g by (simp add: grows_def prepared_def)
  obtain w6 where push: "push_cb ?w5 (Some l) (Some ?x) = Ok w6"
    and w6: "cells_at w6 l (map sub_cell (old_subs T k) @ [(?x, ?c)])" "w_call w6 = (w_call ?w5)(?c \<mapsto> ?b\<lparr>cb_attach := 1\<rparr>)"
      "\<And>y. y \<notin> ?xs \<Longrightarrow> w_ll w6 y = w_ll ?w5 y" "dom (w_ll w6) = dom (w_ll ?w5)"
      "\<And>k. k \<noteq> l \<Longrightarrow> w_ends w6 k = w_ends ?w5 k" "dom (w_ends w6) = dom (w_ends ?w5)"
    and same: "same_rest ?w5 w6" and next6: "w_next w6 = w_next ?w5"
    using push_cb_cells [OF cells5, of ?x ?c ?b] x call by auto
  have rest: "w_chan w6 = w_chan w4" "w_node w6 = w_node w4" "w_hand w6 = w_hand w4" "w_trace w6 = w_trace w4" "w_reqs w6 = w_reqs w4"
    using same by (simp_all add: same_rest_def)
  have "w_call w6 b = w_call w4 b" if "b \<noteq> ?c" for b using that w6(2) by simp
  with w6 rest(1) have ag: "agree w w6 S" if "\<forall>b\<in>S. b < w_next w \<and> b \<notin> old_part T k" for S
    using that by (intro extended_frame [OF l old xs]) auto
  have "world_fresh w6"
    unfolding world_fresh_def
  proof (intro conjI allI impI ballI)
    fix b assume "w_next w6 \<le> b"
    then have b: "Suc ?x \<le> b" "?x \<le> b" "b \<noteq> ?c" using next6 next4 by simp_all
    have n: "w_chan w4 b = None" "w_call w4 b = None" "w_ll w4 b = None" "w_ends w4 b = None" "w_node w4 b = None" "w_hand w4 b = None"
      using fresh4 b(2) unfolding world_fresh_def by blast+
    show "w_chan w6 b = None" "w_node w6 b = None" "w_hand w6 b = None" using n rest by simp_all
    show "w_call w6 b = None" using n(2) b(3) by (simp add: w6(2))
    have "b \<notin> dom (w_ll ?w5)" "b \<notin> dom (w_ends ?w5)" using n b(1) by auto
    then show "w_ll w6 b = None" "w_ends w6 b = None" using w6(4,6) by blast+
  next
    fix b assume "b \<in> set (w_reqs w6)"
    then show "b < w_next w6" using fresh4 next6 unfolding world_fresh_def rest(5) by fastforce
  qed
  with w6 rest g ag have "extended T k ref w w4 l ?x w6"
    by (auto simp: extended_def grows_def prepared_def)
  moreover have "attach_callback env w4 ?c (Some a) = Ok w6"
    using push nd env by (simp add: attach_callback_def wrap_cb_def put_defs)
  ultimately show ?thesis using next4 by auto
qed

lemma extended_list:
  assumes ex: "extended T k ref w w4 l x w'" and "w_next w < x"
    and old: "\<And>b. b \<in> old_part T k \<Longrightarrow> b < w_next w" "distinct (concat (map parts (old_subs T k)))"
    "\<And>y. y \<in> set (old_subs T k) \<Longrightarrow> subscriber_at w (snd k) y"
    "\<And>y. y \<in> set (old_subs T k) \<Longrightarrow> set (parts y) \<subseteq> old_part T k" and x: "x \<noteq> Suc (w_next w)"
  shows "list_at w' (snd k) l (old_subs T k @ [(x, w_next w, Suc (w_next w), ref, False)])"
proof -
  let ?y = "(x, w_next w, Suc (w_next w), ref, False)"
  have new: "distinct (parts ?y)" "set (parts ?y) \<inter> old_part T k = {}"
    using assms(2) old(1) x by fastforce+
  moreover have "set (concat (map parts (old_subs T k))) \<subseteq> old_part T k" using old(4) by auto
  ultimately have "distinct (concat (map parts (old_subs T k @ [?y])))" using old(2) by auto
  moreover have "subscriber_at w' (snd k) y" if "y \<in> set (old_subs T k)" for y
  proof -
    obtain x c ch r act where y: "y = (x, c, ch, r, act)" by (cases y)
    have "c < w_next w" "ch < w_next w" using old(1,4) that by (fastforce simp: y)+
    with old(3) [OF that] ex show ?thesis by (auto simp: y subscriber_at_def extended_def)
  qed
  moreover have "subscriber_at w' (snd k) ?y" using ex by (simp add: subscriber_at_def extended_def)
  ultimately show ?thesis using ex by (auto simp: list_at_def extended_def)
qed

lemma extended_table:
  assumes T: "table_at T e xs s" and fresh: "world_fresh (s_w s)" and q: "cb_queue (s_w s) e xs"
    and leaf: "leaf_at T (pv, n) (prepared (s_w s) n ref) (tree_of pv s) t' a l w4"
    and ex: "extended T (pv, n) ref (s_w s) w4 l x w6" and lt: "w_next (s_w s) < x" "x \<noteq> Suc (w_next (s_w s))"
    and s': "s_w s' = w6" "tree_of pv s' = t'" "tree_of (\<not> pv) s' = tree_of (\<not> pv) s"
  shows "table_at (T((pv, n) \<mapsto> (l, old_subs T (pv, n) @ [(x, w_next (s_w s), Suc (w_next (s_w s)), ref, False)]))) e xs s'"
    (is "table_at ?T e xs s'")
proof -
  let ?w = "s_w s" and ?k = "(pv, n)"
  have ni: "name_inserted (prepared ?w n ref) (tree_of pv s) n (SNAIL_OK, t', Some a, w4)"
    and found: "tree_search w4 n t' = Ok (Some l)" using leaf by (simp_all add: leaf_at_def)
  then have grows: "grows (prepared ?w n ref) w4" by (simp add: name_inserted_def)
  have nodes: "w_node w6 = w_node w4" using ex by (simp add: extended_def)
  note cong = tree_node_cong [OF nodes]
  have list: "list_at w6 n l (old_subs T ?k @ [(x, w_next ?w, Suc (w_next ?w), ref, False)])"
    using extended_list [OF ex lt(1) table_lt(2) [OF T fresh] old_subs_at [OF T] lt(2)] by simp
  have other: "name_tree w6 t \<and> tree_keys w6 t = tree_keys ?w t \<and> tree_search w6 m t = tree_search ?w m t"
    if "name_tree ?w t" for t m
    using name_tree_grows [OF _ grows, of t] tree_keys_grows [OF _ grows, of t] tree_search_grows [OF _ grows, of t] that
    by (simp add: cong)
  have trees: "name_tree w6 (tree_of p s') \<and> tree_keys w6 (tree_of p s') \<subseteq> {m. ?T (p, m) \<noteq> None}" for p
  proof (cases "p = pv")
    case True
    with ni table_atD(2) [OF T, of pv] show ?thesis by (auto simp: s' cong name_inserted_def)
  next
    case False
    then have "p = (\<not> pv)" by auto
    with other [OF table_atD(1) [OF T, of p]] table_atD(2) [OF T, of p] show ?thesis by (auto simp: s')
  qed
  have lists: "tree_search w6 m (tree_of p s') = Ok (Some l') \<and> list_at w6 m l' ys" if T': "?T (p, m) = Some (l', ys)" for p m l' ys
  proof (cases "(p, m) = ?k")
    case True
    with T' found list show ?thesis by (auto simp: s' cong)
  next
    case False
    with T' have T0: "T (p, m) = Some (l', ys)" by (simp split: if_splits)
    have "\<forall>b\<in>footprint (l', ys). b < w_next ?w \<and> b \<notin> old_part T ?k"
      using table_lt(1) [OF T fresh T0] old_part_apart(2) [OF table_atD(5) [OF T] T0 False] by blast
    then have "agree ?w w6 (footprint (l', ys))" using ex by (simp add: extended_def)
    then have "list_at w6 m l' ys" using list_at_agree table_atD(4) [OF T T0] by blast
    moreover have "tree_search w6 m (tree_of p s') = Ok (Some l')"
    proof (cases "p = pv")
      case True
      with ni table_atD(3) [OF T T0] show ?thesis by (auto simp: s' cong name_inserted_def)
    next
      case False
      then have "p = (\<not> pv)" by auto
      with table_atD(3) [OF T T0] other [OF table_atD(1) [OF T, of p]] show ?thesis by (simp add: s')
    qed
    ultimately show ?thesis by simp
  qed
  have "apart ?T (cmd_footprint e xs)"
  proof (rule apart_upd [OF table_atD(5) [OF T], of "{b. w_next ?w \<le> b}"])
    show "cmd_footprint e xs \<inter> {b. w_next ?w \<le> b} = {}" using cmd_footprint_lt [OF q] by fastforce
    show "b \<notin> {b. w_next ?w \<le> b}" if "T k' = Some v" "b \<in> footprint v" for k' v b
      using table_lt(1) [OF T fresh that] by simp
    have "set (concat (map parts (old_subs T ?k))) \<subseteq> old_part T ?k" using old_subs_at(3) [OF T, of _ pv n] by fastforce
    moreover have "l \<in> old_part T ?k \<union> {b. w_next ?w \<le> b}" using leaf by (auto simp: leaf_at_def)
    ultimately have "footprint (l, old_subs T ?k @ [(x, w_next ?w, Suc (w_next ?w), ref, False)]) \<subseteq> old_part T ?k \<union> {b. w_next ?w \<le> b}"
      using lt(1) by (auto simp: footprint_def)
    then show "footprint (l, old_subs T ?k @ [(x, w_next ?w, Suc (w_next ?w), ref, False)]) \<subseteq>
        (case T ?k of None \<Rightarrow> {} | Some v' \<Rightarrow> footprint v') \<union> {b. w_next ?w \<le> b}"
      by (simp only: old_part_def)
  qed
  with trees lists show ?thesis unfolding table_at_def s'(1) by blast
qed

lemma register_runs:
  assumes env: "grants_all env" and "NUL \<notin> set name"
    and ins: "tree_insert env (prepared (s_w s) name ref) (tree_of pv s) name = Ok (SNAIL_OK, t', Some a, w4)"
    and att: "attach_callback env w4 (w_next (s_w s)) (Some a) = Ok w6"
  shows "register_subscription env pv ref [name] [] s =
    Ok (upd_cx (s\<lparr>s_w := w6\<rparr>) (\<lambda>cx. if pv then cx\<lparr>cx_patterns := t'\<rparr> else cx\<lparr>cx_channels := t'\<rparr>))"
proof -
  let ?w = "s_w s" let ?c = "w_next ?w" let ?ch = "Suc ?c"
  have name: "before_NUL name = name" using assms(2) by (auto simp: before_NUL_def takeWhile_eq_all_conv)
  let ?w1 = "put_call (bump ?w) ?c \<lparr>cb_ref = ref, cb_flags = None, cb_nb_channel = 1, cb_attach = 0, cb_channels = [None]\<rparr>"
  let ?w2 = "put_chan (bump ?w1) ?ch \<lparr>ch_name = Some name, ch_ikey = 0, ch_flags = 0\<rparr>"
  have "create_callback env ?w ref 1 = (SNAIL_OK, Some ?c, ?w1)"
    using env by (simp add: create_callback_def Let_def)
  moreover have "create_channel env ?w1 name = (SNAIL_OK, Some ?ch, ?w2)"
    using env by (simp add: create_channel_def Let_def put_defs)
  moreover have "set_channel ?w2 ?c 0 (Some ?ch) = Ok (prepared ?w name ref)"
    by (auto simp: set_channel_def put_defs prepared_def intro!: world.equality)
  moreover have "tree_insert env (prepared ?w name ref) (if pv then cx_patterns (s_cx s) else cx_channels (s_cx s)) name =
      Ok (SNAIL_OK, t', Some a, w4)"
    using ins by (simp add: tree_of_def)
  ultimately show ?thesis
    using att by (cases pv) (simp_all add: register_subscription_def subscribe_channel_def name)
qed

text \<open>What a subscription leaves: the new subscriber at the end of the list of its name.\<close>

definition subscribed :: "table \<Rightarrow> bool \<times> bytes \<Rightarrow> int \<Rightarrow> table \<Rightarrow> bool" where
  "subscribed T k ref T' \<longleftrightarrow> (\<exists>l x c ch. T' = T(k \<mapsto> (l, old_subs T k @ [(x, c, ch, ref, False)])))"

text \<open>The context after a subscription differs in one tree only.\<close>

definition same_context :: "snail \<Rightarrow> snail \<Rightarrow> bool" where
  "same_context s s' \<longleftrightarrow> (\<exists>c p. s_cx s' = (s_cx s)\<lparr>cx_channels := c, cx_patterns := p\<rparr>)"

lemma register_one:
  assumes at: "client_at h fs ty u e xs s" and T: "table_at T e xs s" and env: "grants_all env" and "NUL \<notin> set name"
    and pre: "\<And>n. T (pv, n) \<noteq> None \<Longrightarrow> prefix name n \<Longrightarrow> n = name"
  shows "runs (register_subscription env pv ref [name] [] s) (\<lambda>s'. \<exists>T'. subscribed T (pv, name) ref T' \<and> table_at T' e xs s' \<and>
           client_at h fs ty u e xs s' \<and> same_context s s' \<and> w_hand (s_w s') = w_hand (s_w s) \<and> w_trace (s_w s') = w_trace (s_w s))"
proof -
  have q: "cb_queue (s_w s) e xs" using at by (simp add: client_at_def)
  then have fresh: "world_fresh (s_w s)" by (simp add: cb_queue_def)
  obtain t' a l w4 where ins: "tree_insert env (prepared (s_w s) name ref) (tree_of pv s) name = Ok (SNAIL_OK, t', Some a, w4)"
    and leaf: "leaf_at T (pv, name) (prepared (s_w s) name ref) (tree_of pv s) t' a l w4"
    using leaf_prepared [OF T fresh env assms(4) pre] by blast
  have "\<exists>w'. attach_callback env w4 (w_next (s_w s)) (Some a) = Ok w' \<and>
      extended T (pv, name) ref (s_w s) w4 l (w_next w4) w' \<and> w_next (s_w s) < w_next w4"
    using leaf table_lt(2) [OF T fresh] old_subs_at(3) [OF T] by (intro attach_extended [OF fresh env]) auto
  then obtain w6 where att: "attach_callback env w4 (w_next (s_w s)) (Some a) = Ok w6"
    and ex: "extended T (pv, name) ref (s_w s) w4 l (w_next w4) w6" and lt: "w_next (s_w s) < w_next w4" by blast
  have lt': "w_next w4 \<noteq> Suc (w_next (s_w s))" using leaf by (auto simp: leaf_at_def name_inserted_def grows_def)
  let ?s' = "upd_cx (s\<lparr>s_w := w6\<rparr>) (\<lambda>cx. if pv then cx\<lparr>cx_patterns := t'\<rparr> else cx\<lparr>cx_channels := t'\<rparr>)"
  have tr: "tree_of pv ?s' = t'" "tree_of (\<not> pv) ?s' = tree_of (\<not> pv) s" by (cases pv; simp add: tree_of_def)+
  have tab: "table_at (T((pv, name) \<mapsto> (l, old_subs T (pv, name) @ [(w_next w4, w_next (s_w s), Suc (w_next (s_w s)), ref, False)]))) e xs ?s'"
    by (rule extended_table [OF T fresh q leaf ex lt lt' _ tr]) simp
  have w6: "world_fresh w6" "w_hand w6 = w_hand (s_w s)" "w_trace w6 = w_trace (s_w s)" using ex by (simp_all add: extended_def)
  have "\<forall>b\<in>cmd_footprint e xs. b < w_next (s_w s) \<and> b \<notin> old_part T (pv, name)"
    using cmd_footprint_lt [OF q] old_part_apart(1) [OF table_atD(5) [OF T]] by blast
  then have "agree (s_w s) w6 (cmd_footprint e xs)" using ex by (simp add: extended_def)
  from cb_queue_agree [OF q this w6(1)] have "client_at h fs ty u e xs ?s'"
    using at w6(2) by (cases pv) (auto simp: client_at_def connected_def)
  moreover have "same_context s ?s'"
    unfolding same_context_def
    by (rule exI [of _ "if pv then cx_channels (s_cx s) else t'"], rule exI [of _ "if pv then t' else cx_patterns (s_cx s)"])
      (cases pv; auto intro!: client_context.equality)
  moreover have "subscribed T (pv, name) ref (T((pv, name) \<mapsto> (l, old_subs T (pv, name) @
      [(w_next w4, w_next (s_w s), Suc (w_next (s_w s)), ref, False)])))"
    unfolding subscribed_def by blast
  ultimately show ?thesis
    using register_runs [OF env assms(4) ins att] tab w6 by auto
qed

end
