(* ===== verification/Snail_Messages.thy ===== *)
theory Snail_Messages
  imports Snail_Subscribe
begin

text \<open>
  The subscription stream: what \<open>on_read\<close> does with the messages and confirmations that arrive on it,
  the second instance of \<open>reply_stream\<close>, against a specification in which a name has a list of
  subscribers, each a reference and whether it is confirmed.
\<close>

section \<open>The specification\<close>

type_synonym subs = "bool \<times> bytes \<Rightarrow> (int \<times> bool) list"

text \<open>What arrives: something without effect, the confirmation of a subscription, a message.\<close>

datatype notice = Ignored | Confirmed "bool \<times> bytes" | Posted "bool \<times> bytes"

fun named_notice :: "bytes \<Rightarrow> bytes \<Rightarrow> notice option" where
  "named_notice w n =
     (if 2 ^ 30 \<le> length n then None
      else if w = ''message'' then Some (Posted (False, before_NUL n))
      else if w = ''pmessage'' then Some (Posted (True, before_NUL n))
      else if w = ''subscribe'' then Some (Confirmed (False, before_NUL n))
      else if w = ''psubscribe'' then Some (Confirmed (True, before_NUL n))
      else None)"

fun notice_of :: "resp \<Rightarrow> notice option" where
  "notice_of (RArray (RString w # t # ts)) =
     (if w = ''unsubscribe'' \<or> w = ''punsubscribe'' then Some Ignored
      else case t of RString n \<Rightarrow> named_notice w n | _ \<Rightarrow> None)"
| "notice_of (RArray _) = None"
| "notice_of _ = Some Ignored"

definition call_sub :: "host \<Rightarrow> int \<Rightarrow> lua list \<Rightarrow> (int \<times> lua list) list" where
  "call_sub hs r vs = (if has_ref hs r then [(r, vs)] else [])"

definition message_args :: "bool \<Rightarrow> lua \<Rightarrow> lua list" where
  "message_args act v = (if act then [LNil, v] else [LStr ''event received but not initialized''])"

text \<open>A message goes to every subscriber of its name; one that is not confirmed gets a complaint.\<close>

definition post :: "host \<Rightarrow> lua \<Rightarrow> (int \<times> bool) list \<Rightarrow> (int \<times> lua list) list" where
  "post hs v rs = concat (map (\<lambda>(r, act). call_sub hs r (message_args act v)) rs)"

text \<open>A confirmation is for the first subscriber that still waits.\<close>

fun confirm :: "(int \<times> bool) list \<Rightarrow> (int \<times> bool) list" where
  "confirm [] = []"
| "confirm ((r, act) # rs) = (if act then (r, act) # confirm rs else (r, True) # rs)"

fun first_idle :: "(int \<times> bool) list \<Rightarrow> int option" where
  "first_idle [] = None"
| "first_idle ((r, act) # rs) = (if act then first_idle rs else Some r)"

definition confirm_calls :: "host \<Rightarrow> bool \<Rightarrow> lua \<Rightarrow> (int \<times> bool) list \<Rightarrow> (int \<times> lua list) list" where
  "confirm_calls hs ign v rs =
     (case first_idle rs of Some r \<Rightarrow> if ign then [] else call_sub hs r [LNil, v] | None \<Rightarrow> [])"

definition notice_step :: "host \<Rightarrow> bool \<Rightarrow> subs \<Rightarrow> resp \<Rightarrow> (int \<times> lua list) list \<times> subs" where
  "notice_step hs ign A t =
     (case notice_of t of
        Some (Posted k) \<Rightarrow> (post hs (to_sub t) (A k), A)
      | Some (Confirmed k) \<Rightarrow> (confirm_calls hs ign (to_sub t) (A k), A(k := confirm (A k)))
      | _ \<Rightarrow> ([], A))"

text \<open>What may arrive: names without a subscriber stop the program.\<close>

definition expected :: "host \<Rightarrow> subs \<Rightarrow> resp \<Rightarrow> bool" where
  "expected hs A t \<longleftrightarrow>
     (case notice_of t of
        None \<Rightarrow> False
      | Some Ignored \<Rightarrow> True
      | Some (Posted k) \<Rightarrow> A k \<noteq> [] \<and> length (A k) \<le> hs_fuel hs
      | Some (Confirmed k) \<Rightarrow> A k \<noteq> [] \<and> length (A k) \<le> hs_fuel hs)"

section \<open>The state of the client\<close>

text \<open>
  The code never sets the flags of a new callback: it reads what the memory from \<open>malloc\<close> held. The host
  gives its contents, the same for each allocation. In memory that is dirty at the bit for an initialized
  callback every subscriber counts as confirmed from the start.
\<close>

definition dirty_flags :: "host \<Rightarrow> bool" where
  "dirty_flags hs \<longleftrightarrow> has_flag (c_int (junk_field (hs_env hs) 4 4)) CALLBACK_INITIALIZED"

definition sub_view :: "host \<Rightarrow> subscriber \<Rightarrow> int \<times> bool" where
  "sub_view hs = (\<lambda>(x, c, ch, r, act). (r, act \<or> dirty_flags hs))"

lemma sub_view_simps [simp]: "sub_view hs (x, c, ch, r, act) = (r, act \<or> dirty_flags hs)"
  by (simp add: sub_view_def)

definition view :: "host \<Rightarrow> table \<Rightarrow> subs" where
  "view hs T k = map (sub_view hs) (old_subs T k)"

text \<open>\<open>rd\<close> is set when a write has given the subscription stream its client, before anything is read.\<close>

definition sub_state :: "bool \<Rightarrow> table \<Rightarrow> nat \<Rightarrow> bool \<Rightarrow> rstore \<Rightarrow> frames \<Rightarrow> int \<Rightarrow> bytes \<Rightarrow> nat \<Rightarrow> snail \<Rightarrow> bool" where
  "sub_state rd T b ign h fs ty u e s \<longleftrightarrow>
     (\<exists>xs. client_at h fs ty u e xs s \<and> table_at T e xs s) \<and>
     (\<exists>hd. w_hand (s_w s) b = Some hd \<and> (rd \<longrightarrow> h_data hd)) \<and> cx_sub_stream (s_cx s) = Some b \<and> cx_ignore_sub (s_cx s) = ign"

text \<open>What is asked of the Lua functions: they may issue commands, but leave the subscriptions.\<close>

definition friendly :: "host \<Rightarrow> bool" where
  "friendly hs \<longleftrightarrow>
     (\<forall>ref args rd T b ign h fs ty u e s. sub_state rd T b ign h fs ty u e s \<longrightarrow>
        runs (hs_lua hs ref args s) (\<lambda>s'. sub_state rd T b ign h fs ty u e s' \<and> calls s' = calls s))"

lemma table_at_emit [simp]: "table_at T e xs (upd_w s (\<lambda>w. emit w x)) = table_at T e xs s"
proof -
  have same: "agree w (emit w x) S" for w S by (simp add: agree_def emit_def)
  have "w_node (emit w x) = w_node w" for w by (simp add: emit_def)
  then show ?thesis
    using tree_node_cong [of "emit (s_w s) x" "s_w s"] list_at_agree [OF same]
    by (simp add: table_at_def tree_of_def)
qed

lemma table_at_buf [simp]: "table_at T e xs (upd_w s (\<lambda>w. buf_free w buf)) = table_at T e xs s"
proof -
  have same: "agree w (buf_free w buf) S" for w S by (simp add: agree_def buf_free_def)
  have "w_node (buf_free w buf) = w_node w" for w by (simp add: buf_free_def)
  then show ?thesis
    using tree_node_cong [of "buf_free (s_w s) buf" "s_w s"] list_at_agree [OF same]
    by (simp add: table_at_def tree_of_def)
qed

lemma table_at_put_reader [simp]: "table_at T e xs (put_reader s r) = table_at T e xs s"
  by (simp add: table_at_def tree_of_def) (simp add: put_reader_def)

lemma sub_state_emit [simp]:
  "sub_state rd T b ign h fs ty u e (upd_w s (\<lambda>w. emit w x)) = sub_state rd T b ign h fs ty u e s"
  by (simp add: sub_state_def)

lemma sub_state_buf [simp]:
  "sub_state rd T b ign h fs ty u e (upd_w s (\<lambda>w. buf_free w buf)) = sub_state rd T b ign h fs ty u e s"
proof -
  have "w_hand (buf_free w buf) = w_hand w" for w by (simp add: buf_free_def)
  then show ?thesis by (simp add: sub_state_def)
qed

lemma sub_state_put_reader:
  assumes "sub_state rd T b ign h fs ty u e s" and "reader_state h' fs' ty' u' r" and "r_pos r < 1024"
  shows "sub_state rd T b ign h' fs' ty' u' e (put_reader s r)"
proof -
  obtain xs where xs: "client_at h fs ty u e xs s" "table_at T e xs s" using assms(1) by (auto simp: sub_state_def)
  have cx: "cx_sub_stream (s_cx (put_reader s r)) = cx_sub_stream (s_cx s)"
    "cx_ignore_sub (s_cx (put_reader s r)) = cx_ignore_sub (s_cx s)"
    by (simp_all add: put_reader_def)
  have "client_at h' fs' ty' u' e xs (put_reader s r) \<and> table_at T e xs (put_reader s r)"
    using client_at_put_reader [OF xs(1) assms(2,3)] xs(2) by simp
  with assms(1) cx show ?thesis unfolding sub_state_def by auto
qed

lemma sub_state_reader:
  assumes "sub_state rd T b ign h fs ty u e s"
  shows "\<exists>r. get_reader s = Ok r \<and> reader_state h fs ty u r \<and> r_pos r < 1024"
  using assms by (auto simp: sub_state_def elim: client_at_reader)

lemma sub_state_store:
  assumes "sub_state rd T b ign h [] ty u e s"
  shows "\<exists>r. get_reader s = Ok r \<and> r_store r = h"
  using sub_state_reader [OF assms] reader_state_store [of h "[]" ty u] by auto

lemma sub_state_pcall:
  assumes "friendly hs" and "sub_state rd T b ign h fs ty u e s"
  shows "runs (lua_pcall_any hs ref vs s) (\<lambda>s'. sub_state rd T b ign h fs ty u e s' \<and> calls s' = calls s @ call_sub hs ref vs)"
proof -
  have "sub_state rd T b ign h fs ty u e (upd_w s (\<lambda>w. emit w (LuaCall ref vs)))" using assms(2) by simp
  with assms(1) have "runs (lua_pcall hs ref vs s) (\<lambda>s'. sub_state rd T b ign h fs ty u e s' \<and>
      calls s' = calls (upd_w s (\<lambda>w. emit w (LuaCall ref vs))))"
    unfolding friendly_def lua_pcall_def by blast
  with assms(2) show ?thesis by (simp add: lua_pcall_any_def call_sub_def)
qed

lemma sub_value_state:
  assumes "sub_state rd T b ign (store_of h (layout (rs_next h) t)) [] ty u e s"
  shows "sub_value s (rs_next h) = Ok (to_sub t)"
proof -
  from sub_state_store [OF assms] obtain r where "get_reader s = Ok r" "r_store r = store_of h (layout (rs_next h) t)"
    by (elim exE conjE)
  then show ?thesis
    using push_sub_reply_layout(1) [OF at_store_of] by (simp add: sub_value_def del: push_sub_reply.simps)
qed

text \<open>The list of a name that is in the table.\<close>

lemma sub_state_list:
  assumes "sub_state rd T b ign h fs ty u e s" and "T (pv, n) = Some (l, ys)"
  shows "tree_search (s_w s) n (tree_of pv s) = Ok (Some l)" and "ys \<noteq> []"
    and "\<exists>tl. w_ends (s_w s) l = Some \<lparr>e_head = Some (fst (hd ys)), e_tail = tl\<rparr>"
    and "chain (w_ll (s_w s)) (Some (fst (hd ys))) (map sub_cell ys)"
    and "y \<in> set ys \<Longrightarrow> subscriber_at (s_w s) n y"
proof -
  obtain xs where T: "table_at T e xs s" using assms(1) by (auto simp: sub_state_def)
  show "tree_search (s_w s) n (tree_of pv s) = Ok (Some l)" using table_atD(3) [OF T assms(2)] .
  have l: "list_at (s_w s) n l ys" using table_atD(4) [OF T assms(2)] .
  then show ne: "ys \<noteq> []" by (simp add: list_at_def)
  obtain h where h: "w_ends (s_w s) l = Some \<lparr>e_head = h, e_tail = Some (fst (last (map sub_cell ys)))\<rparr>"
    "chain (w_ll (s_w s)) h (map sub_cell ys)"
    using l ne by (auto simp: list_at_def cells_at_def)
  from chain_head [OF h(2)] ne have "h = Some (fst (hd ys))" by (cases ys) auto
  with h show "\<exists>tl. w_ends (s_w s) l = Some \<lparr>e_head = Some (fst (hd ys)), e_tail = tl\<rparr>"
    "chain (w_ll (s_w s)) (Some (fst (hd ys))) (map sub_cell ys)" by auto
  show "y \<in> set ys \<Longrightarrow> subscriber_at (s_w s) n y" using l by (simp add: list_at_def)
qed

section \<open>A message\<close>

lemma flags_state:
  assumes "subscriber_at w n (x, c, ch, r, act)"
  shows "\<exists>b. w_call w c = Some b \<and> cb_ref b = r \<and> cb_channels b = [Some ch] \<and> cb_nb_channel b = 1 \<and>
           has_flag (flags_of hs b) CALLBACK_INITIALIZED = (act \<or> dirty_flags hs)"
  using assms by (auto simp: subscriber_at_def flags_of_def dirty_flags_def split: if_splits)

text \<open>
  The loop over a list: every subscriber is called once, in the order of the list, as long as the
  functions called keep the list (\<open>P\<close>).
\<close>

lemma event_loop_calls:
  assumes lua: "\<And>ref vs s. P s \<Longrightarrow> runs (lua_pcall_any hs ref vs s) (\<lambda>s'. P s' \<and> calls s' = calls s @ call_sub hs ref vs)"
    and args: "\<And>s. P s \<Longrightarrow> args s = Ok [LNil, v]"
    and list: "\<And>s. P s \<Longrightarrow> chain (w_ll (s_w s)) p (map sub_cell ys) \<and> (\<forall>y\<in>set ys. subscriber_at (s_w s) n y)"
    and "length ys \<le> m" and "P s"
  shows "runs (event_loop m hs args p s) (\<lambda>s'. P s' \<and> calls s' = calls s @ post hs v (map (sub_view hs) ys))"
  using list \<open>length ys \<le> m\<close> \<open>P s\<close>
proof (induction ys arbitrary: p m s)
  case Nil
  then have "p = None" by auto
  with Nil show ?case by (cases m) (auto simp: post_def)
next
  case (Cons y ys)
  obtain x c ch r act where y: "y = (x, c, ch, r, act)" by (cases y)
  obtain k where m: "m = Suc k" using Cons.prems(2) by (cases m) auto
  define q where "q = (case map sub_cell ys of [] \<Rightarrow> None | (x, c) # _ \<Rightarrow> Some x)"
  have cell: "p = Some x \<and> w_ll (s_w s1) x = Some \<lparr>ll_cb = c, ll_next = q\<rparr> \<and>
      chain (w_ll (s_w s1)) q (map sub_cell ys) \<and> (\<forall>y\<in>set ys. subscriber_at (s_w s1) n y) \<and> subscriber_at (s_w s1) n y"
    if "P s1" for s1
    using Cons.prems(1) [OF that] chain_head [of "w_ll (s_w s1)" _ "map sub_cell ys"] by (auto simp: y q_def)
  have sub: "subscriber_at (s_w s) n (x, c, ch, r, act)" using cell [OF Cons.prems(3)] by (simp add: y)
  from flags_state [OF sub, of hs] obtain b where b: "w_call (s_w s) c = Some b" "cb_ref b = r"
    "has_flag (flags_of hs b) CALLBACK_INITIALIZED = (act \<or> dirty_flags hs)" by auto
  have call: "runs (event_callback hs args c s)
      (\<lambda>s'. P s' \<and> calls s' = calls s @ call_sub hs r (message_args (act \<or> dirty_flags hs) v))"
    using b args [OF Cons.prems(3)] lua [OF Cons.prems(3), of r "message_args (act \<or> dirty_flags hs) v"]
    by (auto simp: event_callback_def message_args_def)
  have "runs (cbind (event_callback hs args c s) (\<lambda>s. cbind (load (w_ll (s_w s)) x) (\<lambda>l. event_loop k hs args (ll_next l) s)))
      (\<lambda>s'. P s' \<and> calls s' = calls s @ post hs v (map (sub_view hs) (y # ys)))"
    unfolding runs_cbind
  proof (rule runs_mono [OF call], elim conjE)
    fix s1
    assume s1: "P s1" "calls s1 = calls s @ call_sub hs r (message_args (act \<or> dirty_flags hs) v)"
    have "runs (event_loop k hs args q s1) (\<lambda>s'. P s' \<and> calls s' = calls s1 @ post hs v (map (sub_view hs) ys))"
      using cell Cons.prems(2) s1(1) by (intro Cons.IH) (auto simp: m)
    then have "runs (event_loop k hs args q s1) (\<lambda>s'. P s' \<and> calls s' = calls s @ post hs v (map (sub_view hs) (y # ys)))"
      by (rule runs_mono) (use s1(2) in \<open>simp add: y post_def\<close>)
    then show "runs (load (w_ll (s_w s1)) x) (\<lambda>l. runs (event_loop k hs args (ll_next l) s1)
        (\<lambda>s'. P s' \<and> calls s' = calls s @ post hs v (map (sub_view hs) (y # ys))))"
      using cell [OF s1(1)] by simp
  qed
  then show ?case using cell [OF Cons.prems(3)] by (simp add: m)
qed

section \<open>A confirmation\<close>

lemma confirm_callback_done:
  assumes "subscriber_at (s_w s) n (x, c, ch, r, act)" and "act \<or> dirty_flags hs"
  shows "confirm_callback hs sname reply c s = Ok (False, s)"
  using flags_state [OF assms(1), of hs] assms(2) by (auto simp: confirm_callback_def)

text \<open>The store after the confirmation of a subscriber.\<close>

definition confirmed :: "host \<Rightarrow> bytes \<Rightarrow> nat \<Rightarrow> nat \<Rightarrow> callback \<Rightarrow> world \<Rightarrow> world" where
  "confirmed hs n c ch b w =
     w\<lparr>w_chan := (w_chan w)(ch \<mapsto> \<lparr>ch_name = Some n, ch_ikey = 0, ch_flags = CHANNEL_SUBSCRIBED\<rparr>),
       w_call := (w_call w)(c \<mapsto> b\<lparr>cb_flags := Some (set_flag (flags_of hs b) CALLBACK_INITIALIZED)\<rparr>)\<rparr>"

lemma channel_flags:
  "\<not> has_flag 0 m" "\<not> has_flag CHANNEL_SUBSCRIBED CHANNEL_TIMER_EVENT" "has_flag CHANNEL_SUBSCRIBED CHANNEL_SUBSCRIBED"
  "CHANNEL_SUBSCRIBED AND CHANNEL_SUBSCRIBED = CHANNEL_SUBSCRIBED" "set_flag 0 m = m" "has_flag (set_flag f CALLBACK_INITIALIZED) CALLBACK_INITIALIZED"
proof -
  have one: "CALLBACK_INITIALIZED = 2 ^ 0" by (simp add: CALLBACK_INITIALIZED_def)
  show "has_flag (set_flag f CALLBACK_INITIALIZED) CALLBACK_INITIALIZED"
    unfolding one has_flag_bit set_flag_bit by simp
qed (simp_all add: has_flag_def set_flag_def CHANNEL_SUBSCRIBED_def CHANNEL_TIMER_EVENT_def)

lemma confirm_callback_idle:
  assumes "\<not> dirty_flags hs" and "subscriber_at (s_w s) n (x, c, ch, r, False)" and b: "w_call (s_w s) c = Some b"
  shows "confirm_callback hs n reply c s =
    (let s1 = upd_w s (confirmed hs n c ch b) in
     if cx_ignore_sub (s_cx s) then Ok (True, s1)
     else cbind (sub_value s1 reply) (\<lambda>v. cbind (lua_pcall_any hs r [LNil, v] s1) (\<lambda>s. Ok (True, s))))"
proof -
  have sub: "cb_ref b = r" "cb_nb_channel b = 1" "cb_channels b = [Some ch]" "cb_flags b = None"
    "w_chan (s_w s) ch = Some \<lparr>ch_name = Some n, ch_ikey = 0, ch_flags = 0\<rparr>"
    using assms(2) b by (auto simp: subscriber_at_def)
  have fl: "\<not> has_flag (flags_of hs b) CALLBACK_INITIALIZED" using assms(1) sub(4) by (simp add: flags_of_def dirty_flags_def)
  let ?s0 = "upd_w s (\<lambda>w. put_chan w ch \<lparr>ch_name = Some n, ch_ikey = 0, ch_flags = CHANNEL_SUBSCRIBED\<rparr>)"
  have "confirm_channel hs n (Some ch) False CHANNEL_SUBSCRIBED s = Ok (True, CHANNEL_SUBSCRIBED, ?s0)"
    using sub(5) by (simp add: confirm_channel_def channel_flags) (simp add: put_chan_def channel_flags)
  moreover have "set_initialized hs c CHANNEL_SUBSCRIBED ?s0 = Ok (upd_w s (confirmed hs n c ch b))"
    using b by (simp add: set_initialized_def channel_flags put_defs upd_w_def confirmed_def)
  ultimately show ?thesis
    using b fl sub by (simp add: confirm_callback_def channels_of_def Let_def)
qed

lemma confirm_loop_skip:
  assumes "chain (w_ll (s_w s)) p (map sub_cell (ys @ zs))"
    and "\<forall>y\<in>set ys. subscriber_at (s_w s) n y \<and> snd (sub_view hs y)"
  shows "confirm_loop (length ys + m) hs sname reply p s =
    confirm_loop m hs sname reply (case map sub_cell zs of [] \<Rightarrow> None | (x, c) # _ \<Rightarrow> Some x) s"
  using assms
proof (induction ys arbitrary: p)
  case Nil
  then have "chain (w_ll (s_w s)) p (map sub_cell zs)" by simp
  from chain_head [OF this] show ?case by simp
next
  case (Cons y ys)
  obtain x c ch r act where y: "y = (x, c, ch, r, act)" by (cases y)
  obtain q where p: "p = Some x" "w_ll (s_w s) x = Some \<lparr>ll_cb = c, ll_next = q\<rparr>" "chain (w_ll (s_w s)) q (map sub_cell (ys @ zs))"
    using Cons.prems(1) by (auto simp: y)
  have "subscriber_at (s_w s) n (x, c, ch, r, act)" "act \<or> dirty_flags hs" using Cons.prems(2) by (auto simp: y)
  from confirm_callback_done [OF this] p Cons.IH [OF p(3)] Cons.prems(2) show ?case by simp
qed

lemma list_confirm:
  assumes l: "list_at w n l (ys @ (x, c, ch, r, False) # zs)" and b: "w_call w c = Some b"
  shows "list_at (confirmed hs n c ch b w) n l (ys @ (x, c, ch, r, True) # zs)"
proof -
  have d: "distinct (concat (map parts (ys @ (x, c, ch, r, False) # zs)))"
    and sub: "\<And>y. y \<in> set (ys @ (x, c, ch, r, False) # zs) \<Longrightarrow> subscriber_at w n y"
    using l unfolding list_at_def by blast+
  have other: "subscriber_at (confirmed hs n c ch b w) n y" if "y \<in> set ys \<union> set zs" for y
  proof -
    obtain x' c' ch' r' act' where y: "y = (x', c', ch', r', act')" by (cases y)
    have "c' \<in> set (concat (map parts (ys @ zs)))" "ch' \<in> set (concat (map parts (ys @ zs)))"
      using that by (force simp: y)+
    then have "c' \<noteq> c" "ch' \<noteq> ch" using d by auto
    with sub [of y] that show ?thesis by (auto simp: y subscriber_at_def confirmed_def)
  qed
  have "subscriber_at (confirmed hs n c ch b w) n (x, c, ch, r, True)"
    using sub [of "(x, c, ch, r, False)"] b by (auto simp: subscriber_at_def confirmed_def channel_flags)
  moreover have "cells_at (confirmed hs n c ch b w) l (map sub_cell (ys @ (x, c, ch, r, True) # zs))"
  proof -
    have "cells_at w l (map sub_cell (ys @ (x, c, ch, r, True) # zs))" using l by (simp add: list_at_def)
    then show ?thesis by (subst cells_at_cong [of _ _ w]) (simp_all add: confirmed_def)
  qed
  ultimately show ?thesis using d other by (auto simp: list_at_def)
qed

lemma confirmed_agree: "c \<notin> S \<Longrightarrow> ch \<notin> S \<Longrightarrow> agree w (confirmed hs n c ch b w) S"
  by (auto simp: agree_def confirmed_def)

lemma table_confirm:
  assumes T: "table_at T e xs s" and k: "T (pv, n) = Some (l, ys @ (x, c, ch, r, False) # zs)" and b: "w_call (s_w s) c = Some b"
  shows "table_at (T((pv, n) \<mapsto> (l, ys @ (x, c, ch, r, True) # zs))) e xs (upd_w s (confirmed hs n c ch b))" (is "table_at ?T e xs ?s")
    and "agree (s_w s) (confirmed hs n c ch b (s_w s)) (cmd_footprint e xs)"
proof -
  have in_k: "c \<in> old_part T (pv, n)" "ch \<in> old_part T (pv, n)" using k by (simp_all add: old_part_def footprint_def)
  note ap = table_atD(5) [OF T]
  show "agree (s_w s) (confirmed hs n c ch b (s_w s)) (cmd_footprint e xs)"
    using in_k old_part_apart(1) [OF ap] by (auto intro: confirmed_agree)
  have "w_node (confirmed hs n c ch b (s_w s)) = w_node (s_w s)" by (simp add: confirmed_def)
  note cong = tree_node_cong [OF this]
  have tree: "tree_of p ?s = tree_of p s" for p by (simp add: tree_of_def)
  have "tree_search (s_w ?s) m (tree_of p ?s) = Ok (Some l') \<and> list_at (s_w ?s) m l' vs" if T': "?T (p, m) = Some (l', vs)" for p m l' vs
  proof (cases "(p, m) = (pv, n)")
    case True
    with T' have "l' = l" "vs = ys @ (x, c, ch, r, True) # zs" by auto
    with True table_atD(3) [OF T k] list_confirm [OF table_atD(4) [OF T k] b] show ?thesis by (simp add: tree cong)
  next
    case False
    with T' have T0: "T (p, m) = Some (l', vs)" by (simp split: if_splits)
    have "agree (s_w s) (s_w ?s) (footprint (l', vs))"
      using in_k old_part_apart(2) [OF ap T0 False] by (auto intro: confirmed_agree)
    from list_at_agree [OF this] table_atD(3,4) [OF T T0] show ?thesis by (simp add: tree cong)
  qed
  moreover have "name_tree (s_w ?s) (tree_of p ?s) \<and> tree_keys (s_w ?s) (tree_of p ?s) \<subseteq> {m. ?T (p, m) \<noteq> None}" for p
    using table_atD(1,2) [OF T, of p] by (auto simp: tree cong)
  moreover have "apart ?T (cmd_footprint e xs)"
  proof (rule apart_upd [OF ap, of "{}"])
    show "footprint (l, ys @ (x, c, ch, r, True) # zs) \<subseteq> (case T (pv, n) of None \<Rightarrow> {} | Some v' \<Rightarrow> footprint v') \<union> {}"
      by (auto simp: k footprint_def)
  qed simp_all
  ultimately show "table_at ?T e xs ?s" unfolding table_at_def by blast
qed

lemma sub_state_confirm:
  assumes st: "sub_state rd T a ign h fs ty u e s" and k: "T (pv, n) = Some (l, ys @ (x, c, ch, r, False) # zs)"
    and b: "w_call (s_w s) c = Some b"
  shows "sub_state rd (T((pv, n) \<mapsto> (l, ys @ (x, c, ch, r, True) # zs))) a ign h fs ty u e (upd_w s (confirmed hs n c ch b))"
proof -
  obtain xs where xs: "client_at h fs ty u e xs s" "table_at T e xs s" using st by (auto simp: sub_state_def)
  let ?s = "upd_w s (confirmed hs n c ch b)"
  have q: "cb_queue (s_w s) e xs" using xs(1) by (simp add: client_at_def)
  have "w_call (s_w s) c \<noteq> None" "w_chan (s_w s) ch \<noteq> None"
    using table_atD(4) [OF xs(2) k] by (auto simp: list_at_def subscriber_at_def)
  then have "world_fresh (s_w ?s)" using q by (auto simp: cb_queue_def world_fresh_def confirmed_def)
  moreover have "agree (s_w s) (s_w ?s) (cmd_footprint e xs)" using table_confirm(2) [OF xs(2) k b] by simp
  ultimately have "cb_queue (s_w ?s) e xs" using cb_queue_agree [OF q] by blast
  then have "client_at h fs ty u e xs ?s"
    using xs(1) by (simp add: client_at_def connected_def) (simp add: confirmed_def)
  with table_confirm(1) [OF xs(2) k b] st show ?thesis
    unfolding sub_state_def by (auto simp: confirmed_def)
qed

lemma confirm_split:
  "(first_idle (map (sub_view hs) ys) = None \<and> confirm (map (sub_view hs) ys) = map (sub_view hs) ys \<and> (\<forall>y\<in>set ys. snd (sub_view hs y))) \<or>
   (\<exists>us x c ch r zs. \<not> dirty_flags hs \<and> ys = us @ (x, c, ch, r, False) # zs \<and> first_idle (map (sub_view hs) ys) = Some r \<and>
      confirm (map (sub_view hs) ys) = map (sub_view hs) (us @ (x, c, ch, r, True) # zs) \<and> (\<forall>y\<in>set us. snd (sub_view hs y)))"
proof (induction ys)
  case (Cons y ys)
  obtain x c ch r act where y: "y = (x, c, ch, r, act)" by (cases y)
  show ?case
  proof (cases "act \<or> dirty_flags hs")
    case False
    then have "\<not> dirty_flags hs \<and> y # ys = [] @ (x, c, ch, r, False) # ys \<and> first_idle (map (sub_view hs) (y # ys)) = Some r \<and>
        confirm (map (sub_view hs) (y # ys)) = map (sub_view hs) ([] @ (x, c, ch, r, True) # ys) \<and> (\<forall>y\<in>set []. snd (sub_view hs y))"
      by (simp add: y)
    then show ?thesis by blast
  next
    case True
    from Cons.IH show ?thesis
    proof (elim disjE exE conjE)
      fix us x' c' ch' r' zs
      assume "\<not> dirty_flags hs" "ys = us @ (x', c', ch', r', False) # zs" "first_idle (map (sub_view hs) ys) = Some r'"
        "confirm (map (sub_view hs) ys) = map (sub_view hs) (us @ (x', c', ch', r', True) # zs)" "\<forall>y\<in>set us. snd (sub_view hs y)"
      with True have "\<not> dirty_flags hs \<and> y # ys = (y # us) @ (x', c', ch', r', False) # zs \<and> first_idle (map (sub_view hs) (y # ys)) = Some r' \<and>
          confirm (map (sub_view hs) (y # ys)) = map (sub_view hs) ((y # us) @ (x', c', ch', r', True) # zs) \<and>
          (\<forall>y\<in>set (y # us). snd (sub_view hs y))"
        by (simp add: y)
      then show ?thesis by blast
    qed (use True in \<open>simp add: y\<close>)
  qed
qed simp

text \<open>In dirty memory nobody waits for a confirmation.\<close>

lemma dirty_confirms_nothing:
  assumes "dirty_flags hs"
  shows "confirm_calls hs ign v (view hs T k) = []" and "confirm (view hs T k) = view hs T k"
  using confirm_split [of hs "old_subs T k"] assms by (auto simp: confirm_calls_def view_def)

lemma view_upd: "view hs (T(k \<mapsto> (l, ys))) = (view hs T)(k := map (sub_view hs) ys)"
  by (auto simp: view_def old_subs_def fun_eq_iff)

lemma view_at: "T k = Some (l, ys) \<Longrightarrow> view hs T k = map (sub_view hs) ys"
  by (simp add: view_def old_subs_def)

lemma confirm_loop_state:
  assumes fr: "friendly hs" and k: "T (pv, n) = Some (l, ys)" and "length ys \<le> m"
    and st: "sub_state rd T a ign (store_of h (layout (rs_next h) t)) [] ty u e s"
  shows "runs (confirm_loop m hs n (rs_next h) (Some (fst (hd ys))) s) (\<lambda>s'. \<exists>T'. view hs T' = (view hs T)((pv, n) := confirm (view hs T (pv, n))) \<and>
           sub_state rd T' a ign (store_of h (layout (rs_next h) t)) [] ty u e s' \<and>
           calls s' = calls s @ confirm_calls hs ign (to_sub t) (view hs T (pv, n)))"
proof -
  let ?h = "store_of h (layout (rs_next h) t)"
  note list = sub_state_list [OF st k]
  have vk: "view hs T (pv, n) = map (sub_view hs) ys" using k by (rule view_at)
  obtain d where m: "m = length ys + d" using assms(3) le_Suc_ex by blast
  from confirm_split [of hs ys] show ?thesis
  proof (elim disjE exE conjE)
    assume none: "first_idle (map (sub_view hs) ys) = None" "confirm (map (sub_view hs) ys) = map (sub_view hs) ys" "\<forall>y\<in>set ys. snd (sub_view hs y)"
    have "confirm_loop (length ys + d) hs n (rs_next h) (Some (fst (hd ys))) s = confirm_loop d hs n (rs_next h) None s"
      using confirm_loop_skip [of s "Some (fst (hd ys))" ys "[]" n hs] list(4,5) none(3) by simp
    moreover have "confirm_loop d hs n (rs_next h) None s = Ok s" by (cases d) simp_all
    ultimately show ?thesis using st none by (auto simp: m vk confirm_calls_def fun_upd_idem)
  next
    fix us x c ch r zs
    assume cl: "\<not> dirty_flags hs" and ys: "ys = us @ (x, c, ch, r, False) # zs" and idle: "first_idle (map (sub_view hs) ys) = Some r"
      "confirm (map (sub_view hs) ys) = map (sub_view hs) (us @ (x, c, ch, r, True) # zs)" and us: "\<forall>y\<in>set us. snd (sub_view hs y)"
    let ?T = "T((pv, n) \<mapsto> (l, us @ (x, c, ch, r, True) # zs))"
    have view: "view hs ?T = (view hs T)((pv, n) := confirm (view hs T (pv, n)))" using idle(2) by (simp add: view_upd vk)
    have sub: "subscriber_at (s_w s) n (x, c, ch, r, False)" using list(5) by (simp add: ys)
    then obtain b where b: "w_call (s_w s) c = Some b" by (auto simp: subscriber_at_def)
    let ?s1 = "upd_w s (confirmed hs n c ch b)"
    have k': "T (pv, n) = Some (l, us @ (x, c, ch, r, False) # zs)" using k ys by simp
    have st1: "sub_state rd ?T a ign ?h [] ty u e ?s1" by (rule sub_state_confirm [OF st k' b])
    have calls1: "calls ?s1 = calls s" by (simp add: confirmed_def)
    have cell: "\<exists>q. w_ll (s_w s') x = Some \<lparr>ll_cb = c, ll_next = q\<rparr>" if "sub_state rd ?T a ign ?h [] ty u e s'" for s'
      using chain_cell [OF sub_state_list(4) [OF that, of pv n l "us @ (x, c, ch, r, True) # zs"], of x c] by simp
    have cell0: "\<exists>q. w_ll (s_w s) x = Some \<lparr>ll_cb = c, ll_next = q\<rparr>"
      using chain_cell [OF list(4), of x c] by (simp add: ys)
    have "runs (confirm_callback hs n (rs_next h) c s) (\<lambda>(dn, s'). dn \<and> sub_state rd ?T a ign ?h [] ty u e s' \<and>
        calls s' = calls s @ confirm_calls hs ign (to_sub t) (map (sub_view hs) ys))"
    proof (cases ign)
      case True
      then have "cx_ignore_sub (s_cx s)" using st by (simp add: sub_state_def)
      with True st1 calls1 idle(1) show ?thesis
        by (simp add: confirm_callback_idle [OF cl sub b] confirm_calls_def)
    next
      case False
      then have "\<not> cx_ignore_sub (s_cx s)" using st by (simp add: sub_state_def)
      moreover have "runs (lua_pcall_any hs r [LNil, to_sub t] ?s1) (\<lambda>s'. sub_state rd ?T a ign ?h [] ty u e s' \<and>
          calls s' = calls s @ confirm_calls hs ign (to_sub t) (map (sub_view hs) ys))"
        using sub_state_pcall [OF fr st1, of r "[LNil, to_sub t]"] False idle(1) calls1 by (simp add: confirm_calls_def)
      ultimately show ?thesis
        using sub_value_state [OF st1] by (simp add: confirm_callback_idle [OF cl sub b] Let_def runs_cbind)
    qed
    then have "runs (cbind (confirm_callback hs n (rs_next h) c s) (\<lambda>(dn, s). cbind (load (w_ll (s_w s)) x)
        (\<lambda>l. if dn then Ok s else confirm_loop (length zs + d) hs n (rs_next h) (ll_next l) s)))
        (\<lambda>s'. sub_state rd ?T a ign ?h [] ty u e s' \<and> calls s' = calls s @ confirm_calls hs ign (to_sub t) (map (sub_view hs) ys))"
      unfolding runs_cbind by (rule runs_mono) (use cell in fastforce)
    moreover have "confirm_loop m hs n (rs_next h) (Some (fst (hd ys))) s =
        confirm_loop (Suc (length zs + d)) hs n (rs_next h) (Some x) s"
      using confirm_loop_skip [of s "Some (fst (hd ys))" us "(x, c, ch, r, False) # zs" n hs "Suc (length zs + d)"] list(4,5) us
      by (simp add: m ys add.assoc del: confirm_loop.simps)
    ultimately have "runs (confirm_loop m hs n (rs_next h) (Some (fst (hd ys))) s)
        (\<lambda>s'. sub_state rd ?T a ign ?h [] ty u e s' \<and> calls s' = calls s @ confirm_calls hs ign (to_sub t) (map (sub_view hs) ys))"
      using cell0 by auto
    then show ?thesis by (rule runs_mono) (use view vk in auto)
  qed
qed

section \<open>What arrives\<close>

lemma string_element_first:
  assumes "at h (Suc b) (layouts (Suc b) (RString x # ts))"
  shows "string_element h (arr_obj (length (RString x # ts)) (Some (map Some (addrs (Suc b) (RString x # ts))))) 0 =
           Ok (x @ [NUL], int (length x))"
proof -
  have "rs_map h (Suc b) = Some (text_obj REDIS_REPLY_STRING x)" using assms by (simp add: at_Cons)
  then show ?thesis by (simp add: string_element_def arr_obj_def rs_load_def) (simp add: text_obj_def)
qed

lemma string_element_second:
  assumes "at h (Suc b) (layouts (Suc b) (RString x # RString y # ts))"
  shows "string_element h (arr_obj (length (RString x # RString y # ts)) (Some (map Some (addrs (Suc b) (RString x # RString y # ts)))))
           (Suc 0) = Ok (y @ [NUL], int (length y))"
proof -
  have "rs_map h (Suc (Suc b)) = Some (text_obj REDIS_REPLY_STRING y)" using assms by (simp add: at_Cons)
  then show ?thesis by (simp add: string_element_def arr_obj_def rs_load_def) (simp add: text_obj_def)
qed

text \<open>The words a message can start with, as the code takes them apart.\<close>

lemma get_and_call_ignored:
  assumes st: "sub_state rd T a ign (store_of h (layout (rs_next h) t)) [] ty u e s" and n: "notice_of t = Some Ignored"
  shows "get_and_call_sub_cb hs (rs_next h) s = Ok s"
proof -
  let ?h = "store_of h (layout (rs_next h) t)" and ?b = "rs_next h"
  from sub_state_store [OF st] obtain r where r: "get_reader s = Ok r" and h: "r_store r = ?h" by (elim exE conjE)
  have at: "at ?h ?b (layout ?b t)" by (rule at_store_of)
  show ?thesis
  proof (cases "\<exists>ts. t = RArray ts")
    case False
    then have "\<exists>o'. rs_load ?h ?b = Ok o' \<and> rr_type o' \<noteq> REDIS_REPLY_ARRAY"
      using at by (cases t) (simp_all add: at_Cons rs_load_def, simp_all add: text_obj_def new_obj_def reply_types)
    with r h show ?thesis by (auto simp: get_and_call_sub_cb_def)
  next
    case True
    then obtain w t2 ts where t: "t = RArray (RString w # t2 # ts)" and w: "w = ''unsubscribe'' \<or> w = ''punsubscribe''"
      using n by (cases t rule: notice_of.cases) (auto split: if_splits resp.splits)
    obtain O' where root: "rs_load ?h ?b = Ok O'" and o': "rr_type O' = REDIS_REPLY_ARRAY" "2 \<le> rr_elements O'"
      "string_element ?h O' 0 = Ok (w @ [NUL], int (length w))"
    proof
      let ?o = "arr_obj (length (RString w # t2 # ts)) (Some (map Some (addrs (Suc ?b) (RString w # t2 # ts))))"
      show "rs_load ?h ?b = Ok ?o" using at by (simp add: t at_Cons rs_load_def)
      show "rr_type ?o = REDIS_REPLY_ARRAY" "2 \<le> rr_elements ?o" by (simp_all add: arr_obj_def)
      show "string_element ?h ?o 0 = Ok (w @ [NUL], int (length w))"
        by (rule string_element_first) (use at in \<open>simp add: t at_Cons\<close>)
    qed
    have str: "c_string (w @ [NUL]) = Ok w" using w c_string_terminated [of w] by (auto simp: before_NUL_def)
    from w r root o' str show ?thesis
      by (elim disjE) (simp_all add: get_and_call_sub_cb_def h c_tolower_def)
  qed
qed

lemma get_and_call_named:
  assumes st: "sub_state rd T a ign (store_of h (layout (rs_next h) t)) [] ty u e s" and env: "grants_all (hs_env hs)"
    and t: "t = RArray (RString w # RString n # ts)" and n: "length n < 2 ^ 30"
    and w: "w = (if pv then ''p'' else []) @ (if conf then ''subscribe'' else ''message'')"
    and k: "T (pv, before_NUL n) = Some (l, ys)"
  shows "get_and_call_sub_cb hs (rs_next h) s =
    (if conf then confirm_loop (hs_fuel hs) hs (before_NUL n) (rs_next h) (Some (fst (hd ys))) s
     else event_loop (hs_fuel hs) hs (\<lambda>s. cbind (sub_value s (rs_next h)) (\<lambda>v. Ok [LNil, v])) (Some (fst (hd ys))) s)"
proof -
  let ?h = "store_of h (layout (rs_next h) t)" and ?b = "rs_next h"
  from sub_state_store [OF st] obtain r where r: "get_reader s = Ok r" and h: "r_store r = ?h" by (elim exE conjE)
  have at: "at ?h ?b (layout ?b t)" by (rule at_store_of)
  obtain O' where root: "rs_load ?h ?b = Ok O'" and o': "rr_type O' = REDIS_REPLY_ARRAY" "2 \<le> rr_elements O'"
    "string_element ?h O' 0 = Ok (w @ [NUL], int (length w))" "string_element ?h O' (Suc 0) = Ok (n @ [NUL], int (length n))"
  proof
    let ?o = "arr_obj (length (RString w # RString n # ts)) (Some (map Some (addrs (Suc ?b) (RString w # RString n # ts))))"
    show "rs_load ?h ?b = Ok ?o" using at by (simp add: t at_Cons rs_load_def)
    show "rr_type ?o = REDIS_REPLY_ARRAY" "2 \<le> rr_elements ?o" by (simp_all add: arr_obj_def)
    show "string_element ?h ?o 0 = Ok (w @ [NUL], int (length w))"
      by (rule string_element_first) (use at in \<open>simp add: t at_Cons\<close>)
    show "string_element ?h ?o (Suc 0) = Ok (n @ [NUL], int (length n))"
      by (rule string_element_second) (use at in \<open>simp add: t at_Cons\<close>)
  qed
  obtain tl where ends: "w_ends (s_w s) l = Some \<lparr>e_head = Some (fst (hd ys)), e_tail = tl\<rparr>"
    and tree: "tree_search (s_w s) (before_NUL n) (if pv then cx_patterns (s_cx s) else cx_channels (s_cx s)) = Ok (Some l)"
    using sub_state_list(1,3) [OF st k] by (auto simp: tree_of_def)
  have sds: "sdsnewlen (hs_env hs) (Some (n @ [NUL])) (int (length n)) = Ok (Some (sds_of n []))"
    using sdsnewlen_copy [of "length n" "n @ [NUL]" "hs_env hs"] env n by simp
  have buf: "c_string (sh_buf (sds_of n [])) = Ok (before_NUL n)"
    using c_string_terminated [of n] by (simp add: sds_of_def)
  have str: "c_string (w @ [NUL]) = Ok w" using w c_string_terminated [of w] by (auto simp: before_NUL_def)
  from r root o' str sds buf tree ends show ?thesis
    unfolding w by (cases pv; cases conf) (simp_all add: get_and_call_sub_cb_def h c_tolower_def cong: if_cong)
qed

text \<open>One reply on the stream.\<close>

lemma get_and_call_expected:
  assumes fr: "friendly hs" and env: "grants_all (hs_env hs)"
    and st: "sub_state rd T a ign (store_of h (layout (rs_next h) t)) [] ty u e s" and ex: "expected hs (view hs T) t"
  shows "runs (get_and_call_sub_cb hs (rs_next h) s) (\<lambda>s'. \<exists>T' cs. notice_step hs ign (view hs T) t = (cs, view hs T') \<and>
           sub_state rd T' a ign (store_of h (layout (rs_next h) t)) [] ty u e s' \<and> calls s' = calls s @ cs)"
proof -
  let ?h = "store_of h (layout (rs_next h) t)"
  obtain nt where nt: "notice_of t = Some nt" using ex by (auto simp: expected_def split: option.splits)
  show ?thesis
  proof (cases nt)
    case Ignored
    with nt st get_and_call_ignored [OF st] show ?thesis by (auto simp: notice_step_def)
  next
    case (Confirmed k)
    obtain w pv n ts where t: "t = RArray (RString w # RString n # ts)" "length n < 2 ^ 30"
      "w = (if pv then ''p'' else []) @ (if True then ''subscribe'' else ''message'')" and k: "k = (pv, before_NUL n)"
      using nt Confirmed by (cases t rule: notice_of.cases) (auto split: if_splits resp.splits)
    obtain l ys where T: "T (pv, before_NUL n) = Some (l, ys)"
      using ex nt by (cases "T (pv, before_NUL n)") (auto simp: expected_def Confirmed k view_def old_subs_def)
    have len: "length ys \<le> hs_fuel hs"
      using ex nt view_at [of T "(pv, before_NUL n)" l ys] T by (simp add: expected_def Confirmed k)
    from confirm_loop_state [OF fr T len st] show ?thesis
      unfolding get_and_call_named [OF st env t T] if_True
      by (rule runs_mono) (use nt in \<open>simp add: notice_step_def Confirmed k, metis\<close>)
  next
    case (Posted k)
    obtain w pv n ts where t: "t = RArray (RString w # RString n # ts)" "length n < 2 ^ 30"
      "w = (if pv then ''p'' else []) @ (if False then ''subscribe'' else ''message'')" and k: "k = (pv, before_NUL n)"
      using nt Posted by (cases t rule: notice_of.cases) (auto split: if_splits resp.splits)
    obtain l ys where T: "T (pv, before_NUL n) = Some (l, ys)"
      using ex nt by (cases "T (pv, before_NUL n)") (auto simp: expected_def Posted k view_def old_subs_def)
    have v: "view hs T (pv, before_NUL n) = map (sub_view hs) ys" using T by (rule view_at)
    have len: "length ys \<le> hs_fuel hs" using ex nt v by (simp add: expected_def Posted k)
    have "runs (event_loop (hs_fuel hs) hs (\<lambda>s. cbind (sub_value s (rs_next h)) (\<lambda>v. Ok [LNil, v])) (Some (fst (hd ys))) s)
        (\<lambda>s'. sub_state rd T a ign ?h [] ty u e s' \<and> calls s' = calls s @ post hs (to_sub t) (map (sub_view hs) ys))"
    proof (rule event_loop_calls)
      fix s' assume s': "sub_state rd T a ign ?h [] ty u e s'"
      from sub_value_state [OF s'] show "cbind (sub_value s' (rs_next h)) (\<lambda>v. Ok [LNil, v]) = Ok [LNil, to_sub t]" by simp
      show "chain (w_ll (s_w s')) (Some (fst (hd ys))) (map sub_cell ys) \<and> (\<forall>y\<in>set ys. subscriber_at (s_w s') (before_NUL n) y)"
        using sub_state_list(4,5) [OF s', of pv "before_NUL n" l ys] T by blast
      show "runs (lua_pcall_any hs r vs s') (\<lambda>s''. sub_state rd T a ign ?h [] ty u e s'' \<and> calls s'' = calls s' @ call_sub hs r vs)" for r vs
        by (rule sub_state_pcall [OF fr s'])
    qed (rule len st)+
    then show ?thesis
      unfolding get_and_call_named [OF st env t T] if_False
      by (rule runs_mono) (use nt v in \<open>auto simp: notice_step_def Posted k\<close>)
  qed
qed

lemma deliver_expected:
  assumes fr: "friendly hs" and env: "grants_all (hs_env hs)" and "fresh h"
    and st: "sub_state rd T a ign (store_of h (layout (rs_next h) t)) [] ty u e s" and ex: "expected hs (view hs T) t"
  shows "runs (deliver_message hs (rs_next h) s) (\<lambda>s'. \<exists>T' cs. notice_step hs ign (view hs T) t = (cs, view hs T') \<and>
           sub_state rd T' a ign (spent h t) [] ty u e s' \<and> calls s' = calls s @ cs)"
proof -
  let ?h = "store_of h (layout (rs_next h) t)" and ?b = "rs_next h"
  from sub_state_store [OF st] obtain r where r: "get_reader s = Ok r" and h: "r_store r = ?h" by (elim exE conjE)
  have free: "runs (free_reply_object ?b s1) (\<lambda>s'. sub_state rd T1 a ign (spent h t) [] ty u e s' \<and> calls s' = calls s1)"
    if s1: "sub_state rd T1 a ign ?h [] ty u e s1" for T1 s1
  proof -
    obtain xs where xs: "client_at ?h [] ty u e xs s1" "table_at T1 e xs s1" using s1 by (auto simp: sub_state_def)
    have cx: "cx_sub_stream (s_cx (put_reader s1 r)) = cx_sub_stream (s_cx s1)"
      "cx_ignore_sub (s_cx (put_reader s1 r)) = cx_ignore_sub (s_cx s1)" for r
      by (simp_all add: put_reader_def)
    from free_reply_object_spent [OF xs(1) assms(3)] show ?thesis
    proof (rule runs_mono, elim conjE exE)
      fix s2 r2
      assume "client_at (spent h t) [] ty u e xs s2" "s2 = put_reader s1 r2"
      with xs(2) s1 cx show "sub_state rd T1 a ign (spent h t) [] ty u e s2 \<and> calls s2 = calls s1"
        unfolding sub_state_def by auto
    qed
  qed
  have error: "notice_step hs ign (view hs T) t = ([], view hs T)" if "t = RError m" for m
    using that by (simp add: notice_step_def)
  have root: "\<exists>O'. rs_load ?h ?b = Ok O' \<and> (rr_type O' = REDIS_REPLY_ERROR \<longleftrightarrow> (\<exists>m. t = RError m))"
    using at_store_of [of h "layout ?b t"]
    by (cases t) (simp_all add: at_Cons rs_load_def, simp_all add: arr_obj_def text_obj_def new_obj_def reply_types)
  have "runs (cbind (if \<exists>m. t = RError m then Ok s else get_and_call_sub_cb hs ?b s) (free_reply_object ?b))
      (\<lambda>s'. \<exists>T' cs. notice_step hs ign (view hs T) t = (cs, view hs T') \<and> sub_state rd T' a ign (spent h t) [] ty u e s' \<and>
         calls s' = calls s @ cs)"
  proof (cases "\<exists>m. t = RError m")
    case True
    from free [OF st] show ?thesis
      unfolding if_P [OF True] cbind.simps by (rule runs_mono) (use True error in auto)
  next
    case False
    show ?thesis
      unfolding if_not_P [OF False] runs_cbind
      by (rule runs_mono [OF get_and_call_expected [OF fr env st ex]], elim exE conjE, rule runs_mono [OF free]) auto
  qed
  with root r h show ?thesis by (auto simp: deliver_message_def)
qed

section \<open>The subscription stream\<close>

definition sub_inv :: "host \<Rightarrow> nat \<Rightarrow> bool \<Rightarrow> nat \<Rightarrow> subs \<Rightarrow> rstore \<Rightarrow> frames \<Rightarrow> int \<Rightarrow> bytes \<Rightarrow> snail \<Rightarrow> bool" where
  "sub_inv hs a ign e A h fs ty u s \<longleftrightarrow>
     friendly hs \<and> grants_all (hs_env hs) \<and> (\<exists>T. A = view hs T \<and> sub_state True T a ign h fs ty u e s)"

definition sub_step :: "host \<Rightarrow> bool \<Rightarrow> subs \<Rightarrow> resp \<Rightarrow> (int \<times> lua list) list \<Rightarrow> subs \<Rightarrow> bool" where
  "sub_step hs ign A t cs A' \<longleftrightarrow> notice_step hs ign A t = (cs, A')"

interpretation messages_in: reply_stream hs True a "sub_inv hs a ign e" "expected hs" "sub_step hs ign"
  for hs a ign e
proof
  fix A h fs ty u s
  assume i: "sub_inv hs a ign e A h fs ty u s"
  then obtain T where T: "A = view hs T" and st: "sub_state True T a ign h fs ty u e s"
    and hyp: "friendly hs" "grants_all (hs_env hs)"
    by (auto simp: sub_inv_def)
  then obtain xs where at: "client_at h fs ty u e xs s" by (auto simp: sub_state_def)
  show "grants_all (hs_env hs)" by (rule hyp(2))
  show "\<exists>r. get_reader s = Ok r \<and> reader_state h fs ty u r \<and> r_pos r < 1024" using st by (rule sub_state_reader)
  show "sub_inv hs a ign e A h' fs' ty' u' (put_reader s r)" if "reader_state h' fs' ty' u' r" "r_pos r < 1024" for h' fs' ty' u' r
    using sub_state_put_reader [OF st that] T hyp by (auto simp: sub_inv_def)
  show "sub_inv hs a ign e A h fs ty u (upd_w s (\<lambda>w. buf_free w buf))" for buf
    using i by (simp add: sub_inv_def)
  show "\<not> has_flag (cx_flags (s_cx s)) REDIS_DISCONNECTING \<and> \<not> has_flag (cx_flags (s_cx s)) REDIS_MONITORING"
    using at by (simp add: client_at_def connected_not_disconnecting)
  show "handle_context (s_w s) a = Ok () \<and> (cx_sub_stream (s_cx s) = Some a) = True"
    using st by (auto simp: sub_state_def handle_context_def)
  show "runs (stop_if_idle True a s) (\<lambda>s'. sub_inv hs a ign e A h fs ty u s' \<and> calls s' = calls s)"
    using i by (simp add: stop_if_idle_def)
next
  fix A h t ty u s cb
  assume i: "sub_inv hs a ign e A (store_of h (layout (rs_next h) t)) [] ty u s" and fresh: "fresh h" and ex: "expected hs A t"
  then obtain T where T: "A = view hs T" and st: "sub_state True T a ign (store_of h (layout (rs_next h) t)) [] ty u e s"
    and hyp: "friendly hs" "grants_all (hs_env hs)"
    by (auto simp: sub_inv_def)
  have "runs (deliver_message hs (rs_next h) s) (\<lambda>s'. \<exists>cs A'. sub_step hs ign A t cs A' \<and>
      sub_inv hs a ign e A' (spent h t) [] ty u s' \<and> calls s' = calls s @ cs)"
    using ex unfolding T
    by (intro runs_mono [OF deliver_expected [OF hyp fresh st]]) (use hyp in \<open>auto simp: sub_step_def sub_inv_def\<close>)
  then show "runs (if True then cbind (deliver_message hs (rs_next h) s) (\<lambda>s. Ok (cb, s)) else deliver_reply hs (rs_next h) cb s)
      (\<lambda>(cb', s'). \<exists>cs g'. sub_step hs ign A t cs g' \<and> sub_inv hs a ign e g' (spent h t) [] ty u s' \<and> calls s' = calls s @ cs)"
    by (simp add: runs_cbind)
qed

end
