(* ===== verification/Snail_Pubsub.thy ===== *)
theory Snail_Pubsub
  imports Snail_Messages
begin

text \<open>
  A client that subscribes: subscriptions, other commands and what the server sends on the
  subscription stream, in any order, against \<open>pubsub\<close>, a function of the events that knows names,
  references and whether a subscriber is confirmed.
\<close>


section \<open>Commands beside subscriptions\<close>

lemma agree_mono: "agree w w' S \<Longrightarrow> S' \<subseteq> S \<Longrightarrow> agree w w' S'"
  by (auto simp: agree_def)

text \<open>Appending the callback of a command touches nothing but the list of commands and new addresses.\<close>

lemma append_callback_elsewhere:
  assumes q: "cb_queue w e xs" and env: "grants_all env"
  shows "runs (append_callback env w (Some e) ref) (\<lambda>w'. agree w w' {b. b < w_next w \<and> b \<notin> cmd_footprint e xs})"
proof -
  let ?c = "w_next w" and ?x = "Suc (w_next w)" and ?zs = "map cell_of xs"
  let ?b = "\<lparr>cb_ref = ref, cb_flags = None, cb_nb_channel = 0, cb_attach = 0, cb_channels = []\<rparr>"
  let ?w = "w\<lparr>w_call := (w_call w)(?c \<mapsto> ?b), w_next := Suc ?x, w_ll := (w_ll w)(?x \<mapsto> \<lparr>ll_cb = ?c, ll_next = None\<rparr>)\<rparr>"
  have cell: "y \<in> cmd_footprint e xs" if "y \<in> fst ` set ?zs" for y
    using that by (force simp: cmd_footprint_def)
  have x: "?x \<notin> fst ` set ?zs" using cmd_footprint_lt [OF q cell] by fastforce
  have "cells_at w e ?zs" using q by (auto simp: cb_queue_def cells_at_def split_def last_map comp_def)
  moreover have "w_ll ?w y = w_ll w y" if "y \<in> fst ` set ?zs" for y
    using that x by (cases "y = ?x") (simp_all del: set_map)
  ultimately have cells: "cells_at ?w e ?zs" by (subst cells_at_cong [of _ _ w]) simp_all
  obtain w' where push: "push_cb ?w (Some e) (Some ?x) = Ok w'" and w': "w_call w' = (w_call ?w)(?c \<mapsto> ?b\<lparr>cb_attach := 1\<rparr>)"
    "\<And>y. y \<notin> fst ` set ?zs \<Longrightarrow> w_ll w' y = w_ll ?w y" "\<And>k. k \<noteq> e \<Longrightarrow> w_ends w' k = w_ends ?w k" "same_rest ?w w'"
    by (rule push_cb_cells [OF cells, of ?x ?c ?b]) (use x in \<open>simp_all del: set_map\<close>)
  have "append_callback env w (Some e) ref = Ok w'"
    using push env by (simp add: append_callback_def create_callback_def wrap_cb_def put_defs Let_def)
  moreover have "agree w w' {b. b < w_next w \<and> b \<notin> cmd_footprint e xs}"
    unfolding agree_def
  proof (intro ballI, elim CollectE conjE, intro conjI)
    fix b assume b: "b < w_next w" "b \<notin> cmd_footprint e xs"
    then have "b \<notin> fst ` set ?zs" "b \<noteq> e" using cell by (auto simp: cmd_footprint_def)
    with b w' show "w_ends w' b = w_ends w b" "w_ll w' b = w_ll w b" "w_call w' b = w_call w b" "w_chan w' b = w_chan w b"
      by (simp_all add: same_rest_def)
  qed
  ultimately show ?thesis by simp
qed

text \<open>A write on either stream keeps the subscriptions.\<close>

lemma sub_state_send:
  assumes st: "sub_state rd T b ign h fs ty u e s" and env: "grants_all (hs_env hs)" and wr: "\<And>a b. hs_write hs a b = 0"
  shows "runs (send_command hs sub cmd s) (\<lambda>(res, s'). res = Ret 1 \<and> sub_state rd T b ign h fs ty u e s' \<and> calls s' = calls s \<and>
           (sub \<longrightarrow> (\<exists>req. w_trace (s_w s') = w_trace (s_w s) @ [UvWrite req b cmd] \<and> handle_context (s_w s') req = Ok ())))"
proof -
  obtain xs where at: "client_at h fs ty u e xs s" and T: "table_at T e xs s" using st by (auto simp: sub_state_def)
  obtain a hn where a: "(if sub then cx_sub_stream (s_cx s) else cx_stream (s_cx s)) = Some a" "w_hand (s_w s) a = Some hn"
    using st at by (cases sub) (auto simp: sub_state_def client_at_def connected_def)
  from send_command_runs [OF at env wr a, of cmd] obtain req w
    where run: "send_command hs sub cmd s = Ok (Ret 1, s\<lparr>s_w := emit w (UvWrite req a cmd)\<rparr>)"
    and w: "world_fresh w" "w_hand w = (w_hand (s_w s))(req \<mapsto> \<lparr>h_data = True, h_repeat = 0\<rparr>)" "w_call w = w_call (s_w s)"
      "w_ll w = w_ll (s_w s)" "w_ends w = w_ends (s_w s)" "w_node w = w_node (s_w s)" "w_chan w = w_chan (s_w s)"
      "w_trace w = w_trace (s_w s)" by auto
  let ?s = "s\<lparr>s_w := emit w (UvWrite req a cmd)\<rparr>"
  have q: "cb_queue (s_w s) e xs" using at by (simp add: client_at_def)
  have "client_at h fs ty u e xs ?s"
    using at cb_queue_cong [OF q w(1,3-5)] w(2) by (auto simp: client_at_def connected_def)
  moreover have "table_at T e xs ?s"
    by (rule table_at_frame [OF T]) (use w table_atD(5) [OF T] in \<open>auto simp: agree_def emit_def\<close>)
  ultimately have "sub_state rd T b ign h fs ty u e ?s" using st w(2) by (auto simp: sub_state_def)
  moreover have "handle_context (s_w ?s) req = Ok ()" using w(2) by (simp add: handle_context_def)
  moreover have "sub \<Longrightarrow> a = b" using a(1) st by (simp add: sub_state_def)
  ultimately show ?thesis using run w(8) by auto
qed

lemma plain_keeps_subs:
  assumes st: "sub_state rd T b ign h fs ty u e s" and env: "grants_all (hs_env hs)" and wr: "\<And>a b. hs_write hs a b = 0"
    and pc: "plain_call hs args ref argv"
  shows "runs (lua_client_command hs args s) (\<lambda>(res, s'). sub_state rd T b ign h fs ty u e s' \<and> calls s' = calls s)"
proof -
  obtain xs where at: "client_at h fs ty u e xs s" and T: "table_at T e xs s" using st by (auto simp: sub_state_def)
  have q: "cb_queue (s_w s) e xs" and e: "cx_list (s_cx s) = Some e" using at by (simp_all add: client_at_def)
  let ?N = "{b. w_next (s_w s) \<le> b}"
  from append_callback_queue [OF q, of "hs_env hs" ref] append_callback_elsewhere [OF q env, of ref] env
  obtain w where app: "append_callback (hs_env hs) (s_w s) (Some e) ref = Ok w"
    and w: "cb_queue w e (xs @ [(Suc (w_next (s_w s)), w_next (s_w s), ref)])" "same_rest (s_w s) w"
    and ag: "agree (s_w s) w {b. b < w_next (s_w s) \<and> b \<notin> cmd_footprint e xs}"
    by (auto simp: runs_iff)
  let ?s = "s\<lparr>s_w := w\<rparr>" and ?xs = "xs @ [(Suc (w_next (s_w s)), w_next (s_w s), ref)]"
  have fresh: "world_fresh (s_w s)" using q by (simp add: cb_queue_def)
  have "apart T (cmd_footprint e xs \<union> ?N)"
    using table_lt(1) [OF T fresh] by (intro apart_more table_atD(5) [OF T]) fastforce
  then have ap: "apart T (cmd_footprint e ?xs)"
    by (rule apart_less) (auto simp: cmd_footprint_def)
  have out: "footprint v \<subseteq> {b. b < w_next (s_w s) \<and> b \<notin> cmd_footprint e xs}" if "T k = Some v" for k v
    using table_lt(1) [OF T fresh that] old_part_apart(1) [OF table_atD(5) [OF T], of _ k] that by (auto simp: old_part_def)
  have "table_at T e ?xs ?s"
    by (rule table_at_frame [OF T]) (use w(2) ap agree_mono [OF ag out] in \<open>auto simp: same_rest_def\<close>)
  moreover have "client_at h fs ty u e ?xs ?s"
    using at w by (simp add: client_at_def connected_hand same_rest_def)
  ultimately have st1: "sub_state rd T b ign h fs ty u e ?s"
    using st w(2) by (auto simp: sub_state_def same_rest_def)
  obtain word names where argv: "argv = word # names" using pc by (cases argv) (auto simp: plain_call_def)
  obtain ws tm where ws: "split_callback hs args = (ws, ref)" "command_args hs ws [] [] = Ok (Ret (word # names, tm))"
    "length (encode (RArray (map RString (word # names)))) < 2 ^ 30" "command_kind word = Plain"
    using pc by (auto simp: plain_call_def argv)
  have "register_command hs ref names tm word s = Ok (False, ?s)"
    using ws(4) e app by (simp add: register_command_def)
  from command_runs [OF env ws(1-3) this] have "lua_client_command hs args s = send_command hs False (encode (RArray (map RString (word # names)))) ?s" .
  then show ?thesis
    by (simp only:) (rule runs_mono [OF sub_state_send [OF st1 env wr]], use w(2) in \<open>auto simp: same_rest_def\<close>)
qed

section \<open>Subscribing\<close>

text \<open>A call of \<open>command\<close> that subscribes one name: the channel or pattern and the callback.\<close>

definition subscription_of :: "host \<Rightarrow> larg list \<Rightarrow> ((bool \<times> bytes) \<times> int) option" where
  "subscription_of hs args =
     (case split_callback hs args of
        (ws, ref) \<Rightarrow>
          (case command_args hs ws [] [] of
             Ok (Ret ([word, name], [])) \<Rightarrow>
               (case command_kind word of
                  Subscribe pv \<Rightarrow>
                    if NUL \<notin> set name \<and> length (encode (RArray [RString word, RString name])) < 2 ^ 30
                    then Some ((pv, name), ref) else None
                | _ \<Rightarrow> None)
           | _ \<Rightarrow> None))"

lemma subscription_ofE:
  assumes "subscription_of hs args = Some (k, ref)"
  obtains pv name ws word where "k = (pv, name)" and "split_callback hs args = (ws, ref)"
    and "command_args hs ws [] [] = Ok (Ret ([word, name], []))" and "command_kind word = Subscribe pv"
    and "NUL \<notin> set name" and "length (encode (RArray (map RString [word, name]))) < 2 ^ 30"
  using assms
  by (auto simp: subscription_of_def simp del: encode.simps split: prod.splits cr.splits lua_result.splits list.splits
      command_kind.splits if_splits)

text \<open>A name that begins a longer subscribed one is not told apart from it.\<close>

definition no_longer_name :: "subs \<Rightarrow> bool \<times> bytes \<Rightarrow> bool" where
  "no_longer_name A k \<longleftrightarrow> (\<forall>n. A (fst k, n) \<noteq> [] \<longrightarrow> prefix (snd k) n \<longrightarrow> n = snd k)"

lemma table_named: "table_at T e xs s \<Longrightarrow> T k \<noteq> None \<longleftrightarrow> view hs T k \<noteq> []"
proof -
  assume T: "table_at T e xs s"
  obtain pv n where k: "k = (pv, n)" by (cases k)
  show ?thesis
    using table_atD(4) [OF T, of pv n] by (cases "T k") (auto simp: k view_def old_subs_def list_at_def)
qed

lemma view_subscribed:
  assumes "subscribed T k ref T'"
  shows "view hs T' = (view hs T)(k := view hs T k @ [(ref, dirty_flags hs)])"
  using assms by (auto simp: subscribed_def view_def old_subs_def fun_eq_iff)

lemma subscription_registers:
  assumes st: "sub_state rd T b ign h fs ty u e s" and env: "grants_all (hs_env hs)" and wr: "\<And>a b. hs_write hs a b = 0"
    and sc: "subscription_of hs args = Some (k, ref)" and "no_longer_name (view hs T) k"
  shows "runs (lua_client_command hs args s) (\<lambda>(res, s'). res = Ret 1 \<and> (\<exists>T'. view hs T' = (view hs T)(k := view hs T k @ [(ref, dirty_flags hs)]) \<and>
           sub_state rd T' b ign h fs ty u e s') \<and> calls s' = calls s \<and>
           (\<exists>req word. command_kind word = Subscribe (fst k) \<and> handle_context (s_w s') req = Ok () \<and>
              w_trace (s_w s') = w_trace (s_w s) @ [UvWrite req b (encode (RArray [RString word, RString (snd k)]))]))"
proof -
  obtain xs where at: "client_at h fs ty u e xs s" and T: "table_at T e xs s" using st by (auto simp: sub_state_def)
  from sc obtain pv name ws word where k: "k = (pv, name)" and ws: "split_callback hs args = (ws, ref)"
    "command_args hs ws [] [] = Ok (Ret ([word, name], []))" "length (encode (RArray (map RString [word, name]))) < 2 ^ 30"
    and kind: "command_kind word = Subscribe pv" and nul: "NUL \<notin> set name"
    by (rule subscription_ofE)
  have pre: "n = name" if "T (pv, n) \<noteq> None" "prefix name n" for n
    using assms(5) that table_named [OF T, of "(pv, n)"] by (simp add: no_longer_name_def k)
  have one: "runs (register_subscription (hs_env hs) pv ref [name] [] s) (\<lambda>s'. \<exists>T'. subscribed T (pv, name) ref T' \<and> table_at T' e xs s' \<and>
      client_at h fs ty u e xs s' \<and> same_context s s' \<and> w_hand (s_w s') = w_hand (s_w s) \<and> w_trace (s_w s') = w_trace (s_w s))"
    by (rule register_one [OF at T env nul]) (rule pre)
  have "runs (register_subscription (hs_env hs) pv ref [name] [] s) (\<lambda>s'. \<exists>T'. subscribed T k ref T' \<and>
      sub_state rd T' b ign h fs ty u e s' \<and> w_trace (s_w s') = w_trace (s_w s))"
  proof (rule runs_mono [OF one], elim exE conjE)
    fix s' T'
    assume s': "subscribed T (pv, name) ref T'" "table_at T' e xs s'" "client_at h fs ty u e xs s'" "same_context s s'"
      "w_hand (s_w s') = w_hand (s_w s)" "w_trace (s_w s') = w_trace (s_w s)"
    have "cx_sub_stream (s_cx s') = cx_sub_stream (s_cx s) \<and> cx_ignore_sub (s_cx s') = cx_ignore_sub (s_cx s)"
      using s'(4) by (auto simp: same_context_def)
    then have "sub_state rd T' b ign h fs ty u e s'" using st s' unfolding sub_state_def by metis
    with s' show "\<exists>T'. subscribed T k ref T' \<and> sub_state rd T' b ign h fs ty u e s' \<and> w_trace (s_w s') = w_trace (s_w s)" by (auto simp: k)
  qed
  then obtain s1 T' where reg: "register_subscription (hs_env hs) pv ref [name] [] s = Ok s1"
    and s1: "subscribed T k ref T'" "sub_state rd T' b ign h fs ty u e s1" "w_trace (s_w s1) = w_trace (s_w s)" by (auto simp: runs_iff)
  have "register_command hs ref [name] [] word s = Ok (True, s1)" using kind reg by (simp add: register_command_def)
  from command_runs [OF env ws this] have cmd: "lua_client_command hs args s =
      send_command hs True (encode (RArray (map RString [word, name]))) s1" .
  have eq: "map RString [word, name] = [RString word, RString name]" by simp
  show ?thesis
    unfolding cmd
  proof (rule runs_mono [OF sub_state_send [OF s1(2) env wr]], clarify)
    fix s'
    assume s': "sub_state rd T' b ign h fs ty u e s'" "calls s' = calls s1" "True \<longrightarrow> (\<exists>req. w_trace (s_w s') =
        w_trace (s_w s1) @ [UvWrite req b (encode (RArray (map RString [word, name])))] \<and> handle_context (s_w s') req = Ok ())"
    have "\<exists>req word. command_kind word = Subscribe (fst k) \<and> handle_context (s_w s') req = Ok () \<and>
        w_trace (s_w s') = w_trace (s_w s) @ [UvWrite req b (encode (RArray [RString word, RString (snd k)]))]"
      using s'(3) s1(3) kind unfolding eq k fst_conv snd_conv by metis
    with s' s1(3) view_subscribed [OF s1(1)]
    show "Ret 1 = Ret 1 \<and> (\<exists>T'. view hs T' = (view hs T)(k := view hs T k @ [(ref, dirty_flags hs)]) \<and> sub_state rd T' b ign h fs ty u e s') \<and>
        calls s' = calls s \<and> (\<exists>req word. command_kind word = Subscribe (fst k) \<and> handle_context (s_w s') req = Ok () \<and>
          w_trace (s_w s') = w_trace (s_w s) @ [UvWrite req b (encode (RArray [RString word, RString (snd k)]))])"
      by auto
  qed
qed

text \<open>A client that has connected has no subscriptions; its first write readies the stream for reading.\<close>

lemma sub_state_connected:
  assumes "client_at h fs ty u e xs s" and "cx_sub_stream (s_cx s) = Some b" and "b \<in> dom (w_hand (s_w s))"
    and "cx_channels (s_cx s) = Tip" and "cx_patterns (s_cx s) = Tip"
  shows "sub_state False (\<lambda>_. None) b (cx_ignore_sub (s_cx s)) h fs ty u e s"
  using assms by (auto simp: sub_state_def table_at_def tree_of_def apart_def)

lemma first_write:
  assumes st: "sub_state rd T b ign h fs ty u e s" and "handle_context (s_w s) req = Ok ()" and "0 \<le> hs_read_start hs b"
  shows "runs (on_write hs req b 0 s) (\<lambda>s'. sub_state True T b ign h fs ty u e s' \<and> calls s' = calls s)"
proof -
  obtain xs hn where at: "client_at h fs ty u e xs s" and T: "table_at T e xs s" and b: "w_hand (s_w s) b = Some hn"
    using st by (auto simp: sub_state_def)
  from on_write_runs [OF at b assms(2,3)] show ?thesis
  proof (rule runs_mono, elim conjE, intro conjI)
    fix s'
    assume s': "client_at h fs ty u e xs s'" "s_cx s' = s_cx s" "w_node (s_w s') = w_node (s_w s)"
      "w_hand (s_w s') = (w_hand (s_w s))(b \<mapsto> hn\<lparr>h_data := True\<rparr>)" "calls s' = calls s"
      "w_call (s_w s') = w_call (s_w s)" "w_ll (s_w s') = w_ll (s_w s)" "w_ends (s_w s') = w_ends (s_w s)"
      "w_chan (s_w s') = w_chan (s_w s)"
    have "table_at T e xs s'"
      by (rule table_at_frame [OF T]) (use s' table_atD(5) [OF T] in \<open>auto simp: agree_def\<close>)
    with s' st show "sub_state True T b ign h fs ty u e s'" by (auto simp: sub_state_def)
    show "calls s' = calls s" by (rule s'(5))
  qed
qed

section \<open>The specification of a subscriber\<close>

fun notices :: "host \<Rightarrow> bool \<Rightarrow> subs \<Rightarrow> resp list \<Rightarrow> (int \<times> lua list) list \<times> subs" where
  "notices hs ign A [] = ([], A)"
| "notices hs ign A (t # ts) =
     (case notice_step hs ign A t of (cs, A1) \<Rightarrow> case notices hs ign A1 ts of (ds, A2) \<Rightarrow> (cs @ ds, A2))"

fun all_expected :: "host \<Rightarrow> bool \<Rightarrow> subs \<Rightarrow> resp list \<Rightarrow> bool" where
  "all_expected hs ign A [] = True"
| "all_expected hs ign A (t # ts) = (expected hs A t \<and> all_expected hs ign (snd (notice_step hs ign A t)) ts)"

lemma steps_notices: "steps (sub_step hs ign) A ts cs A' \<longleftrightarrow> notices hs ign A ts = (cs, A')"
proof (induction ts arbitrary: A cs A')
  case Nil
  then show ?case by (auto elim: steps_NilE intro: steps_Nil)
next
  case (Cons t ts)
  obtain ds A1 where s: "notice_step hs ign A t = (ds, A1)" by fastforce
  obtain es A2 where n: "notices hs ign A1 ts = (es, A2)" by fastforce
  have st: "sub_step hs ign A t cs' B \<longleftrightarrow> cs' = ds \<and> B = A1" for cs' B using s by (auto simp: sub_step_def)
  have rest: "steps (sub_step hs ign) A1 ts cs' B \<longleftrightarrow> cs' = es \<and> B = A2" for cs' B
    unfolding Cons.IH n by auto
  have "cs = ds @ es \<and> A' = A2" if "steps (sub_step hs ign) A (t # ts) cs A'"
    using that by (rule steps_ConsE) (simp add: st rest)
  moreover have "steps (sub_step hs ign) A (t # ts) (ds @ es) A2"
    by (rule steps_Cons [of _ _ _ _ A1]) (simp_all only: st rest)
  ultimately have "steps (sub_step hs ign) A (t # ts) cs A' \<longleftrightarrow> cs = ds @ es \<and> A' = A2" by metis
  then show ?case by (auto simp only: notices.simps s n prod.case prod.inject)
qed

lemma takes_all_notices: "takes_all (expected hs) (sub_step hs ign) A ts = all_expected hs ign A ts"
  by (induction ts arbitrary: A) (auto simp: sub_step_def prod_eq_iff)

text \<open>
  Subscriptions, messages and other commands in any order. A new subscriber waits for its confirmation,
  except in memory where its unwritten flags look initialized. The server confirms only what is subscribed
  and sends messages only for subscribed names, and no name begins a longer one subscribed before.
\<close>

fun pubsub :: "host \<Rightarrow> bool \<Rightarrow> subs \<Rightarrow> frames \<Rightarrow> int \<Rightarrow> bytes \<Rightarrow> client_event list \<Rightarrow> (int \<times> lua list) list \<times> subs" where
  "pubsub hs ign A fs ty u [] = ([], A)"
| "pubsub hs ign A fs ty u (Issue args # evs) =
     pubsub hs ign (case subscription_of hs args of Some (k, ref) \<Rightarrow> A(k := A k @ [(ref, dirty_flags hs)]) | None \<Rightarrow> A) fs ty u evs"
| "pubsub hs ign A fs ty u (Arrive buf c # evs) =
     (case drain fs ty (u @ c) of
        (ts, Blocked fs1 ty1 u1) \<Rightarrow>
          (case notices hs ign A ts of (cs, A1) \<Rightarrow> case pubsub hs ign A1 fs1 ty1 u1 evs of (ds, A2) \<Rightarrow> (cs @ ds, A2))
      | _ \<Rightarrow> ([], A))"

fun fair_subs :: "host \<Rightarrow> bool \<Rightarrow> subs \<Rightarrow> frames \<Rightarrow> int \<Rightarrow> bytes \<Rightarrow> client_event list \<Rightarrow> bool" where
  "fair_subs hs ign A fs ty u [] = True"
| "fair_subs hs ign A fs ty u (Issue args # evs) =
     (case subscription_of hs args of
        Some (k, ref) \<Rightarrow> no_longer_name A k \<and> fair_subs hs ign (A(k := A k @ [(ref, dirty_flags hs)])) fs ty u evs
      | None \<Rightarrow> (\<exists>ref argv. plain_call hs args ref argv) \<and> fair_subs hs ign A fs ty u evs)"
| "fair_subs hs ign A fs ty u (Arrive buf c # evs) =
     (length u + length c < min (2 ^ 29) (hs_fuel hs) \<and>
      (case drain fs ty (u @ c) of
         (ts, Blocked fs1 ty1 u1) \<Rightarrow> all_expected hs ign A ts \<and> fair_subs hs ign (snd (notices hs ign A ts)) fs1 ty1 u1 evs
       | _ \<Rightarrow> False))"

definition subs_run :: "host \<Rightarrow> nat \<Rightarrow> bool \<Rightarrow> nat \<Rightarrow> (int \<times> lua list) list \<times> subs \<Rightarrow> snail \<Rightarrow> snail \<Rightarrow> bool" where
  "subs_run hs a ign e out s s' \<longleftrightarrow> calls s' = calls s @ fst out \<and>
     (\<exists>T h fs ty u. view hs T = snd out \<and> sub_state True T a ign h fs ty u e s')"

lemma pubsub_refines:
  assumes fr: "friendly hs" and env: "grants_all (hs_env hs)" and wr: "\<And>a b. hs_write hs a b = 0"
    and "sub_state True T a ign h fs ty u e s" and "drain fs ty u = ([], Blocked fs ty u)" and "fair_subs hs ign (view hs T) fs ty u evs"
  shows "runs (client_run hs a evs s) (subs_run hs a ign e (pubsub hs ign (view hs T) fs ty u evs) s)"
  using assms(4-)
proof (induction evs arbitrary: T h fs ty u s)
  case Nil
  then show ?case by (simp add: subs_run_def) blast
next
  case (Cons ev evs)
  show ?case
  proof (cases ev)
    case (Issue args)
    let ?A = "case subscription_of hs args of Some (k, ref) \<Rightarrow> (view hs T)(k := view hs T k @ [(ref, dirty_flags hs)]) | None \<Rightarrow> view hs T"
    have fair: "fair_subs hs ign ?A fs ty u evs" using Cons.prems(3) by (auto simp: Issue split: option.splits)
    have "runs (lua_client_command hs args s) (\<lambda>(res, s1). \<exists>T1. view hs T1 = ?A \<and> sub_state True T1 a ign h fs ty u e s1 \<and> calls s1 = calls s)"
    proof (cases "subscription_of hs args")
      case None
      then obtain ref argv where "plain_call hs args ref argv" using Cons.prems(3) by (auto simp: Issue)
      from plain_keeps_subs [OF Cons.prems(1) env wr this] show ?thesis by (rule runs_mono) (auto simp: None)
    next
      case (Some kr)
      obtain k ref where kr: "kr = (k, ref)" by (cases kr)
      have "no_longer_name (view hs T) k" using Cons.prems(3) by (simp add: Issue Some kr)
      from subscription_registers [OF Cons.prems(1) env wr Some [unfolded kr] this] show ?thesis
        by (rule runs_mono) (auto simp: Some kr)
    qed
    then show ?thesis
      unfolding client_run.simps Issue client_step.simps cbind_assoc runs_cbind
    proof (rule runs_mono, clarify)
      fix s1 T1
      assume s1: "view hs T1 = ?A" "sub_state True T1 a ign h fs ty u e s1" "calls s1 = calls s"
      have same: "subs_run hs a ign e out s1 = subs_run hs a ign e out s" for out
        using s1(3) by (simp add: subs_run_def fun_eq_iff)
      from Cons.IH [OF s1(2) Cons.prems(2)] fair
      have "runs (client_run hs a evs s1) (subs_run hs a ign e (pubsub hs ign (view hs T) fs ty u (Issue args # evs)) s)"
        by (simp add: s1(1) same)
      then show "runs (Ok s1) (\<lambda>x. runs (client_run hs a evs x) (subs_run hs a ign e (pubsub hs ign (view hs T) fs ty u (Issue args # evs)) s))"
        by simp
    qed
  next
    case (Arrive buf c)
    obtain ts f1 t1 u1 where dr: "drain fs ty (u @ c) = (ts, Blocked f1 t1 u1)" and ex: "all_expected hs ign (view hs T) ts"
      and lim: "length u + length c < min (2 ^ 29) (hs_fuel hs)"
      and fair: "fair_subs hs ign (snd (notices hs ign (view hs T) ts)) f1 t1 u1 evs"
      using Cons.prems(3) by (auto simp: Arrive split: prod.splits outcome.splits)
    have inv: "sub_inv hs a ign e (view hs T) h fs ty u s"
      using fr env Cons.prems(1) by (auto simp: sub_inv_def)
    from messages_in.chunk [OF inv Cons.prems(2) dr lim] ex
    have "runs (on_read hs a (int (length c)) buf c s) (messages_in.after hs a ign e (view hs T) h ts f1 t1 u1 s)"
      by (simp add: takes_all_notices)
    then show ?thesis
      unfolding client_run.simps Arrive client_step.simps runs_cbind
    proof (rule runs_mono)
      fix s1
      assume "messages_in.after hs a ign e (view hs T) h ts f1 t1 u1 s s1"
      then obtain cs T1 h1 where s1: "notices hs ign (view hs T) ts = (cs, view hs T1)" "sub_state True T1 a ign h1 f1 t1 u1 e s1" "calls s1 = calls s @ cs"
        by (auto simp: messages_in.after_def steps_notices sub_inv_def)
      have "runs (client_run hs a evs s1) (subs_run hs a ign e (pubsub hs ign (view hs T1) f1 t1 u1 evs) s1)"
        using Cons.IH [OF s1(2) drain_blocked_again [OF dr]] fair s1(1) by simp
      then show "runs (client_run hs a evs s1) (subs_run hs a ign e (pubsub hs ign (view hs T) fs ty u (Arrive buf c # evs)) s)"
      proof (rule runs_mono)
        fix s'
        obtain ds A2 where p: "pubsub hs ign (view hs T1) f1 t1 u1 evs = (ds, A2)" by fastforce
        assume "subs_run hs a ign e (pubsub hs ign (view hs T1) f1 t1 u1 evs) s1 s'"
        with s1(1,3) dr p show "subs_run hs a ign e (pubsub hs ign (view hs T) fs ty u (Arrive buf c # evs)) s s'"
          by (simp add: subs_run_def)
      qed
    qed
  qed
qed

end
