(* ===== verification/Snail_Correct.thy ===== *)
theory Snail_Correct
  imports Snail_Pubsub
begin

text \<open>
  Properties of the client: what a program that uses it can rely on, and the inputs and orders
  of events on which the code fails.
\<close>


section \<open>Replies and callbacks\<close>

text \<open>
  C1. Every reply reaches the callback of the command it answers: replies that arrive on the command
  stream, cut into any chunks, are handed to the pending callbacks first in first out, each
  with the Lua value of its reply, and when all is done the store of replies is as it was. The
  functions called may issue further commands.
\<close>

theorem replies_reach_callbacks:
  assumes "polite hs" and "grants_all (hs_env hs)"
    and "client_at h [] (- 1) [] e xs s" and "stream_ready a s"
    and "\<forall>t\<in>set ts. wf_resp 0 t" and "concat (map snd cs) = concat (map encode ts)"
    and "length (concat (map snd cs)) < min (2 ^ 29) (hs_fuel hs)" and "length ts \<le> length xs"
  shows "runs (on_reads hs a cs s) (\<lambda>s'.
           calls s' = calls s @ deliveries hs (zip (refs_of xs) ts) \<and>
           (\<exists>h' ys. client_at h' [] (- 1) [] e (drop (length ts) xs @ ys) s' \<and> rs_map h' = rs_map h))"
proof -
  have "drain [] (- 1) [] = ([], Blocked [] (- 1) [])" by (simp add: drain.simps prun.simps item_def)
  moreover have "drain [] (- 1) (concat (map snd cs)) = (ts, Blocked [] (- 1) [])"
    using assms(5,6) by (simp add: drain_encode)
  ultimately have "runs (on_reads hs a cs s) (delivered hs h [] (- 1) [] e xs ts s)"
    using assms by (intro on_reads_deliver) auto
  then show ?thesis by (rule runs_mono) (auto simp: delivered_def)
qed

theorem replies_reach_callbacks_witness:
  "\<exists>s a. calls s = [] \<and> runs (cbind (lua_client_command chatty_host [AStr ''GET'', ANum 5 ''5'', AFun 7] s) (\<lambda>(res, s).
       on_reads chatty_host a [((0, 64), ''+O''), ((0, 64), ''K'' @ crlf)] s)) (\<lambda>s'.
     calls s' = [(7, [LNil, LStr ''OK''])])"
proof -
  obtain s a e where s: "client_at empty_store [] (- 1) [] e [] s" "stream_ready a s" "calls s = []"
    by (rule ready_client)
  have "runs (lua_client_command chatty_host [AStr ''GET'', ANum 5 ''5'', AFun 7] s) (\<lambda>(res, s1).
      sent empty_store [] (- 1) [] e [] 7 (encode (RArray (map RString [''GET'', ''5'']))) s s1)"
    by (rule runs_mono [OF plain_call_sent [OF s(1) host_simps(2) host_simps(4) plain_calls(3)]]) auto
  then have "runs (cbind (lua_client_command chatty_host [AStr ''GET'', ANum 5 ''5'', AFun 7] s) (\<lambda>(res, s).
       on_reads chatty_host a [((0, 64), ''+O''), ((0, 64), ''K'' @ crlf)] s)) (\<lambda>s'.
     calls s' = [(7, [LNil, LStr ''OK''])])"
    unfolding runs_cbind
  proof (rule runs_mono, clarify)
    fix s1
    assume "sent empty_store [] (- 1) [] e [] 7 (encode (RArray (map RString [''GET'', ''5'']))) s s1"
    then obtain x c where s1: "client_at empty_store [] (- 1) [] e [(x, c, 7)] s1" "stream_ready a s1" "calls s1 = []"
      using s by (auto simp: sent_def keeps_def)
    from replies_reach_callbacks [OF chatty_polite host_simps(2) s1(1,2), of "[RStatus ''OK'']"
        "[((0, 64), ''+O''), ((0, 64), ''K'' @ crlf)]"]
    show "runs (on_reads chatty_host a [((0, 64), ''+O''), ((0, 64), ''K'' @ crlf)] s1)
        (\<lambda>s'. calls s' = [(7, [LNil, LStr ''OK''])])"
      using s1(3) by (auto simp: crlf_def elim!: runs_mono)
  qed
  with s(3) show ?thesis by blast
qed

text \<open>
  C2. The client implements its specification: on every run of commands and chunks in which the
  server sends no more replies than there are commands, the calls of Lua functions are
  those that the specification \<open>spec_run\<close> allows, and the client ends in a good state.
\<close>

theorem client_refines_spec:
  assumes "polite hs" and "grants_all (hs_env hs)" and "\<forall>a b. hs_write hs a b = 0"
    and "client_at h [] (- 1) [] e xs s" and "stream_ready a s"
    and "fair_input hs evs [] (- 1) [] (length xs)"
  shows "runs (client_run hs a evs s) (\<lambda>s'. \<exists>cs h' fs ty u ys.
           spec_run hs ([], - 1, []) (refs_of xs) evs cs (fs, ty, u) (refs_of ys) \<and>
           calls s' = calls s @ cs \<and> client_at h' fs ty u e ys s')"
proof -
  have "drain [] (- 1) [] = ([], Blocked [] (- 1) [])" by (simp add: drain.simps prun.simps item_def)
  then show ?thesis
    using assms by (intro runs_mono [OF client_run_refines [OF assms(1,2) _ assms(4,5)]]) (auto, blast)
qed

text \<open>Under the specification the callback of the first command gets the only reply.\<close>

lemma spec_example:
  assumes "spec_run chatty_host ([], - 1, []) [] [Issue [AStr ''PING'', AFun 3], Arrive (0, 64) ''+PO'',
         Issue [AStr ''PING'', AFun 4], Arrive (0, 64) (''NG'' @ crlf)] cs q refs"
  shows "cs = [(3, [LNil, LStr ''PONG''])]"
proof -
  have d: "drain [] (- 1) ''+PO'' = ([], Blocked [] REDIS_REPLY_STATUS ''PO'')"
    "drain [] REDIS_REPLY_STATUS (''PO'' @ ''NG'' @ crlf) = ([RStatus ''PONG''], Blocked [] (- 1) [])"
    by code_simp+
  have ref: "r = k" if "plain_call chatty_host [AStr ''PING'', AFun k] r argv" for r k argv
    using that by (simp add: plain_call_def split_callback_def)
  show ?thesis
    using assms d
    by (elim spec_run_IssueE spec_run_ArriveE spec_run_NilE) (auto simp: crlf_def dest!: ref)
qed

theorem client_refines_spec_witness:
  "\<exists>s a. calls s = [] \<and>
     runs (client_run chatty_host a [Issue [AStr ''PING'', AFun 3], Arrive (0, 64) ''+PO'',
         Issue [AStr ''PING'', AFun 4], Arrive (0, 64) (''NG'' @ crlf)] s) (\<lambda>s'.
       calls s' = [(3, [LNil, LStr ''PONG''])])"
proof -
  let ?evs = "[Issue [AStr ''PING'', AFun 3], Arrive (0, 64) ''+PO'',
      Issue [AStr ''PING'', AFun 4], Arrive (0, 64) (''NG'' @ crlf)]"
  obtain s a e where s: "client_at empty_store [] (- 1) [] e [] s" "stream_ready a s" "calls s = []"
    by (rule ready_client)
  have d: "drain [] (- 1) ''+PO'' = ([], Blocked [] REDIS_REPLY_STATUS ''PO'')"
    "drain [] REDIS_REPLY_STATUS (''PO'' @ ''NG'' @ crlf) = ([RStatus ''PONG''], Blocked [] (- 1) [])"
    by code_simp+
  have "fair_input chatty_host ?evs [] (- 1) [] (length ([] :: entry list))"
    using plain_calls(2) [of 3] plain_calls(2) [of 4] d by (auto simp: crlf_def)
  then have "runs (client_run chatty_host a ?evs s) (\<lambda>s'. \<exists>cs h' fs ty u ys.
      spec_run chatty_host ([], - 1, []) (refs_of ([] :: entry list)) ?evs cs (fs, ty, u) (refs_of ys) \<and>
      calls s' = calls s @ cs \<and> client_at h' fs ty u e ys s')"
    using s by (intro client_refines_spec chatty_polite) simp_all
  then have "runs (client_run chatty_host a ?evs s) (\<lambda>s'. calls s' = [(3, [LNil, LStr ''PONG''])])"
    by (rule runs_mono) (use s(3) spec_example in \<open>auto simp del: append_Cons\<close>)
  with s(3) show ?thesis by blast
qed


text \<open>
  C4. A new client gets connected: \<open>new\<close> and \<open>connect\<close> return and ask for two connections, and when
  both are reported, in either order, the client is connected, idle and has no commands.
\<close>

theorem session_connects:
  assumes "grants_all (hs_env hs)" and "world_fresh w"
  shows "runs (open_session hs path ignore w) (\<lambda>s. \<exists>a b q1 q2.
           w_trace (s_w s) = w_trace w @ [UvConnect q1 a, UvConnect q2 b] \<and> a \<noteq> b \<and>
           (\<forall>(p, q)\<in>{(q1, q2), (q2, q1)}.
              runs (cbind (on_connect hs p 0 s) (on_connect hs q 0)) (\<lambda>s'.
                client_at empty_store [] (- 1) [] (w_next w) [] s' \<and>
                cx_stream (s_cx s') = Some a \<and> cx_sub_stream (s_cx s') = Some b)))"
proof (rule runs_mono [OF open_session_connecting [OF assms(2,1)]], elim exE conjE)
  fix s a b q1 q2
  assume s: "connecting hs (w_next w) a b q1 q2 s" "w_trace (s_w s) = w_trace w @ [UvConnect q1 a, UvConnect q2 b]"
  have "runs (cbind (on_connect hs p 0 s) (on_connect hs q 0)) (\<lambda>s'.
      client_at empty_store [] (- 1) [] (w_next w) [] s' \<and>
      cx_stream (s_cx s') = Some a \<and> cx_sub_stream (s_cx s') = Some b)"
    if "connecting hs (w_next w) a b p q s" for p q
    using connected_twice [OF that] by (rule runs_mono) auto
  with s connecting_sym [OF s(1)] show "\<exists>a b q1 q2.
      w_trace (s_w s) = w_trace w @ [UvConnect q1 a, UvConnect q2 b] \<and> a \<noteq> b \<and>
      (\<forall>(p, q)\<in>{(q1, q2), (q2, q1)}.
         runs (cbind (on_connect hs p 0 s) (on_connect hs q 0)) (\<lambda>s'.
           client_at empty_store [] (- 1) [] (w_next w) [] s' \<and>
           cx_stream (s_cx s') = Some a \<and> cx_sub_stream (s_cx s') = Some b))"
    by (intro exI [of _ a] exI [of _ b] exI [of _ q1] exI [of _ q2]) (auto simp: connecting_def)
qed

theorem session_connects_witness:
  "runs (open_session quiet_host ''/tmp/redis.sock'' None queue_world) (\<lambda>s. \<exists>a b q1 q2.
     w_trace (s_w s) = [UvConnect q1 a, UvConnect q2 b] \<and>
     runs (cbind (on_connect quiet_host q2 0 s) (on_connect quiet_host q1 0)) (\<lambda>s'.
       client_at empty_store [] (- 1) [] 1 [] s'))"
proof -
  have "world_fresh queue_world" using queue_world_empty by (simp add: cb_queue_def)
  from session_connects [OF host_simps(1) this, of "''/tmp/redis.sock''" None] show ?thesis
    by (rule runs_mono) (fastforce simp: queue_world_def elim!: runs_mono)
qed

text \<open>
  C5. A command that is no subscription goes out whole: the bytes written are the protocol's encoding of
  its words, on the command stream, and its callback is the last of the pending ones.
\<close>

theorem command_sends_encoding:
  assumes "client_at h fs ty u e xs s" and "grants_all (hs_env hs)" and "\<forall>a b. hs_write hs a b = 0"
    and "plain_call hs args ref argv"
  shows "runs (lua_client_command hs args s) (\<lambda>(res, s'). res = Ret 1 \<and>
           (\<exists>x c. client_at h fs ty u e (xs @ [(x, c, ref)]) s') \<and>
           (\<exists>a req. cx_stream (s_cx s) = Some a \<and>
              w_trace (s_w s') = w_trace (s_w s) @ [UvWrite req a (encode (RArray (map RString argv)))]))"
  using assms by (intro runs_mono [OF plain_call_sent [OF assms(1,2) _ assms(4)]]) (auto simp: sent_def)

theorem command_sends_encoding_witness:
  "\<exists>s. runs (lua_client_command chatty_host [AStr ''GET'', ANum 5 ''5'', AFun 7] s) (\<lambda>(res, s'). res = Ret 1 \<and>
     (\<exists>a req. w_trace (s_w s') = w_trace (s_w s) @
        [UvWrite req a (''*2'' @ crlf @ ''$3'' @ crlf @ ''GET'' @ crlf @ ''$1'' @ crlf @ ''5'' @ crlf)]))"
proof -
  obtain s a e where s: "client_at empty_store [] (- 1) [] e [] s"
    by (rule ready_client)
  have "encode (RArray (map RString [''GET'', ''5''])) = ''*2'' @ crlf @ ''$3'' @ crlf @ ''GET'' @ crlf @ ''$1'' @ crlf @ ''5'' @ crlf"
    by (simp add: int_dec_def nat_dec_small three crlf_def)
  with command_sends_encoding [OF s host_simps(2) _ plain_calls(3) [of 7]] show ?thesis
    by (intro exI [of _ s]) (auto elim!: runs_mono simp del: encode.simps list.map)
qed

text \<open>
  C6. A reply as the reader hands it out becomes the Lua value of what was received: strings and
  states with all their bytes, integers, nil, errors as error tables, arrays as tables in
  order. For a subscription message the value leaves out the first element of every array and
  the key space prefix of every string.
\<close>

theorem received_reply_value:
  assumes "reader_state h fs ty u r" and "prun fs ty u = Done t u'" and "grants_all env"
  shows "runs (redisReaderGetReply env r) (\<lambda>(st, reply, r').
           runs (cbind (deref reply) (push_reply (Suc (rs_next (r_store r'))) (r_store r'))) (\<lambda>v. v = to_lua t) \<and>
           runs (cbind (deref reply) (push_sub_reply (Suc (rs_next (r_store r'))) (r_store r'))) (\<lambda>v. v = to_sub t))"
proof -
  obtain r' where get: "redisReaderGetReply env r = Ok (REDIS_OK, Some (rs_next h), r')"
    and st: "reader_state (store_of h (layout (rs_next h) t)) [] (- 1) u' r'"
    using getReply_done [OF assms] by blast
  have "r_store r' = store_of h (layout (rs_next h) t)" using reader_state_store [OF st] by simp
  with get push_reply_layout(1) [OF at_store_of] push_sub_reply_layout(1) [OF at_store_of] show ?thesis
    by (simp del: push_reply.simps push_sub_reply.simps)
qed

theorem received_reply_value_witness:
  "\<exists>r. runs (redisReaderGetReply libc_env r) (\<lambda>(st, reply, r').
     runs (cbind (deref reply) (push_sub_reply (Suc (rs_next (r_store r'))) (r_store r')))
       (\<lambda>v. v = LTable [(1, LStr ''k''), (2, LNum 7)]))"
proof -
  let ?b = "''*3'' @ crlf @ ''+m'' @ crlf @ ''$16'' @ crlf @ ''__keyspace@0__:k'' @ crlf @ '':7'' @ crlf"
  obtain r where st: "reader_state empty_store [] (- 1) ?b r"
    using sample_fed [of ?b] by (auto simp: crlf_def)
  have out: "prun [] (- 1) ?b = Done (RArray [RStatus ''m'', RString ''__keyspace@0__:k'', RInteger 7]) []"
    by code_simp
  have "to_sub (RArray [RStatus ''m'', RString ''__keyspace@0__:k'', RInteger 7]) = LTable [(1, LStr ''k''), (2, LNum 7)]"
    by code_simp
  with received_reply_value [OF st out grants_all_libc_env] show ?thesis
    by (intro exI [of _ r]) (auto elim!: runs_mono)
qed


section \<open>Subscriptions\<close>

text \<open>The example host with its chatty function is friendly; its memory is not dirty at the flags.\<close>

lemma chatty_friendly: "friendly chatty_host" and chatty_clean: "\<not> dirty_flags chatty_host"
proof -
  show "friendly chatty_host"
    unfolding friendly_def
  proof (intro allI impI)
    fix ref args rd T b ign h fs ty u e s
    assume st: "sub_state rd T b ign h fs ty u e s"
    from plain_keeps_subs [OF st host_simps(1) host_simps(3) plain_calls(1) [of 8]]
    have "runs (cbind (lua_client_command quiet_host [AStr ''PING'', AFun 8] s) (\<lambda>(res, s). Ok s))
        (\<lambda>s'. sub_state rd T b ign h fs ty u e s' \<and> calls s' = calls s)"
      unfolding runs_cbind by (rule runs_mono) auto
    with st show "runs (hs_lua chatty_host ref args s) (\<lambda>s'. sub_state rd T b ign h fs ty u e s' \<and> calls s' = calls s)"
      by (simp add: chatty_host_def)
  qed
  show "\<not> dirty_flags chatty_host"
    unfolding dirty_flags_def by code_simp
qed

text \<open>A client that calls its functions for confirmations too.\<close>

lemma connected_subscriber:
  obtains s b e where "sub_state False (\<lambda>_. None) b False empty_store [] (- 1) [] e s" and "calls s = []"
proof -
  have fresh: "world_fresh queue_world" using queue_world_empty by (simp add: cb_queue_def)
  obtain s a b q1 q2 where s: "connecting chatty_host 1 a b q1 q2 s" "w_trace (s_w s) = [UvConnect q1 a, UvConnect q2 b]"
    "\<not> cx_ignore_sub (s_cx s)"
    using open_session_connecting [OF fresh host_simps(2), of "''/tmp/redis.sock''" "Some False"]
    by (auto simp: runs_iff queue_world_def)
  obtain s1 where s1: "client_at empty_store [] (- 1) [] 1 [] s1" "cx_sub_stream (s_cx s1) = Some b"
    "cx_channels (s_cx s1) = Tip" "cx_patterns (s_cx s1) = Tip" "cx_ignore_sub (s_cx s1) = cx_ignore_sub (s_cx s)"
    "w_hand (s_w s1) = w_hand (s_w s)" "w_trace (s_w s1) = w_trace (s_w s)"
    using connected_twice [OF s(1)] by (auto simp: runs_iff)
  moreover have "b \<in> dom (w_hand (s_w s1))" using s(1) s1(6) by (simp add: connecting_def)
  ultimately show thesis
    using that sub_state_connected [of empty_store "[]" "- 1" "[]" 1 "[]" s1 b] s(2,3) by auto
qed

text \<open>
  C3. Subscriptions implement their specification: on every run in which the program subscribes
  names one at a time, issues other commands and the server confirms and sends messages, cut into
  any chunks, the Lua functions called, their arguments and their order are those that
  \<open>pubsub\<close> says. Nothing is assumed of the memory \<open>malloc\<close> returns, in which the code leaves the flags
  of a new callback unwritten: where it is dirty at the bit for an initialized callback
  (\<open>dirty_flags\<close>), \<open>pubsub\<close> takes every subscriber for confirmed from the start, so that its confirmation
  calls nothing and messages reach it at once.
\<close>

theorem subscriptions_refine_spec:
  assumes "friendly hs" and "grants_all (hs_env hs)" and "\<forall>a b. hs_write hs a b = 0"
    and "sub_state True T a ign h [] (- 1) [] e s" and "fair_subs hs ign (view hs T) [] (- 1) [] evs"
  shows "runs (client_run hs a evs s) (\<lambda>s'. calls s' = calls s @ fst (pubsub hs ign (view hs T) [] (- 1) [] evs) \<and>
           (\<exists>T' h' fs ty u. view hs T' = snd (pubsub hs ign (view hs T) [] (- 1) [] evs) \<and> sub_state True T' a ign h' fs ty u e s'))"
proof -
  have "drain [] (- 1) [] = ([], Blocked [] (- 1) [])" by (simp add: drain.simps prun.simps item_def)
  with assms(3) show ?thesis
    by (intro runs_mono [OF pubsub_refines [OF assms(1,2) _ assms(4) _ assms(5)]]) (auto simp: subs_run_def)
qed

lemma subscription_calls:
  "subscription_of chatty_host [AStr ''SUBSCRIBE'', AStr ''news'', AFun r] = Some ((False, ''news''), r)"
proof -
  have "command_kind ''SUBSCRIBE'' = Subscribe False" by code_simp
  moreover have "\<not> has_prefix ''SUBSCRIBE'' TIMER_EVENT" "\<not> has_prefix ''news'' TIMER_EVENT" "hs_max_stack chatty_host = 8000"
    by code_simp+
  ultimately show ?thesis
    by (simp add: subscription_of_def split_callback_def push_arg_def int_dec_def nat_dec_small crlf_def)
qed

text \<open>A run with a confirmation, a second subscription of the same name and a message in two chunks.\<close>

definition sample_conf :: bytes where
  "sample_conf = ''*3'' @ crlf @ ''$9'' @ crlf @ ''subscribe'' @ crlf @ ''$4'' @ crlf @ ''news'' @ crlf @ '':1'' @ crlf"

definition sample_msg :: bytes where
  "sample_msg = ''*3'' @ crlf @ ''$7'' @ crlf @ ''message'' @ crlf @ ''$4'' @ crlf @ ''news'' @ crlf @ ''$2'' @ crlf @ ''hi'' @ crlf"

definition sample_events :: "client_event list" where
  "sample_events = [Arrive (0, 64) sample_conf, Issue [AStr ''SUBSCRIBE'', AStr ''news'', AFun 6],
     Arrive (0, 64) (take 6 sample_msg), Arrive (0, 64) (drop 6 sample_msg)]"

definition sample_calls :: "(int \<times> lua list) list" where
  "sample_calls = [(5, [LNil, LTable [(1, LStr ''news''), (2, LNum 1)]]), (5, [LNil, LTable [(1, LStr ''news''), (2, LStr ''hi'')]]),
     (6, [LStr ''event received but not initialized''])]"

lemma subscriber_run:
  assumes A: "A = (\<lambda>_. [])((False, ''news'') := [(5, False)])"
  shows "fair_subs chatty_host False A [] (- 1) [] sample_events"
    and "fst (pubsub chatty_host False A [] (- 1) [] sample_events) = sample_calls"
proof -
  have d: "drain [] (- 1) sample_conf = ([RArray [RString ''subscribe'', RString ''news'', RInteger 1]], Blocked [] (- 1) [])"
    "drain [] (- 1) (take 6 sample_msg) = ([], Blocked [(3, [])] REDIS_REPLY_STRING ''7'')"
    "drain [(3, [])] REDIS_REPLY_STRING (''7'' @ drop 6 sample_msg) = ([RArray [RString ''message'', RString ''news'', RString ''hi'']], Blocked [] (- 1) [])"
    unfolding sample_conf_def sample_msg_def by code_simp+
  have v: "to_sub (RArray [RString ''subscribe'', RString ''news'', RInteger 1]) = LTable [(1, LStr ''news''), (2, LNum 1)]"
    "to_sub (RArray [RString ''message'', RString ''news'', RString ''hi'']) = LTable [(1, LStr ''news''), (2, LStr ''hi'')]"
    by code_simp+
  have len: "length sample_conf < 64" "length sample_msg < 64" by (simp_all add: sample_conf_def sample_msg_def crlf_def)
  have nt: "notice_of (RArray [RString ''subscribe'', RString ''news'', RInteger 1]) = Some (Confirmed (False, ''news''))"
    "notice_of (RArray [RString ''message'', RString ''news'', RString ''hi'']) = Some (Posted (False, ''news''))"
    by (simp_all add: before_NUL_def)
  have n1: "notice_step chatty_host False A (RArray [RString ''subscribe'', RString ''news'', RInteger 1]) =
      ([(5, [LNil, LTable [(1, LStr ''news''), (2, LNum 1)]])], A((False, ''news'') := [(5, True)]))"
    unfolding notice_step_def nt v by (simp add: A confirm_calls_def call_sub_def)
  let ?A = "A((False, ''news'') := [(5, True), (6, False)])"
  have n2: "notice_step chatty_host False ?A (RArray [RString ''message'', RString ''news'', RString ''hi'']) =
      ([(5, [LNil, LTable [(1, LStr ''news''), (2, LStr ''hi'')]]), (6, [LStr ''event received but not initialized''])], ?A)"
    unfolding notice_step_def nt v by (simp add: post_def call_sub_def message_args_def)
  have ex: "expected chatty_host A (RArray [RString ''subscribe'', RString ''news'', RInteger 1])"
    "expected chatty_host ?A (RArray [RString ''message'', RString ''news'', RString ''hi''])"
    unfolding expected_def nt by (simp_all add: A)
  have no: "no_longer_name (A((False, ''news'') := [(5, True)])) (False, ''news'')"
    by (simp add: no_longer_name_def A)
  show "fair_subs chatty_host False A [] (- 1) [] sample_events"
    unfolding sample_events_def using d n1 n2 ex no len
    by (simp add: subscription_calls chatty_clean del: notice_of.simps) (simp add: min_less_iff_disj)
  show "fst (pubsub chatty_host False A [] (- 1) [] sample_events) = sample_calls"
    unfolding sample_events_def sample_calls_def using d n1 n2 by (simp add: subscription_calls chatty_clean)
qed

theorem subscriptions_refine_spec_witness:
  "\<exists>s b. calls s = [] \<and>
     runs (lua_client_command chatty_host [AStr ''SUBSCRIBE'', AStr ''news'', AFun 5] s) (\<lambda>(res, s1). \<exists>req word.
       w_trace (s_w s1) = w_trace (s_w s) @ [UvWrite req b (encode (RArray [RString word, RString ''news'']))] \<and>
       runs (cbind (on_write chatty_host req b 0 s1) (client_run chatty_host b sample_events))
         (\<lambda>s'. calls s' = sample_calls))"
proof -
  let ?k = "(False, ''news'')" and ?A = "(\<lambda>_. [])((False, ''news'') := [(5, False)]) :: subs"
  obtain s b e where s: "sub_state False (\<lambda>_. None) b False empty_store [] (- 1) [] e s" "calls s = []"
    by (rule connected_subscriber)
  have empty: "view chatty_host (\<lambda>_. None) = (\<lambda>_. [])" by (simp add: view_def old_subs_def fun_eq_iff)
  have "no_longer_name (view chatty_host (\<lambda>_. None)) ?k" by (simp add: empty no_longer_name_def)
  note reg = subscription_registers [OF s(1) host_simps(2,4) subscription_calls this]
  show ?thesis
  proof (intro exI [of _ s] exI [of _ b] conjI s(2) runs_mono [OF reg], clarify)
    fix s1 T req word
    assume s1: "view chatty_host T = (view chatty_host (\<lambda>_. None))(?k := view chatty_host (\<lambda>_. None) ?k @ [(5, dirty_flags chatty_host)])"
      "sub_state False T b False empty_store [] (- 1) [] e s1" "calls s1 = calls s"
      "handle_context (s_w s1) req = Ok ()"
      and tr: "w_trace (s_w s1) = w_trace (s_w s) @ [UvWrite req b (encode (RArray [RString word, RString (snd ?k)]))]"
    have A: "view chatty_host T = ?A" using s1(1) by (simp add: empty chatty_clean)
    have "runs (cbind (on_write chatty_host req b 0 s1) (client_run chatty_host b sample_events))
         (\<lambda>s'. calls s' = sample_calls)"
      unfolding runs_cbind
    proof (rule runs_mono [OF first_write [OF s1(2,4)]], simp, elim conjE)
      fix s2
      assume s2: "sub_state True T b False empty_store [] (- 1) [] e s2" "calls s2 = calls s1"
      from subscriptions_refine_spec [OF chatty_friendly host_simps(2) _ s2(1) subscriber_run(1) [OF A]]
        subscriber_run(2) [OF A]
      show "runs (client_run chatty_host b sample_events s2)
         (\<lambda>s'. calls s' = sample_calls)"
        using s(2) s1(3) s2(2) by (auto elim!: runs_mono)
    qed
    with tr show "\<exists>req word. w_trace (s_w s1) = w_trace (s_w s) @ [UvWrite req b (encode (RArray [RString word, RString ''news'']))] \<and>
       runs (cbind (on_write chatty_host req b 0 s1) (client_run chatty_host b sample_events))
         (\<lambda>s'. calls s' = sample_calls)"
      by (intro exI [of _ req] exI [of _ word]) (simp only: snd_conv)
  qed
qed

end
