(* ===== verification/Snail_Calls.thy ===== *)
theory Snail_Calls
  imports Snail_Session
begin

text \<open>
  What the arguments of \<open>subscribe\<close> and \<open>command\<close> become: the keys with their prefixes, the
  words of the command and the intervals of timers, and the arguments that stop the program.
\<close>


section \<open>Numbers as text and back\<close>

lemma digit_char_simps [simp]:
  "d < 10 \<Longrightarrow> c_isdigit (digit_char d)" "d < 10 \<Longrightarrow> \<not> c_isspace (digit_char d)"
  "d < 10 \<Longrightarrow> digit_char d \<noteq> CHR ''-''" "d < 10 \<Longrightarrow> digit_char d \<noteq> CHR ''+''" "d < 10 \<Longrightarrow> digit_char d \<noteq> NUL"
proof -
  have "\<forall>d\<in>set [0..<10]. c_isdigit (digit_char d) \<and> \<not> c_isspace (digit_char d) \<and> digit_char d \<noteq> CHR ''-'' \<and>
      digit_char d \<noteq> CHR ''+'' \<and> digit_char d \<noteq> NUL"
    by code_simp
  then show "d < 10 \<Longrightarrow> c_isdigit (digit_char d)" "d < 10 \<Longrightarrow> \<not> c_isspace (digit_char d)"
    "d < 10 \<Longrightarrow> digit_char d \<noteq> CHR ''-''" "d < 10 \<Longrightarrow> digit_char d \<noteq> CHR ''+''" "d < 10 \<Longrightarrow> digit_char d \<noteq> NUL"
    by auto
qed

lemma nat_dec_value: "foldl (\<lambda>v c. 10 * v + (int (of_char c) - 48)) 0 (nat_dec n) = int n"
proof (induction n rule: nat_dec.induct)
  case (1 n)
  show ?case
  proof (cases "n < 10")
    case True
    then show ?thesis by (simp add: nat_dec_small)
  next
    case False
    then show ?thesis using 1 by (simp add: nat_dec_step zdiv_int zmod_int)
  qed
qed

lemma c_strtol_dec: "0 \<le> n \<Longrightarrow> n \<le> LLONG_MAX \<Longrightarrow> c_strtol (int_dec n) = n"
proof -
  assume n: "0 \<le> n" "n \<le> LLONG_MAX"
  have d: "c_isdigit c \<and> \<not> c_isspace c \<and> c \<noteq> CHR ''-'' \<and> c \<noteq> CHR ''+''" if "c \<in> set (nat_dec (nat n))" for c
    using nat_dec_digits [OF that] by auto
  obtain c cs where s: "nat_dec (nat n) = c # cs" by (cases "nat_dec (nat n)") (use nat_dec_nonempty in blast)+
  have all: "takeWhile c_isdigit (nat_dec (nat n)) = nat_dec (nat n)" using d by (simp add: takeWhile_eq_all_conv)
  have h: "\<not> c_isspace c" "c \<noteq> CHR ''-''" "c \<noteq> CHR ''+''" using d [of c] s by auto
  then have "dropWhile c_isspace (c # cs) = c # cs" by simp
  with n s h nat_dec_value [of "nat n"] all show ?thesis
    by (simp add: c_strtol_def int_dec_def Let_def LLONG_MIN_def LLONG_MAX_def)
qed

lemma int_dec_no_NUL: "0 \<le> n \<Longrightarrow> NUL \<notin> set (int_dec n)"
  using nat_dec_digits digit_char_simps(5) by (fastforce simp: int_dec_def)

section \<open>The keys of a subscription\<close>

lemma key_prefixes: "NUL \<notin> set TIMER_EVENT" "has_prefix (TIMER_EVENT @ k) TIMER_EVENT"
  "\<not> has_prefix (KEY_SPACE @ k) TIMER_EVENT" "\<not> has_prefix (KEY_EVENT @ k) TIMER_EVENT"
  by (auto simp: has_prefix_def TIMER_EVENT_def KEY_SPACE_def KEY_EVENT_def before_NUL_def)

text \<open>
  The key that an argument of \<open>subscribe\<close> becomes: a number is the interval of a timer, a string that
  has a prefix stays, an event name gets the prefix of key events and any other that of the key space.
\<close>

definition channel_key :: "host \<Rightarrow> larg \<Rightarrow> bytes" where
  "channel_key hs a =
     (case number_arg hs a of
        Some n \<Rightarrow> TIMER_EVENT @ int_dec n
      | None \<Rightarrow>
          (case lua_tolstring a of
             None \<Rightarrow> []
           | Some k \<Rightarrow>
               if has_prefix k KEY_SPACE \<or> has_prefix k KEY_EVENT \<or> has_prefix k TIMER_EVENT then k
               else (if before_NUL k \<in> set events then KEY_EVENT else KEY_SPACE) @ before_NUL k))"

definition good_key :: "host \<Rightarrow> larg \<Rightarrow> bool" where
  "good_key hs a \<longleftrightarrow> (\<exists>n. number_arg hs a = Some n \<and> 0 \<le> n) \<or> (number_arg hs a = None \<and> (\<exists>k. a = AStr k))"

lemma subscribe_arg_key:
  assumes "grants_all (hs_env hs)" and "good_key hs a"
  shows "subscribe_arg hs a = Ok (Ret (AStr (channel_key hs a)))"
proof (cases "number_arg hs a")
  case None
  with assms obtain k where "a = AStr k" by (auto simp: good_key_def)
  with None assms(1) show ?thesis by (auto simp: subscribe_arg_def channel_key_def add_key_prefix_def Let_def)
next
  case (Some n)
  with assms(2) have n: "0 \<le> n" by (auto simp: good_key_def)
  then have "int_dec n = nat_dec (nat n)" by (simp add: int_dec_def)
  then have "timeout_text hs n = Ok (int_dec n)"
    using n assms(1) by (simp add: timeout_text_def Let_def nat_dec_small)
  with Some assms(1) show ?thesis by (simp add: subscribe_arg_def channel_key_def add_key_prefix_def Let_def)
qed

lemma subscribe_args_keys:
  assumes "grants_all (hs_env hs)" and "\<forall>a\<in>set as. good_key hs a"
  shows "subscribe_args hs as = Ok (Ret (map (\<lambda>a. AStr (channel_key hs a)) as))"
  using assms(2) by (induction as) (simp_all add: subscribe_arg_key [OF assms(1)])

abbreviation is_timer :: "bytes \<Rightarrow> bool" where
  "is_timer k \<equiv> has_prefix k TIMER_EVENT"

text \<open>The words of a command and the timer keys among its arguments.\<close>

lemma command_args_words:
  assumes "length timers + length (filter is_timer ws) \<le> 100"
    and "length argv + length (filter (\<lambda>w. \<not> is_timer w) ws) < hs_max_stack hs"
  shows "command_args hs (map AStr ws @ as) argv timers =
    command_args hs as (argv @ filter (\<lambda>w. \<not> is_timer w) ws) (timers @ filter is_timer ws)"
  using assms by (induction ws arbitrary: argv timers) (auto simp: push_arg_def)

lemma command_args_overflow:
  assumes "length timers \<le> 100" and "100 < length timers + length (filter is_timer ws)"
    and "length argv + length (filter (\<lambda>w. \<not> is_timer w) ws) < hs_max_stack hs"
  shows "command_args hs (map AStr ws) argv timers = Flt OutOfBounds"
  using assms by (induction ws arbitrary: argv timers) (auto simp: push_arg_def split: if_splits)

lemma subscribe_word: "\<not> is_timer ''subscribe''" "command_kind ''subscribe'' = Subscribe False"
  by code_simp+

lemma subscribe_as_command:
  assumes "grants_all (hs_env hs)" and "\<forall>a\<in>set as. good_key hs a"
  shows "lua_client_subscribe hs (as @ [AFun r]) s =
    lua_client_command hs (map AStr (''subscribe'' # map (channel_key hs) as) @ [AFun r]) s"
  using subscribe_args_keys [OF assms] by (simp add: lua_client_subscribe_def comp_def)

lemma split_words: "split_callback hs (map AStr ws @ [AFun r]) = (map AStr ws, r)"
  by (simp add: split_callback_def)

section \<open>What a subscription does\<close>

text \<open>
  C18. The \<open>subscribe\<close> method: plain names become keys of the key space, event names keys of the key
  events, numbers timers, and names with a prefix stay; the channels are registered with the
  callback, the timers too, and the server is sent the channels only. A number is what
  \<open>lua_isnumber\<close> takes for one: a string that converts to a number too (\<open>number_arg\<close>), although the README
  keeps strings for key events and key spaces.
\<close>

theorem subscribe_registers:
  assumes "grants_all (hs_env hs)" and "\<forall>a\<in>set as. good_key hs a"
    and "length (filter is_timer (map (channel_key hs) as)) \<le> 100" and "length as + 1 < hs_max_stack hs"
    and "length (encode (RArray (map RString (''subscribe'' # filter (\<lambda>k. \<not> is_timer k) (map (channel_key hs) as))))) < 2 ^ 30"
  shows "lua_client_subscribe hs (as @ [AFun r]) s =
    cbind (register_subscription (hs_env hs) False r (filter (\<lambda>k. \<not> is_timer k) (map (channel_key hs) as))
        (filter is_timer (map (channel_key hs) as)) s)
      (send_command hs True (encode (RArray (map RString (''subscribe'' # filter (\<lambda>k. \<not> is_timer k) (map (channel_key hs) as))))))"
proof -
  let ?ks = "map (channel_key hs) as" and ?ws = "''subscribe'' # map (channel_key hs) as"
  let ?names = "filter (\<lambda>k. \<not> is_timer k) ?ks" and ?timers = "filter is_timer ?ks"
  have "length ?names + 1 < hs_max_stack hs" by (rule le_less_trans [OF _ assms(4)]) simp
  then have args: "command_args hs (map AStr ?ws) [] [] = Ok (Ret (''subscribe'' # ?names, ?timers))"
    using command_args_words [of "[]" ?ws "[]" hs "[]"] subscribe_word(1) assms(3) by simp
  have "lua_client_subscribe hs (as @ [AFun r]) s = lua_client_command hs (map AStr ?ws @ [AFun r]) s"
    by (rule subscribe_as_command [OF assms(1,2)])
  also have "\<dots> = cbind (register_command hs r ?names ?timers ''subscribe'' s)
      (\<lambda>(sub, s). send_command hs sub (encode (RArray (map RString (''subscribe'' # ?names)))) s)"
    by (rule command_steps [OF assms(1) split_words args assms(5)])
  also have "\<dots> = cbind (register_subscription (hs_env hs) False r ?names ?timers s)
      (send_command hs True (encode (RArray (map RString (''subscribe'' # ?names)))))"
    unfolding register_command_def subscribe_word command_kind.case cbind_assoc cbind.simps prod.case ..
  finally show ?thesis .
qed

lemma example_keys:
  "good_key quiet_host (AStr ''foo'')" "good_key quiet_host (AStr ''del'')" "good_key quiet_host (ANum 500 ''500'')"
  "channel_key quiet_host (AStr ''foo'') = ''__keyspace@0__:foo''" "channel_key quiet_host (AStr ''del'') = ''__keyevent@0__:del''"
  "channel_key quiet_host (ANum 500 ''500'') = ''__timer@0__:500''"
  "\<not> is_timer ''__keyspace@0__:foo''" "\<not> is_timer ''__keyevent@0__:del''" "is_timer ''__timer@0__:500''"
proof -
  have n: "hs_tonumber quiet_host t = None" for t by (simp add: quiet_host_def)
  have c: "TIMER_EVENT @ int_dec 500 = ''__timer@0__:500''" by code_simp
  have p: "\<not> has_prefix k KEY_SPACE \<and> \<not> has_prefix k KEY_EVENT \<and> \<not> is_timer k" if "k \<in> {''foo'', ''del''}" for k
    using that by (auto simp: has_prefix_def KEY_SPACE_def KEY_EVENT_def TIMER_EVENT_def before_NUL_def)
  have e: "before_NUL ''foo'' = ''foo''" "before_NUL ''del'' = ''del''" "''foo'' \<notin> set events" "''del'' \<in> set events"
    by (simp_all add: before_NUL_def events_def)
  show "channel_key quiet_host (AStr ''foo'') = ''__keyspace@0__:foo''" "channel_key quiet_host (AStr ''del'') = ''__keyevent@0__:del''"
    "channel_key quiet_host (ANum 500 ''500'') = ''__timer@0__:500''"
    using n c p e by (simp_all add: channel_key_def) (simp_all add: KEY_SPACE_def KEY_EVENT_def)
  show "\<not> is_timer ''__keyspace@0__:foo''" "\<not> is_timer ''__keyevent@0__:del''" "is_timer ''__timer@0__:500''"
    by code_simp+
qed (simp_all add: good_key_def quiet_host_def)

theorem subscribe_registers_witness:
  "\<forall>s. lua_client_subscribe quiet_host [AStr ''foo'', ANum 500 ''500'', AStr ''del'', AFun 5] s =
     cbind (register_subscription libc_env False 5 [''__keyspace@0__:foo'', ''__keyevent@0__:del''] [''__timer@0__:500''] s)
       (send_command quiet_host True (encode (RArray [RString ''subscribe'', RString ''__keyspace@0__:foo'', RString ''__keyevent@0__:del''])))"
proof -
  have "hs_max_stack quiet_host = 8000" "hs_env quiet_host = libc_env" by (simp_all add: quiet_host_def)
  moreover have "length (encode (RArray [RString ''subscribe'', RString ''__keyspace@0__:foo'', RString ''__keyevent@0__:del''])) < 100"
    by code_simp
  ultimately show ?thesis
    using subscribe_registers [OF host_simps(1), of "[AStr ''foo'', ANum 500 ''500'', AStr ''del'']" 5] example_keys
    by (simp del: encode.simps)
qed

text \<open>
  C19. The interval of a timer survives its text: the key that \<open>subscribe\<close> makes of a timeout gives
  the same number when the subscription is registered.
\<close>

theorem timer_key_roundtrip:
  assumes "number_arg hs a = Some n" and "0 \<le> n" and "n < 2 ^ 31" and "grants_all (hs_env hs)"
  shows "runs (subscribe_arg hs a) (\<lambda>res. \<exists>k. res = Ret (AStr k) \<and> is_timer k \<and> timer_interval k = n)"
proof -
  have "NUL \<notin> set (TIMER_EVENT @ int_dec n)" using int_dec_no_NUL [OF assms(2)] key_prefixes(1) by simp
  then have "before_NUL (TIMER_EVENT @ int_dec n) = TIMER_EVENT @ int_dec n"
    by (auto simp: before_NUL_def takeWhile_eq_all_conv)
  then have "timer_interval (TIMER_EVENT @ int_dec n) = n"
    using c_strtol_dec [of n] assms(2,3) by (simp add: timer_interval_def LLONG_MAX_def c_size_def)
  moreover have "subscribe_arg hs a = Ok (Ret (AStr (TIMER_EVENT @ int_dec n)))"
    using subscribe_arg_key [OF assms(4), of a] assms(1,2) by (simp add: good_key_def channel_key_def)
  ultimately show ?thesis using key_prefixes(2) by simp
qed

theorem timer_key_roundtrip_witness:
  "runs (subscribe_arg quiet_host (ANum 500 ''500'')) (\<lambda>res. \<exists>k. res = Ret (AStr k) \<and> timer_interval k = 500)"
  by (rule runs_mono [OF timer_key_roundtrip [of quiet_host "ANum 500 ''500''" 500]]) auto

text \<open>
  C20. No more than 100 timers: the keys of timers are kept in an array of 100, and a call with more of
  them writes behind its end.
\<close>

theorem too_many_timers:
  assumes "grants_all (hs_env hs)" and "\<forall>a\<in>set as. good_key hs a"
    and "100 < length (filter is_timer (map (channel_key hs) as))" and "length as + 1 < hs_max_stack hs"
  shows "lua_client_subscribe hs (as @ [AFun r]) s = Flt OutOfBounds"
proof -
  let ?ws = "''subscribe'' # map (channel_key hs) as"
  have "length (filter (\<lambda>k. \<not> is_timer k) (map (channel_key hs) as)) + 1 < hs_max_stack hs"
    by (rule le_less_trans [OF _ assms(4)]) simp
  then have "command_args hs (map AStr ?ws) [] [] = Flt OutOfBounds"
    using assms(3) subscribe_word(1) by (intro command_args_overflow) auto
  with split_words [of hs ?ws r] subscribe_as_command [OF assms(1,2)] show ?thesis
    by (simp add: lua_client_command_def)
qed

theorem too_many_timers_witness:
  "\<forall>s. lua_client_subscribe quiet_host (replicate 101 (ANum 500 ''500'') @ [AFun 5]) s = Flt OutOfBounds"
proof -
  have "hs_max_stack quiet_host = 8000" by (simp add: quiet_host_def)
  then show ?thesis
    using too_many_timers [OF host_simps(1), of "replicate 101 (ANum 500 ''500'')"] example_keys
    by (simp add: filter_replicate)
qed

text \<open>
  C21. An argument that is no string, number or table stops the program, whatever comes after it: it
  is compared with the timer prefix before it is checked, so that \<open>strncmp\<close> gets a NULL pointer
  where the code means to raise an error of Lua.
\<close>

theorem bad_argument_crashes:
  assumes "lua_tolstring a = None" and "\<nexists>xs. a = ATable xs"
    and "length (filter is_timer ws) \<le> 100" and "length ws < hs_max_stack hs"
  shows "lua_client_command hs (map AStr ws @ [a] @ as @ [AFun r]) s = Flt NullDeref"
proof -
  have "length (filter (\<lambda>k. \<not> is_timer k) ws) < hs_max_stack hs"
    by (rule le_less_trans [OF length_filter_le assms(4)])
  then have "command_args hs (map AStr ws @ a # as) [] [] =
      command_args hs (a # as) (filter (\<lambda>w. \<not> is_timer w) ws) (filter is_timer ws)"
    using assms(3) command_args_words [of "[]" ws "[]" hs] by simp
  also have "\<dots> = Flt NullDeref" using assms(1,2) by (cases a) simp_all
  finally show ?thesis by (simp add: lua_client_command_def split_callback_def butlast_append)
qed

theorem bad_argument_crashes_witness:
  "\<forall>s. lua_client_command quiet_host [AStr ''SET'', AStr ''k'', AOther, AFun 5] s = Flt NullDeref"
proof -
  have "hs_max_stack quiet_host = 8000" "\<not> is_timer ''SET''" "\<not> is_timer ''k''"
    by (simp add: quiet_host_def, code_simp+)
  then show ?thesis using bad_argument_crashes [of AOther "[''SET'', ''k'']" quiet_host "[]" 5] by simp
qed

end
