(* ===== verification/Snail_Register.thy ===== *)
theory Snail_Register
  imports Snail_Client Cb_Release
begin

text \<open>
  Subscriptions of a client and their release: \<open>register_subscription\<close> with any names and intervals
  keeps the count of every callback (\<open>register_runs_held\<close>), and \<open>release_callbacks\<close> gives back the
  store as it was without them (\<open>release_runs\<close>).
\<close>

section \<open>The subscriptions of a client\<close>

definition all_nodes :: "snail \<Rightarrow> nat list" where
  "all_nodes s = nodes (cx_channels (s_cx s)) @ nodes (cx_patterns (s_cx s)) @ nodes (cx_timers (s_cx s))"

definition subs_at :: "world \<Rightarrow> (nat \<Rightarrow> cells) \<Rightarrow> nat set \<Rightarrow> snail \<Rightarrow> bool" where
  "subs_at w0 L C s \<longleftrightarrow> subs_over w0 (s_w s) L (all_nodes s) C \<and> name_tree (s_w s) (cx_channels (s_cx s)) \<and>
     name_tree (s_w s) (cx_patterns (s_cx s)) \<and> timer_tree (s_w s) (cx_timers (s_cx s))"

definition sub_cells :: "(nat \<Rightarrow> cells) \<Rightarrow> snail \<Rightarrow> cells" where
  "sub_cells L s = cells_of L (all_nodes s)"

definition attached :: "(nat \<Rightarrow> cells) \<Rightarrow> snail \<Rightarrow> nat set" where
  "attached L s = snd ` set (sub_cells L s)"

definition slots :: "world \<Rightarrow> nat \<Rightarrow> nat option list option" where
  "slots w c = map_option cb_channels (w_call w c)"

definition quiet :: "world \<Rightarrow> world \<Rightarrow> bool" where
  "quiet w w' \<longleftrightarrow> w_hand w' = w_hand w \<and> w_reqs w' = w_reqs w \<and> w_bufs w' = w_bufs w \<and> w_trace w' = w_trace w"

definition only_subs :: "snail \<Rightarrow> snail \<Rightarrow> bool" where
  "only_subs s s' \<longleftrightarrow> quiet (s_w s) (s_w s') \<and>
     (s_cx s')\<lparr>cx_channels := Tip, cx_patterns := Tip, cx_timers := Tip\<rparr> = (s_cx s)\<lparr>cx_channels := Tip, cx_patterns := Tip, cx_timers := Tip\<rparr>"

lemma only_subs_refl [simp]: "only_subs s s"
  by (simp add: only_subs_def quiet_def)

lemma only_subs_trans: "only_subs s s1 \<Longrightarrow> only_subs s1 s2 \<Longrightarrow> only_subs s s2"
  by (simp add: only_subs_def quiet_def)

lemma tree_cong:
  assumes "w_node w' = w_node w"
  shows "name_tree w' t = name_tree w t" and "timer_tree w' t = timer_tree w t"
  using assms by (induction t) simp_all

lemma search_timer_cong: "w_node w' = w_node w \<Longrightarrow> search_timer w' key t = search_timer w key t"
  by (induction t) (simp_all cong: if_cong)

lemma all_nodes_world [simp]: "all_nodes (s\<lparr>s_w := w\<rparr>) = all_nodes s"
  by (simp add: all_nodes_def)

lemma subs_at_world:
  assumes "subs_at w0 L C s" and "subs_over w0 w L' (all_nodes s) C'" and "w_node w = w_node (s_w s)"
  shows "subs_at w0 L' C' (s\<lparr>s_w := w\<rparr>)"
  using assms tree_cong [OF assms(3)] by (simp add: subs_at_def)

text \<open>The intervals that have a node in the tree of timers.\<close>

definition timer_keys :: "snail \<Rightarrow> int set" where
  "timer_keys s = {k. \<exists>a nd. a \<in> set (nodes (cx_timers (s_cx s))) \<and> w_node (s_w s) a = Some nd \<and> n_ikey nd = Some k}"

lemma timer_keys_cong: "w_node (s_w s') = w_node (s_w s) \<Longrightarrow> cx_timers (s_cx s') = cx_timers (s_cx s) \<Longrightarrow> timer_keys s' = timer_keys s"
  by (simp add: timer_keys_def)

lemma timer_tree_nodes: "timer_tree w t \<Longrightarrow> a \<in> set (nodes t) \<Longrightarrow> \<exists>nd. w_node w a = Some nd"
  by (induction t) auto

lemma timer_keys_grows:
  assumes "timer_tree (s_w s) (cx_timers (s_cx s))" and "grows (s_w s) (s_w s')" and "cx_timers (s_cx s') = cx_timers (s_cx s)"
  shows "timer_keys s' = timer_keys s"
proof -
  have "w_node (s_w s') a = w_node (s_w s) a" if "a \<in> set (nodes (cx_timers (s_cx s)))" for a
    using timer_tree_nodes [OF assms(1) that] grows_node [OF assms(2)] by auto
  then show ?thesis using assms(3) by (auto simp: timer_keys_def)
qed

section \<open>A leaf for a name, and one for an interval\<close>

abbreviation set_tree :: "bool \<Rightarrow> ctree \<Rightarrow> snail \<Rightarrow> snail" where
  "set_tree pv t s \<equiv> upd_cx s (\<lambda>cx. if pv then cx\<lparr>cx_patterns := t\<rparr> else cx\<lparr>cx_channels := t\<rparr>)"

abbreviation name_root :: "bool \<Rightarrow> snail \<Rightarrow> ctree" where
  "name_root pv s \<equiv> if pv then cx_patterns (s_cx s) else cx_channels (s_cx s)"

lemma subs_new_node:
  assumes s: "subs_at w0 L C s" and env: "grants_all env" and w': "w' = snd (snd (snd (new_node env (s_w s) nd st)))"
    and m: "mset (all_nodes s') = add_mset (w_next (s_w s)) (mset (all_nodes s))" and sw: "s_w s' = w'"
  shows "subs_over w0 w' (L(w_next (s_w s) := [])) (all_nodes s') C" and "quiet (s_w s) w'" and "w_call w' = w_call (s_w s)"
    and "mset (sub_cells (L(w_next (s_w s) := [])) s') = mset (sub_cells L s)"
    and "grows (s_w s) w'"
proof -
  let ?a = "w_next (s_w s)"
  have over: "subs_over w0 (s_w s) L (all_nodes s) C" using s by (simp add: subs_at_def)
  note new = subs_node [OF over env w']
  show "w_call w' = w_call (s_w s)" by (rule new(2))
  have order: "mset (?a # all_nodes s) = mset (all_nodes s')" by (simp add: m)
  show "subs_over w0 w' (L(?a := [])) (all_nodes s') C" by (rule subs_order [OF new(1) order])
  have fresh: "world_fresh (s_w s)" using over by (simp add: subs_over_def)
  show g: "grows (s_w s) w'" using new_node_grows [OF fresh, of env nd st] env w' by auto
  then show "quiet (s_w s) w'" by (simp add: quiet_def grows_def)
  show "mset (sub_cells (L(?a := [])) s') = mset (sub_cells L s)"
    unfolding sub_cells_def using cells_of_order [OF order, of "L(?a := [])"] new(3) by (simp del: cells_of_simps)
qed

text \<open>An insertion gives a leaf and leaves the cells as they are.\<close>

definition leafed :: "int set \<Rightarrow> world \<Rightarrow> (nat \<Rightarrow> cells) \<Rightarrow> nat set \<Rightarrow> snail \<Rightarrow> (nat \<Rightarrow> cells) \<Rightarrow> nat \<Rightarrow> snail \<Rightarrow> bool" where
  "leafed ks w0 L C s L' a s' \<longleftrightarrow> subs_at w0 L' C s' \<and> a \<in> set (all_nodes s') \<and> mset (sub_cells L' s') = mset (sub_cells L s) \<and>
     w_call (s_w s') = w_call (s_w s) \<and> only_subs s s' \<and> timer_keys s' \<subseteq> timer_keys s \<union> ks"

lemma name_leaf:
  assumes s: "subs_at w0 L C s" and env: "grants_all env"
  shows "\<exists>t a w L'. tree_insert env (s_w s) (name_root pv s) key = Ok (SNAIL_OK, t, Some a, w) \<and>
           leafed {} w0 L C s L' a (set_tree pv t (s\<lparr>s_w := w\<rparr>))"
proof -
  have trees: "name_tree (s_w s) (name_root pv s)" "name_tree (s_w s) (cx_channels (s_cx s))" "name_tree (s_w s) (cx_patterns (s_cx s))"
    "timer_tree (s_w s) (cx_timers (s_cx s))" and over: "subs_over w0 (s_w s) L (all_nodes s) C"
    using s by (auto simp: subs_at_def)
  then have fresh: "world_fresh (s_w s)" by (simp add: subs_over_def)
  from tree_insert_leaf [OF trees(1) env, of key] show ?thesis
  proof
    assume "\<exists>a\<in>set (nodes (name_root pv s)). tree_insert env (s_w s) (name_root pv s) key = Ok (SNAIL_OK, name_root pv s, Some a, s_w s)"
    then obtain a where a: "a \<in> set (nodes (name_root pv s))"
      "tree_insert env (s_w s) (name_root pv s) key = Ok (SNAIL_OK, name_root pv s, Some a, s_w s)" by blast
    have "set_tree pv (name_root pv s) (s\<lparr>s_w := s_w s\<rparr>) = s" by (simp add: upd_cx_def)
    moreover have "a \<in> set (all_nodes s)" using a(1) by (auto simp: all_nodes_def split: if_splits)
    ultimately have "leafed {} w0 L C s L a (set_tree pv (name_root pv s) (s\<lparr>s_w := s_w s\<rparr>))" using s by (simp only: leafed_def only_subs_refl Un_upper1)
    with a(2) show ?thesis by blast
  next
    let ?nd = "\<lparr>n_key = Some key, n_ikey = None, n_cb_list = None, n_data = None\<rparr>" and ?a = "w_next (s_w s)"
    let ?w = "snd (snd (snd (new_node env (s_w s) ?nd SNAIL_OK)))"
    assume "\<exists>t. tree_insert env (s_w s) (name_root pv s) key = Ok (SNAIL_OK, t, Some ?a, ?w) \<and>
      mset (nodes t) = add_mset ?a (mset (nodes (name_root pv s)))"
    then obtain t where t: "tree_insert env (s_w s) (name_root pv s) key = Ok (SNAIL_OK, t, Some ?a, ?w)"
      "mset (nodes t) = add_mset ?a (mset (nodes (name_root pv s)))" by blast
    let ?s = "set_tree pv t (s\<lparr>s_w := ?w\<rparr>)"
    have m: "mset (all_nodes ?s) = add_mset ?a (mset (all_nodes s))" using t(2) by (auto simp: all_nodes_def upd_cx_def)
    note new = subs_new_node [OF s env refl m]
    have "name_tree ?w t" using tree_insert_ok [OF trees(1) fresh env, of key] t(1) by (simp add: name_inserted_def)
    moreover have "name_tree ?w (cx_channels (s_cx s))" "name_tree ?w (cx_patterns (s_cx s))" "timer_tree ?w (cx_timers (s_cx s))"
      using name_tree_grows [OF trees(2) new(5)] name_tree_grows [OF trees(3) new(5)] timer_tree_grows [OF trees(4) new(5)] by simp_all
    ultimately have "subs_at w0 (L(?a := [])) C ?s" using new(1) by (cases pv) (simp_all add: subs_at_def)
    moreover have "?a \<in> set (all_nodes ?s)" by (simp only: set_mset_mset [symmetric] m union_single_eq_member)
    moreover have "only_subs s ?s" using new(2) by (simp add: only_subs_def upd_cx_def)
    moreover have "timer_keys ?s = timer_keys s" using new(5) trees(4) by (intro timer_keys_grows) simp_all
    ultimately have "leafed {} w0 L C s (L(?a := [])) ?a ?s" using new(3,4) by (simp add: leafed_def)
    with t(1) show ?thesis by blast
  qed
qed


abbreviation set_timers :: "ctree \<Rightarrow> snail \<Rightarrow> snail" where
  "set_timers t s \<equiv> upd_cx s (\<lambda>cx. cx\<lparr>cx_timers := t\<rparr>)"

lemma timer_leaf:
  assumes s: "subs_at w0 L C s" and env: "grants_all env"
  shows "key \<in> timer_keys s \<and> (\<exists>a. insert_timer env (s_w s) (cx_timers (s_cx s)) key = Ok (0, cx_timers (s_cx s), Some a, s_w s)) \<or>
         (\<exists>t a w L'. insert_timer env (s_w s) (cx_timers (s_cx s)) key = Ok (2, t, Some a, w) \<and>
           leafed {key} w0 L C s L' a (set_timers t (s\<lparr>s_w := w\<rparr>)))"
proof -
  have trees: "name_tree (s_w s) (cx_channels (s_cx s))" "name_tree (s_w s) (cx_patterns (s_cx s))"
    "timer_tree (s_w s) (cx_timers (s_cx s))" and over: "subs_over w0 (s_w s) L (all_nodes s) C"
    using s by (auto simp: subs_at_def)
  then have fresh: "world_fresh (s_w s)" by (simp add: subs_over_def)
  let ?nd = "\<lparr>n_key = None, n_ikey = Some key, n_cb_list = None, n_data = None\<rparr>" and ?a = "w_next (s_w s)"
  let ?w = "snd (snd (snd (new_node env (s_w s) ?nd 2)))"
  from insert_timer_leaf [OF trees(3) env, of key] show ?thesis
  proof
    assume "\<exists>t. insert_timer env (s_w s) (cx_timers (s_cx s)) key = Ok (2, t, Some ?a, ?w) \<and>
      mset (nodes t) = add_mset ?a (mset (nodes (cx_timers (s_cx s))))"
    then obtain t where t: "insert_timer env (s_w s) (cx_timers (s_cx s)) key = Ok (2, t, Some ?a, ?w)"
      "mset (nodes t) = add_mset ?a (mset (nodes (cx_timers (s_cx s))))" by blast
    let ?s = "set_timers t (s\<lparr>s_w := ?w\<rparr>)"
    have m: "mset (all_nodes ?s) = add_mset ?a (mset (all_nodes s))" using t(2) by (auto simp: all_nodes_def upd_cx_def)
    note new = subs_new_node [OF s env refl m]
    have "timer_tree ?w t" using insert_timer_ok [OF trees(3) fresh env, of key] t(1) by (simp add: timer_inserted_def)
    then have "subs_at w0 (L(?a := [])) C ?s"
      using new(1) name_tree_grows [OF _ new(5)] trees by (simp add: subs_at_def upd_cx_def)
    moreover have "?a \<in> set (all_nodes ?s)" by (simp only: set_mset_mset [symmetric] m union_single_eq_member)
    moreover have "only_subs s ?s" using new(2) by (simp add: only_subs_def upd_cx_def)
    moreover have "timer_keys ?s \<subseteq> timer_keys s \<union> {key}"
    proof -
      have n: "set (nodes t) = insert ?a (set (nodes (cx_timers (s_cx s))))" using t(2) by (metis set_mset_add_mset_insert set_mset_mset)
      have "w_node ?w b = w_node (s_w s) b" if "b \<in> set (nodes (cx_timers (s_cx s)))" for b
        using timer_tree_nodes [OF trees(3) that] grows_node [OF new(5)] by auto
      moreover have "\<exists>nd. w_node ?w ?a = Some nd \<and> n_ikey nd = Some key" by (simp add: new_node_def Let_def put_defs)
      ultimately show ?thesis using n by (auto simp: timer_keys_def upd_cx_def)
    qed
    ultimately have "leafed {key} w0 L C s (L(?a := [])) ?a ?s" using new(3,4) by (simp add: leafed_def)
    with t(1) show ?thesis by blast
  next
    assume "\<exists>a\<in>set (nodes (cx_timers (s_cx s))). (\<exists>nd. w_node (s_w s) a = Some nd \<and> n_ikey nd = Some key) \<and>
      insert_timer env (s_w s) (cx_timers (s_cx s)) key = Ok (SNAIL_OK, cx_timers (s_cx s), Some a, s_w s)"
    then show ?thesis by (auto simp: cb_flag_defs timer_keys_def)
  qed
qed

section \<open>Attaching a callback\<close>

lemma attach_runs:
  assumes s: "subs_at w0 L C s" and env: "grants_all env" and a: "a \<in> set (all_nodes s)" and c: "c \<in> C"
    and room: "length (sub_cells L s) + 1 < 2 ^ 31"
  obtains L' w where "attach_callback env (s_w s) c (Some a) = Ok w" and "subs_at w0 L' C (s\<lparr>s_w := w\<rparr>)"
    and "slots w = slots (s_w s)" and "only_subs s (s\<lparr>s_w := w\<rparr>)" and "w_node w = w_node (s_w s)"
    and "length (sub_cells L' (s\<lparr>s_w := w\<rparr>)) = length (sub_cells L s) + 1"
    and "attached L' (s\<lparr>s_w := w\<rparr>) = insert c (attached L s)"
proof -
  have over: "subs_over w0 (s_w s) L (all_nodes s) C" using s by (simp add: subs_at_def)
  then have at: "nodes_at (s_w s) L (all_nodes s)" by (simp add: subs_over_def)
  then obtain nd where nd: "w_node (s_w s) a = Some nd" "n_cb_list nd = Some (Suc a)" using a by (auto simp: nodes_at_def)
  let ?x = "w_next (s_w s)" and ?L = "L(a := L a @ [(w_next (s_w s), c)])"
  obtain w where w: "push_cb (put_ll (bump (s_w s)) ?x \<lparr>ll_cb = c, ll_next = None\<rparr>) (Some (Suc a)) (Some ?x) = Ok w"
    "subs_over w0 w ?L (all_nodes s) C" "w_node w = w_node (s_w s)"
    "\<And>d. map_option cb_channels (w_call w d) = map_option cb_channels (w_call (s_w s) d)" "same_rest (s_w s) w"
    by (rule subs_push [OF over a c room [unfolded sub_cells_def]]) blast
  have ms: "mset (sub_cells ?L s) = add_mset (?x, c) (mset (sub_cells L s))"
    unfolding sub_cells_def using at a by (intro cells_push) (simp_all add: nodes_at_def)
  have "sub_cells ?L (s\<lparr>s_w := w\<rparr>) = sub_cells ?L s" by (simp add: sub_cells_def)
  moreover have "set (sub_cells ?L s) = insert (?x, c) (set (sub_cells L s))" using ms by (metis set_mset_mset set_mset_add_mset_insert)
  moreover have "length (sub_cells ?L s) = length (sub_cells L s) + 1" using ms by (metis size_mset size_add_mset Suc_eq_plus1)
  moreover have "attach_callback env (s_w s) c (Some a) = Ok w"
    using w(1) nd env by (simp add: attach_callback_def wrap_cb_def put_defs)
  moreover have "slots w = slots (s_w s)" using w(4) by (simp add: fun_eq_iff slots_def)
  moreover have "only_subs s (s\<lparr>s_w := w\<rparr>)" using w(5) by (simp add: only_subs_def quiet_def same_rest_def)
  ultimately show thesis using that [of w ?L] subs_at_world [OF s w(2,3)] w(3) by (simp add: attached_def)
qed

section \<open>One name, one interval\<close>

text \<open>A callback that gets its channels: the first places hold channels, \<open>m\<close> are still free.\<close>

definition filling :: "world \<Rightarrow> (nat \<Rightarrow> cells) \<Rightarrow> nat set \<Rightarrow> nat \<Rightarrow> nat list \<Rightarrow> nat \<Rightarrow> snail \<Rightarrow> bool" where
  "filling w0 L C c hs m s \<longleftrightarrow> subs_at w0 L C s \<and> c \<in> C \<and> slots (s_w s) c = Some (map Some hs @ replicate m None) \<and>
     (\<forall>d\<in>C - {c}. full (s_w s) d)"

definition more_cells :: "int set \<Rightarrow> nat \<Rightarrow> (nat \<Rightarrow> cells) \<Rightarrow> snail \<Rightarrow> (nat \<Rightarrow> cells) \<Rightarrow> snail \<Rightarrow> bool" where
  "more_cells ks c L s L' s' \<longleftrightarrow> length (sub_cells L' s') \<le> length (sub_cells L s) + 1 \<and> only_subs s s' \<and>
     attached L s \<subseteq> attached L' s' \<and> attached L' s' \<subseteq> insert c (attached L s) \<and> timer_keys s' \<subseteq> timer_keys s \<union> ks"

lemma full_eq: "slots w' d = slots w d \<Longrightarrow> full w' d = full w d"
  unfolding slots_def by (rule full_slots)

text \<open>The channel of the next place.\<close>

lemma filling_channel:
  assumes f: "filling w0 L C c hs (Suc m) s"
  obtains w where "set_channel (put_chan (bump (s_w s)) (w_next (s_w s)) x) c (length hs) (Some (w_next (s_w s))) = Ok w"
    and "filling w0 L C c (hs @ [w_next (s_w s)]) m (s\<lparr>s_w := w\<rparr>)" and "only_subs s (s\<lparr>s_w := w\<rparr>)"
    and "w_node w = w_node (s_w s)"
proof -
  let ?h = "w_next (s_w s)"
  obtain b where b: "w_call (s_w s) c = Some b" "cb_channels b = map Some hs @ None # replicate m None" and c: "c \<in> C"
    using f by (auto simp: filling_def slots_def)
  let ?b = "b\<lparr>cb_channels := (cb_channels b)[length hs := Some ?h]\<rparr>"
  let ?w = "put_call (put_chan (bump (s_w s)) ?h x) c ?b"
  have place: "length hs < length (cb_channels b)" "cb_channels b ! length hs = None" using b(2) by (simp_all add: nth_append)
  have s: "subs_at w0 L C s" and over: "subs_over w0 (s_w s) L (all_nodes s) C" using f by (simp_all add: filling_def subs_at_def)
  have at: "subs_at w0 L C (s\<lparr>s_w := ?w\<rparr>)"
    by (rule subs_at_world [OF s subs_channel [OF over c b(1) place]]) (simp add: put_defs)
  have "slots ?w c = Some (map Some (hs @ [?h]) @ replicate m None)" by (simp add: slots_def put_defs b(2) list_update_append)
  moreover have "full ?w d" if "d \<in> C - {c}" for d using f that full_eq [of ?w d "s_w s"] by (auto simp: filling_def slots_def put_defs)
  ultimately have "filling w0 L C c (hs @ [?h]) m (s\<lparr>s_w := ?w\<rparr>)" using at c by (simp add: filling_def)
  moreover have "set_channel (put_chan (bump (s_w s)) ?h x) c (length hs) (Some ?h) = Ok ?w"
    using b(1) place by (simp add: set_channel_def put_defs)
  moreover have "only_subs s (s\<lparr>s_w := ?w\<rparr>)" by (simp add: only_subs_def quiet_def put_defs)
  moreover have "w_node ?w = w_node (s_w s)" by (simp add: put_defs)
  ultimately show thesis using that by blast
qed

lemma filling_keep:
  assumes f: "filling w0 L C c hs m s" and "subs_at w0 L' C s'" and sl: "slots (s_w s') = slots (s_w s)"
  shows "filling w0 L' C c hs m s'"
  using assms full_eq [of "s_w s'" _ "s_w s"] by (simp add: filling_def)

lemma slots_call: "w_call w' = w_call w \<Longrightarrow> slots w' = slots w"
  by (simp add: fun_eq_iff slots_def)

lemma leafed_attached:
  assumes f: "filling w0 L C c hs m s" and l: "leafed ks w0 L C s L1 a s1" and env: "grants_all env" and room: "length (sub_cells L s) + 1 < 2 ^ 31"
  obtains L' w where "attach_callback env (s_w s1) c (Some a) = Ok w" and "filling w0 L' C c hs m (s1\<lparr>s_w := w\<rparr>)"
    and "more_cells ks c L s L' (s1\<lparr>s_w := w\<rparr>)" and "c \<in> attached L' (s1\<lparr>s_w := w\<rparr>)"
proof -
  have s1: "subs_at w0 L1 C s1" "a \<in> set (all_nodes s1)" "w_call (s_w s1) = w_call (s_w s)" "only_subs s s1"
    and ms: "mset (sub_cells L1 s1) = mset (sub_cells L s)" and ks: "timer_keys s1 \<subseteq> timer_keys s \<union> ks" using l by (simp_all add: leafed_def)
  have same: "length (sub_cells L1 s1) = length (sub_cells L s)" "set (sub_cells L1 s1) = set (sub_cells L s)"
    using ms by (metis mset_eq_length, metis mset_eq_setD)
  have c: "c \<in> C" using f by (simp add: filling_def)
  obtain L' w where w: "attach_callback env (s_w s1) c (Some a) = Ok w" "subs_at w0 L' C (s1\<lparr>s_w := w\<rparr>)"
    "slots w = slots (s_w s1)" "only_subs s1 (s1\<lparr>s_w := w\<rparr>)"
    "length (sub_cells L' (s1\<lparr>s_w := w\<rparr>)) = length (sub_cells L1 s1) + 1"
    "attached L' (s1\<lparr>s_w := w\<rparr>) = insert c (attached L1 s1)" "w_node w = w_node (s_w s1)"
    by (rule attach_runs [OF s1(1) env s1(2) c]) (use room same in auto)
  have "filling w0 L' C c hs m (s1\<lparr>s_w := w\<rparr>)" by (rule filling_keep [OF f w(2)]) (simp add: w(3) slots_call [OF s1(3)])
  moreover have "timer_keys (s1\<lparr>s_w := w\<rparr>) = timer_keys s1" using w(7) by (intro timer_keys_cong) simp_all
  then have "more_cells ks c L s L' (s1\<lparr>s_w := w\<rparr>)"
    using ks w(5,6) same only_subs_trans [OF s1(4) w(4)] by (auto simp: more_cells_def attached_def)
  ultimately show thesis using that [OF w(1)] w(6) by simp
qed

lemma more_cells_from:
  assumes "only_subs s s1" and "more_cells ks c L s1 L' s'" and "sub_cells L s1 = sub_cells L s" and "timer_keys s1 = timer_keys s"
  shows "more_cells ks c L s L' s'"
  using assms only_subs_trans [OF assms(1)] by (simp add: more_cells_def attached_def)

lemma subscribe_channel_runs:
  assumes f: "filling w0 L C c hs (Suc m) s" and env: "grants_all env" and room: "length (sub_cells L s) + 1 < 2 ^ 31"
  shows "\<exists>L' h s'. subscribe_channel env pv c (length hs) name s = Ok s' \<and> filling w0 L' C c (hs @ [h]) m s' \<and>
           more_cells {} c L s L' s' \<and> c \<in> attached L' s'"
proof -
  let ?h = "w_next (s_w s)"
  obtain w where w: "set_channel (put_chan (bump (s_w s)) ?h \<lparr>ch_name = Some (before_NUL name), ch_ikey = 0, ch_flags = 0\<rparr>) c (length hs) (Some ?h) = Ok w"
    "filling w0 L C c (hs @ [?h]) m (s\<lparr>s_w := w\<rparr>)" "only_subs s (s\<lparr>s_w := w\<rparr>)"
    "w_node w = w_node (s_w s)"
    by (rule filling_channel [OF f])
  let ?s1 = "s\<lparr>s_w := w\<rparr>"
  have s1: "subs_at w0 L C ?s1" using w(2) by (simp add: filling_def)
  have cells: "sub_cells L ?s1 = sub_cells L s" by (simp add: sub_cells_def)
  have keys: "timer_keys ?s1 = timer_keys s" using w(4) by (intro timer_keys_cong) simp_all
  have root: "name_root pv ?s1 = name_root pv s" by simp
  have room1: "length (sub_cells L ?s1) + 1 < 2 ^ 31" using room cells by simp
  obtain t a w2 L2 where t: "tree_insert env w (name_root pv s) (before_NUL name) = Ok (SNAIL_OK, t, Some a, w2)"
    and l: "leafed {} w0 L C ?s1 L2 a (set_tree pv t (s\<lparr>s_w := w2\<rparr>))"
    using name_leaf [OF s1 env, of pv "before_NUL name", unfolded root] by auto
  obtain L' w3 where w3: "attach_callback env w2 c (Some a) = Ok w3"
    "filling w0 L' C c (hs @ [?h]) m ((set_tree pv t (s\<lparr>s_w := w2\<rparr>))\<lparr>s_w := w3\<rparr>)"
    "more_cells {} c L ?s1 L' ((set_tree pv t (s\<lparr>s_w := w2\<rparr>))\<lparr>s_w := w3\<rparr>)"
    "c \<in> attached L' ((set_tree pv t (s\<lparr>s_w := w2\<rparr>))\<lparr>s_w := w3\<rparr>)"
    by (rule leafed_attached [OF w(2) l env room1]) auto
  have "subscribe_channel env pv c (length hs) name s = Ok ((set_tree pv t (s\<lparr>s_w := w2\<rparr>))\<lparr>s_w := w3\<rparr>)"
    using w(1) t w3(1) env by (simp add: subscribe_channel_def create_channel_def Let_def upd_cx_def)
  with w3 more_cells_from [OF w(3) w3(3) cells keys] show ?thesis by blast
qed

lemma subscribe_timer_runs:
  assumes f: "filling w0 L C c hs (Suc m) s" and env: "grants_all env" and room: "length (sub_cells L s) + 1 < 2 ^ 31"
  shows "\<exists>L' h s'. subscribe_timer env c (length hs) key s = Ok s' \<and> filling w0 L' C c (hs @ [h]) m s' \<and> more_cells {timer_interval key} c L s L' s' \<and>
           (timer_interval key \<notin> timer_keys s \<longrightarrow> c \<in> attached L' s')"
proof -
  let ?h = "w_next (s_w s)" and ?k = "timer_interval key"
  obtain w where w: "set_channel (put_chan (bump (s_w s)) ?h \<lparr>ch_name = None, ch_ikey = ?k, ch_flags = CHANNEL_TIMER_EVENT\<rparr>) c (length hs) (Some ?h) = Ok w"
    "filling w0 L C c (hs @ [?h]) m (s\<lparr>s_w := w\<rparr>)" "only_subs s (s\<lparr>s_w := w\<rparr>)"
    "w_node w = w_node (s_w s)"
    by (rule filling_channel [OF f])
  let ?s1 = "s\<lparr>s_w := w\<rparr>"
  have s1: "subs_at w0 L C ?s1" using w(2) by (simp add: filling_def)
  have cells: "sub_cells L ?s1 = sub_cells L s" by (simp add: sub_cells_def)
  have keys: "timer_keys ?s1 = timer_keys s" using w(4) by (intro timer_keys_cong) simp_all
  have room1: "length (sub_cells L ?s1) + 1 < 2 ^ 31" using room cells by simp
  have start: "subscribe_timer env c (length hs) key s =
      cbind (insert_timer env w (cx_timers (s_cx s)) ?k) (\<lambda>(status, t, leaf, w).
        cbind (if 1 \<le> status
               then cbind (if status \<noteq> 2
                           then cbind (deref (Some ?h)) (\<lambda>a. cbind (load (w_chan w) a) (\<lambda>c.
                                Ok (put_chan w a (c\<lparr>ch_flags := set_flag (ch_flags c) CHANNEL_SUBSCRIBED\<rparr>))))
                           else Ok w) (\<lambda>w. attach_callback env w c leaf)
               else Ok w) (\<lambda>w. Ok (set_timers t (s\<lparr>s_w := w\<rparr>))))"
    using w(1) env by (simp add: subscribe_timer_def create_timer_channel_def Let_def)
  from timer_leaf [OF s1 env, of ?k] show ?thesis
  proof
    assume known: "?k \<in> timer_keys ?s1 \<and> (\<exists>a. insert_timer env (s_w ?s1) (cx_timers (s_cx ?s1)) ?k = Ok (0, cx_timers (s_cx ?s1), Some a, s_w ?s1))"
    then have "subscribe_timer env c (length hs) key s = Ok ?s1" unfolding start by (auto simp: upd_cx_def)
    moreover have "more_cells {timer_interval key} c L s L ?s1" using w(3) cells keys by (auto simp: more_cells_def attached_def)
    ultimately show ?thesis using w(2) known keys by blast
  next
    assume "\<exists>t a w2 L2. insert_timer env (s_w ?s1) (cx_timers (s_cx ?s1)) ?k = Ok (2, t, Some a, w2) \<and>
      leafed {?k} w0 L C ?s1 L2 a (set_timers t (?s1\<lparr>s_w := w2\<rparr>))"
    then obtain t a w2 L2 where t: "insert_timer env w (cx_timers (s_cx s)) ?k = Ok (2, t, Some a, w2)"
      and l: "leafed {?k} w0 L C ?s1 L2 a (set_timers t (s\<lparr>s_w := w2\<rparr>))" by auto
    obtain L' w3 where w3: "attach_callback env w2 c (Some a) = Ok w3"
      "filling w0 L' C c (hs @ [?h]) m ((set_timers t (s\<lparr>s_w := w2\<rparr>))\<lparr>s_w := w3\<rparr>)"
      "more_cells {timer_interval key} c L ?s1 L' ((set_timers t (s\<lparr>s_w := w2\<rparr>))\<lparr>s_w := w3\<rparr>)" "c \<in> attached L' ((set_timers t (s\<lparr>s_w := w2\<rparr>))\<lparr>s_w := w3\<rparr>)"
      by (rule leafed_attached [OF w(2) l env room1]) auto
    have "subscribe_timer env c (length hs) key s = Ok ((set_timers t (s\<lparr>s_w := w2\<rparr>))\<lparr>s_w := w3\<rparr>)"
      unfolding start using t w3(1) by (simp add: upd_cx_def)
    with w3 more_cells_from [OF w(3) w3(3) cells keys] show ?thesis by blast
  qed
qed

section \<open>A whole subscription\<close>

definition grown :: "nat \<Rightarrow> int set \<Rightarrow> nat \<Rightarrow> (nat \<Rightarrow> cells) \<Rightarrow> snail \<Rightarrow> (nat \<Rightarrow> cells) \<Rightarrow> snail \<Rightarrow> bool" where
  "grown n ks c L s L' s' \<longleftrightarrow> length (sub_cells L' s') \<le> length (sub_cells L s) + n \<and> only_subs s s' \<and>
     attached L s \<subseteq> attached L' s' \<and> attached L' s' \<subseteq> insert c (attached L s) \<and> timer_keys s' \<subseteq> timer_keys s \<union> ks"

lemma grown_refl [simp]: "grown 0 {} c L s L s"
  by (auto simp: grown_def)

lemma grown_trans: "grown m ks c L s L1 s1 \<Longrightarrow> grown n ks' c L1 s1 L' s' \<Longrightarrow> grown (m + n) (ks \<union> ks') c L s L' s'"
  unfolding grown_def using only_subs_trans [of s s1 s'] by auto

lemma grown_step: "more_cells ks c L s L1 s1 \<Longrightarrow> grown n ks' c L1 s1 L' s' \<Longrightarrow> grown (Suc n) (ks \<union> ks') c L s L' s'"
proof -
  assume "more_cells ks c L s L1 s1" and g: "grown n ks' c L1 s1 L' s'"
  then have "grown 1 ks c L s L1 s1" by (simp add: grown_def more_cells_def)
  from grown_trans [OF this g] show ?thesis by simp
qed

lemma subscribe_channels_runs:
  assumes "filling w0 L C c hs (length ns + m) s" and "grants_all env" and "length (sub_cells L s) + length ns < 2 ^ 31"
  shows "\<exists>L' hs' s'. subscribe_channels env pv c (length hs) ns s = Ok s' \<and> filling w0 L' C c hs' m s' \<and> length hs' = length hs + length ns \<and>
           grown (length ns) {} c L s L' s' \<and> (ns \<noteq> [] \<longrightarrow> c \<in> attached L' s')"
  using assms
proof (induction ns arbitrary: L hs s)
  case Nil
  have "filling w0 L C c hs m s" using Nil.prems(1) by simp
  moreover have "grown (length []) {} c L s L s" by simp
  ultimately show ?case by fastforce
next
  case (Cons n ns)
  have "filling w0 L C c hs (Suc (length ns + m)) s" using Cons.prems(1) by simp
  moreover have "length (sub_cells L s) + 1 < 2 ^ 31" using Cons.prems(3) by simp
  ultimately obtain L1 h s1 where s1: "subscribe_channel env pv c (length hs) n s = Ok s1" "filling w0 L1 C c (hs @ [h]) (length ns + m) s1"
    "more_cells {} c L s L1 s1" "c \<in> attached L1 s1"
    using subscribe_channel_runs [OF _ Cons.prems(2)] by blast
  have "length (sub_cells L1 s1) + length ns < 2 ^ 31" using s1(3) Cons.prems(3) by (simp add: more_cells_def)
  from Cons.IH [OF s1(2) Cons.prems(2) this] obtain L' hs' s' where
    s': "subscribe_channels env pv c (length (hs @ [h])) ns s1 = Ok s'" "filling w0 L' C c hs' m s'" "length hs' = length (hs @ [h]) + length ns"
    "grown (length ns) {} c L1 s1 L' s'" by blast
  have "c \<in> attached L' s'" using s1(4) s'(4) by (auto simp: grown_def)
  moreover have "grown (length (n # ns)) {} c L s L' s'" using grown_step [OF s1(3) s'(4)] by simp
  moreover have "subscribe_channels env pv c (length hs) (n # ns) s = Ok s'" using s1(1) s'(1) by simp
  ultimately show ?case using s'(2,3) by (intro exI conjI impI) simp_all
qed

lemma subscribe_timers_runs:
  assumes "filling w0 L C c hs (length ks) s" and "grants_all env" and "length (sub_cells L s) + length ks < 2 ^ 31"
  shows "\<exists>L' hs' s'. subscribe_timers env c (length hs) ks s = Ok s' \<and> filling w0 L' C c hs' 0 s' \<and> grown (length ks) (timer_interval ` set ks) c L s L' s' \<and>
           ((\<exists>k\<in>set ks. timer_interval k \<notin> timer_keys s) \<longrightarrow> c \<in> attached L' s')"
  using assms
proof (induction ks arbitrary: L hs s)
  case Nil
  have "grown (length []) {} c L s L s" by simp
  with Nil show ?case by fastforce
next
  case (Cons k ks)
  have "filling w0 L C c hs (Suc (length ks)) s" using Cons.prems(1) by simp
  moreover have "length (sub_cells L s) + 1 < 2 ^ 31" using Cons.prems(3) by simp
  ultimately obtain L1 h s1 where s1: "subscribe_timer env c (length hs) k s = Ok s1" "filling w0 L1 C c (hs @ [h]) (length ks) s1"
    "more_cells {timer_interval k} c L s L1 s1" "timer_interval k \<notin> timer_keys s \<longrightarrow> c \<in> attached L1 s1"
    using subscribe_timer_runs [OF _ Cons.prems(2)] by blast
  have "length (sub_cells L1 s1) + length ks < 2 ^ 31" using s1(3) Cons.prems(3) by (simp add: more_cells_def)
  from Cons.IH [OF s1(2) Cons.prems(2) this] obtain L' hs' s' where
    s': "subscribe_timers env c (length (hs @ [h])) ks s1 = Ok s'" "filling w0 L' C c hs' 0 s'" "grown (length ks) (timer_interval ` set ks) c L1 s1 L' s'"
    "(\<exists>k\<in>set ks. timer_interval k \<notin> timer_keys s1) \<longrightarrow> c \<in> attached L' s'" by blast
  have "grown (length (k # ks)) (timer_interval ` set (k # ks)) c L s L' s'" using grown_step [OF s1(3) s'(3)] by simp
  moreover have "c \<in> attached L' s'" if new: "\<exists>k'\<in>set (k # ks). timer_interval k' \<notin> timer_keys s"
  proof (cases "timer_interval k \<in> timer_keys s")
    case True
    then have "timer_keys s1 \<subseteq> timer_keys s" using s1(3) by (auto simp: more_cells_def)
    with new True show ?thesis using s'(4) by auto
  next
    case False
    with s1(4) s'(3) show ?thesis by (auto simp: grown_def)
  qed
  moreover have "subscribe_timers env c (length hs) (k # ks) s = Ok s'" using s1(1) s'(1) by simp
  ultimately show ?case using s'(2) by blast
qed

text \<open>The subscriptions of a client at rest: every callback has all its channels.\<close>

definition subs_held :: "world \<Rightarrow> (nat \<Rightarrow> cells) \<Rightarrow> nat set \<Rightarrow> snail \<Rightarrow> bool" where
  "subs_held w0 L C s \<longleftrightarrow> subs_at w0 L C s \<and> (\<forall>c\<in>C. full (s_w s) c)"

text \<open>The store with the new callback.\<close>

definition with_callback :: "snail \<Rightarrow> int \<Rightarrow> nat \<Rightarrow> snail" where
  "with_callback s ref n = s\<lparr>s_w := put_call (bump (s_w s)) (w_next (s_w s))
     \<lparr>cb_ref = ref, cb_flags = None, cb_nb_channel = int n, cb_attach = 0, cb_channels = replicate n None\<rparr>\<rparr>"

lemma register_start:
  assumes s: "subs_held w0 L C s"
  shows "w_next (s_w s) \<notin> C" and "filling w0 L (insert (w_next (s_w s)) C) (w_next (s_w s)) [] n (with_callback s ref n)"
    and "only_subs s (with_callback s ref n)" and "sub_cells L (with_callback s ref n) = sub_cells L s"
proof -
  let ?c = "w_next (s_w s)" and ?s = "with_callback s ref n"
  let ?b = "\<lparr>cb_ref = ref, cb_flags = None, cb_nb_channel = int n, cb_attach = 0, cb_channels = replicate n None\<rparr>"
  have at: "subs_at w0 L C s" and over: "subs_over w0 (s_w s) L (all_nodes s) C" using s by (simp_all add: subs_held_def subs_at_def)
  show c: "?c \<notin> C" by (rule subs_callback(2) [OF over, of ?b n]) simp_all
  have "subs_at w0 L (insert ?c C) ?s"
    unfolding with_callback_def by (rule subs_at_world [OF at subs_callback(1) [OF over, of ?b n]]) (simp_all add: put_defs)
  moreover have "full (s_w ?s) d" if "d \<in> C" for d
  proof -
    have "slots (s_w ?s) d = slots (s_w s) d" using that c by (auto simp: with_callback_def slots_def put_defs)
    from full_eq [OF this] show ?thesis using s that by (simp add: subs_held_def)
  qed
  ultimately show "filling w0 L (insert ?c C) ?c [] n ?s" by (auto simp: filling_def with_callback_def slots_def put_defs)
  show "only_subs s ?s" by (simp add: only_subs_def quiet_def with_callback_def put_defs)
  show "sub_cells L ?s = sub_cells L s" by (simp add: sub_cells_def with_callback_def)
qed

lemma register_begins:
  assumes "grants_all env"
  shows "register_subscription env pv ref names timers s =
    cbind (subscribe_channels env pv (w_next (s_w s)) 0 names (with_callback s ref (length names + length timers)))
      (subscribe_timers env (w_next (s_w s)) (length names) timers)"
  using assms by (simp add: register_subscription_def create_callback_def with_callback_def Let_def nat_int_add)

lemma register_runs_held:
  assumes s: "subs_held w0 L C s" and env: "grants_all env" and room: "length (sub_cells L s) + (length names + length timers) < 2 ^ 31"
  shows "\<exists>L' c s'. register_subscription env pv ref names timers s = Ok s' \<and> c \<notin> C \<and> subs_held w0 L' (insert c C) s' \<and>
           grown (length names + length timers) (timer_interval ` set timers) c L s L' s' \<and>
           (names \<noteq> [] \<or> (\<exists>t\<in>set timers. timer_interval t \<notin> timer_keys s) \<longrightarrow> c \<in> attached L' s')"
proof -
  let ?c = "w_next (s_w s)" and ?n = "length names + length timers"
  let ?s = "with_callback s ref ?n"
  note new = register_start(1) [OF s] and start = register_start(2-4) [OF s, where n = "?n" and ref = ref]
  have "length (sub_cells L ?s) + length names < 2 ^ 31" using room start(3) by simp
  from subscribe_channels_runs [OF start(1) env this, of pv] obtain L1 hs1 s1 where
    s1: "subscribe_channels env pv ?c 0 names ?s = Ok s1" "filling w0 L1 (insert ?c C) ?c hs1 (length timers) s1"
    "length hs1 = length names" "grown (length names) {} ?c L ?s L1 s1" "names \<noteq> [] \<longrightarrow> ?c \<in> attached L1 s1"
    by auto
  have "length (sub_cells L1 s1) + length timers < 2 ^ 31" using s1(4) room start(3) by (simp add: grown_def)
  from subscribe_timers_runs [OF s1(2) env this] obtain L' hs' s' where
    s': "subscribe_timers env ?c (length hs1) timers s1 = Ok s'" "filling w0 L' (insert ?c C) ?c hs' 0 s'" "grown (length timers) (timer_interval ` set timers) ?c L1 s1 L' s'"
    "(\<exists>k\<in>set timers. timer_interval k \<notin> timer_keys s1) \<longrightarrow> ?c \<in> attached L' s'"
    by blast
  have "register_subscription env pv ref names timers s = Ok s'"
    unfolding register_begins [OF env] using s1(1,3) s'(1) by simp
  moreover have "full (s_w s') d" if "d \<in> insert ?c C" for d
    using s'(2) that by (cases "d = ?c") (auto simp: filling_def full_def slots_def)
  then have "subs_held w0 L' (insert ?c C) s'" using s'(2) by (simp add: subs_held_def filling_def)
  moreover have keys: "timer_keys ?s = timer_keys s" by (rule timer_keys_cong) (simp_all add: with_callback_def put_defs)
  then have g1: "grown (length names) {} ?c L s L1 s1"
    using s1(4) only_subs_trans [OF start(2)] start(3) by (simp add: grown_def attached_def)
  have "grown ?n (timer_interval ` set timers) ?c L s L' s'" using grown_trans [OF g1 s'(3)] by simp
  moreover have "names \<noteq> [] \<longrightarrow> ?c \<in> attached L' s'" using s1(5) s'(3) by (auto simp: grown_def)
  moreover have "timer_keys s1 \<subseteq> timer_keys s" using g1 by (simp add: grown_def)
  then have "(\<exists>t\<in>set timers. timer_interval t \<notin> timer_keys s) \<longrightarrow> ?c \<in> attached L' s'" using s'(4) by blast
  ultimately show ?thesis using new by blast
qed

section \<open>Many subscriptions\<close>

type_synonym subscription = "bool \<times> int \<times> bytes list \<times> bytes list"

fun register_all :: "cenv \<Rightarrow> subscription list \<Rightarrow> snail \<Rightarrow> snail cr" where
  "register_all env [] s = Ok s"
| "register_all env ((pv, ref, names, timers) # rs) s =
     cbind (register_subscription env pv ref names timers s) (register_all env rs)"

definition keys_of :: "subscription list \<Rightarrow> nat" where
  "keys_of rs = (\<Sum>(pv, ref, names, timers)\<leftarrow>rs. length names + length timers)"

lemma keys_of_Cons: "keys_of ((pv, ref, names, timers) # rs) = length names + length timers + keys_of rs"
  by (simp add: keys_of_def)

text \<open>
  Every subscription finds a place: a name, or an interval that is not in \<open>K\<close> and that no subscription
  before it has used.
\<close>

fun all_placed :: "int set \<Rightarrow> subscription list \<Rightarrow> bool" where
  "all_placed K [] = True"
| "all_placed K ((pv, ref, names, timers) # rs) =
     ((names \<noteq> [] \<or> (\<exists>t\<in>set timers. timer_interval t \<notin> K)) \<and> all_placed (K \<union> timer_interval ` set timers) rs)"

lemma register_all_held:
  assumes "subs_held w0 L C s" and "grants_all env" and "length (sub_cells L s) + keys_of rs < 2 ^ 31"
    and "C \<subseteq> attached L s" and "all_placed K rs" and "timer_keys s \<subseteq> K"
  shows "\<exists>L' C' s'. register_all env rs s = Ok s' \<and> subs_held w0 L' C' s' \<and> C' \<subseteq> attached L' s' \<and> only_subs s s'"
  using assms
proof (induction rs arbitrary: K L C s)
  case Nil
  then show ?case by fastforce
next
  case (Cons r rs)
  obtain pv ref names timers where r: "r = (pv, ref, names, timers)" by (cases r)
  have room: "length (sub_cells L s) + (length names + length timers) < 2 ^ 31" using Cons.prems(3) by (simp add: r keys_of_Cons)
  obtain L1 c s1 where s1: "register_subscription env pv ref names timers s = Ok s1" "subs_held w0 L1 (insert c C) s1"
    "grown (length names + length timers) (timer_interval ` set timers) c L s L1 s1"
    "names \<noteq> [] \<or> (\<exists>t\<in>set timers. timer_interval t \<notin> timer_keys s) \<longrightarrow> c \<in> attached L1 s1"
    using register_runs_held [OF Cons.prems(1,2) room, of pv ref] by blast
  have "length (sub_cells L1 s1) + keys_of rs < 2 ^ 31" using s1(3) Cons.prems(3) by (simp add: grown_def r keys_of_Cons)
  moreover have "c \<in> attached L1 s1" using s1(4) Cons.prems(5,6) by (auto simp: r)
  then have "insert c C \<subseteq> attached L1 s1" using s1(3) Cons.prems(4) by (auto simp: grown_def)
  moreover have "all_placed (K \<union> timer_interval ` set timers) rs" using Cons.prems(5) by (simp add: r)
  moreover have "timer_keys s1 \<subseteq> K \<union> timer_interval ` set timers" using s1(3) Cons.prems(6) by (auto simp: grown_def)
  ultimately obtain L' C' s' where s': "register_all env rs s1 = Ok s'" "subs_held w0 L' C' s'" "C' \<subseteq> attached L' s'" "only_subs s1 s'"
    using Cons.IH [OF s1(2) Cons.prems(2)] by blast
  have "only_subs s s'" using s1(3) s'(4) only_subs_trans [of s s1] by (simp add: grown_def)
  with s1(1) s' show ?case by (simp add: r) blast
qed

section \<open>Releasing everything\<close>

lemma cb_queue_local:
  assumes q: "cb_queue w e xs" and fresh: "world_fresh w'" and "w_ends w' e = w_ends w e"
    and ll: "\<And>x c r. (x, c, r) \<in> set xs \<Longrightarrow> w_ll w' x = w_ll w x \<and> w_call w' c = w_call w c"
  shows "cb_queue w' e xs"
proof -
  have "chain (w_ll w') h (map cell_of xs) = chain (w_ll w) h (map cell_of xs)" for h
    by (rule chain_cong) (use ll in auto)
  with q fresh assms(3) show ?thesis using ll by (fastforce simp: cb_queue_def)
qed

lemma restrict_Some: "m |` (- A) = m0 \<Longrightarrow> m0 a = Some y \<Longrightarrow> m a = Some y \<and> a \<notin> A"
  by (auto simp: restrict_map_def split: if_splits)

lemma restrict_None: "m |` (- A) = m0 \<Longrightarrow> m a = None \<Longrightarrow> m0 a = None"
  by (auto simp: restrict_map_def)

text \<open>The list of commands of the store without subscriptions is that of the store with them.\<close>

lemma queue_calls: "cb_queue w e xs \<Longrightarrow> (x, c, r) \<in> set xs \<Longrightarrow> w_call w c \<noteq> None \<and> w_ll w x \<noteq> None"
  by (force simp: cb_queue_def dest: chain_cell)

lemma subs_queue:
  assumes o: "subs_over w0 w L as C" and q: "cb_queue w0 e xs"
  shows "cb_queue w e xs"
proof (rule cb_queue_local [OF q])
  show "world_fresh w" using o by (simp add: subs_over_def)
  obtain en where "w_ends w0 e = Some en" using q by (auto simp: cb_queue_def)
  moreover have "w_ends w |` (- Suc ` set as) = w_ends w0" using o by (simp add: subs_over_def)
  ultimately show "w_ends w e = w_ends w0 e" using restrict_Some by metis
  fix x c r assume "(x, c, r) \<in> set xs"
  then obtain l b where "w_ll w0 x = Some l" "w_call w0 c = Some b" using queue_calls [OF q] by blast
  moreover have "w_ll w |` (- fst ` set (cells_of L as)) = w_ll w0" "w_call w |` (- C) = w_call w0" using o by (simp_all add: subs_over_def)
  ultimately show "w_ll w x = w_ll w0 x \<and> w_call w c = w_call w0 c" using restrict_Some by metis
qed

definition timers_of :: "snail \<Rightarrow> nat list" where
  "timers_of s = node_timers (s_w s) (all_nodes s)"

text \<open>What is left of a store when everything is released; \<open>lost\<close> are callbacks that were in no list.\<close>

definition bare :: "world \<Rightarrow> nat \<Rightarrow> entry list \<Rightarrow> nat set \<Rightarrow> nat set \<Rightarrow> world \<Rightarrow> bool" where
  "bare w0 e xs lost chs w \<longleftrightarrow> cb_queue w e [] \<and> w_node w = w_node w0 \<and> (\<forall>b. b \<noteq> e \<longrightarrow> w_ends w b = w_ends w0 b) \<and>
     w_ll w = w_ll w0 |` (- fst ` set xs) \<and> w_call w |` (- lost) = w_call w0 |` (- (fst \<circ> snd) ` set xs) \<and>
     (\<forall>c\<in>lost. w_call w c \<noteq> None) \<and> w_chan w |` (- chs) = w_chan w0"

lemma release_runs:
  assumes s: "subs_held w0 L C s" and q: "cb_queue w0 e xs" and e: "cx_list (s_cx s) = Some e"
  shows "runs (release_callbacks s) (\<lambda>s'. s_cx s' = (s_cx s)\<lparr>cx_channels := Tip, cx_patterns := Tip, cx_timers := Tip\<rparr> \<and>
           bare w0 e xs (C - attached L s) (\<Union>c\<in>C - attached L s. set (chans (s_w s) c)) (s_w s') \<and>
           w_hand (s_w s') = w_hand (s_w s) \<and> w_next (s_w s') = w_next (s_w s) \<and>
           w_trace (s_w s') = w_trace (s_w s) @ map TimerStop (timers_of s) \<and> w_reqs (s_w s') = rev (timers_of s) @ w_reqs (s_w s))"
proof -
  let ?w = "s_w s" and ?lost = "C - attached L s"
  let ?chs = "\<Union>c\<in>?lost. set (chans ?w c)"
  have over: "subs_over w0 ?w L (all_nodes s) C" and full: "\<forall>c\<in>C. full ?w c" using s by (simp_all add: subs_held_def subs_at_def)
  have fresh: "world_fresh ?w" and timers: "\<forall>h\<in>set (timers_of s). h < w_next ?w" and n: "counted ?w C (cells_of L (all_nodes s))"
    using over by (simp_all add: subs_over_def timers_of_def)
  have start: "release_callbacks s = cbind (destroy_nodes (all_nodes s) ?w) (\<lambda>w. cbind (destroy_list w (cx_list (s_cx s)))
      (\<lambda>w. Ok (upd_cx (s\<lparr>s_w := w\<rparr>) (\<lambda>cx. cx\<lparr>cx_channels := Tip, cx_patterns := Tip, cx_timers := Tip\<rparr>))))"
    unfolding release_callbacks_def all_nodes_def destroy_nodes_append destroy_tree_nodes cbind_assoc ..
  obtain w1 where w1: "destroy_nodes (all_nodes s) ?w = Ok w1" "w_node w1 = w_node w0" "w_ends w1 = w_ends w0" "w_ll w1 = w_ll w0"
    "w_call w1 |` (- ?lost) = w_call w0" "\<forall>c\<in>?lost. w_call w1 c \<noteq> None" "w_chan w1 |` (- ?chs) = w_chan w0"
    "w_hand w1 = w_hand ?w" "w_next w1 = w_next ?w" "w_bufs w1 = w_bufs ?w"
    "w_trace w1 = w_trace ?w @ map TimerStop (timers_of s)" "w_reqs w1 = rev (timers_of s) @ w_reqs ?w"
    using subs_released [OF over full] by (auto simp: attached_def sub_cells_def timers_of_def)
  have old: "c < w_next ?w" if "c \<in> C" for c
    using counted_at [OF n that] fresh by (auto simp: callback_at_def world_fresh_def not_le [symmetric])
  have chold: "h < w_next ?w" if "h \<in> ?chs" for h
    using that counted_chans [OF n] fresh by (fastforce simp: world_fresh_def not_le [symmetric])
  have "w_call w1 a = None \<and> w_chan w1 a = None" if "w_next ?w \<le> a" for a
  proof -
    have "w_call ?w a = None" "w_chan ?w a = None" using fresh that by (simp_all add: world_fresh_def)
    then have "w_call w0 a = None" "w_chan w0 a = None" using over restrict_None unfolding subs_over_def by metis+
    moreover have "a \<notin> ?lost" using old that by (auto simp: not_le [symmetric])
    moreover have "a \<notin> ?chs" using chold [of a] that by linarith
    ultimately show ?thesis using w1(5,7) by (metis ComplI restrict_in)
  qed
  moreover have "w_node w1 a = None \<and> w_ends w1 a = None \<and> w_ll w1 a = None" if "w_next ?w \<le> a" for a
  proof -
    have "w_node ?w a = None" "w_ends ?w a = None" "w_ll ?w a = None" using fresh that by (simp_all add: world_fresh_def)
    then show ?thesis unfolding w1 using over restrict_None unfolding subs_over_def by metis
  qed
  ultimately have "world_fresh w1" using fresh timers unfolding world_fresh_def w1(8,9,12) by auto
  moreover have "w_call w1 c = w_call w0 c" if "(x, c, r) \<in> set xs" for x c r
    using queue_calls [OF q that] restrict_Some [OF w1(5)] by fastforce
  ultimately have q1: "cb_queue w1 e xs" using cb_queue_local [OF q, of w1] w1(3,4) by simp
  have kept: "c \<notin> ?lost" if "c \<in> (fst \<circ> snd) ` set xs" for c
  proof -
    from that obtain x r where "(x, c, r) \<in> set xs" by auto
    with queue_calls [OF q] obtain b where "w_call w0 c = Some b" by blast
    with restrict_Some [OF w1(5)] show ?thesis by blast
  qed
  from destroy_list_queue [OF q1] obtain w2 where w2: "destroy_list w1 (Some e) = Ok w2"
    "w_call w2 = w_call w1 |` (- (fst \<circ> snd) ` set xs)" "w_ll w2 = w_ll w1 |` (- fst ` set xs)" "w_node w2 = w_node w1" "w_chan w2 = w_chan w1"
    "\<forall>b. b \<noteq> e \<longrightarrow> w_ends w2 b = w_ends w1 b" "cb_queue w2 e []" "w_hand w2 = w_hand w1" "w_trace w2 = w_trace w1" "w_reqs w2 = w_reqs w1"
    "w_next w2 = w_next w1"
    by (auto simp: runs_iff)
  have "w_call w2 |` (- ?lost) = w_call w0 |` (- (fst \<circ> snd) ` set xs)" unfolding w2(2) w1(5) [symmetric] by (simp add: Int_commute)
  moreover have "w_call w2 c \<noteq> None" if "c \<in> ?lost" for c
    using w1(6) that kept [of c] unfolding w2(2) restrict_map_def by auto
  ultimately have "bare w0 e xs ?lost ?chs w2" using w2 w1 by (simp add: bare_def)
  then show ?thesis unfolding start using w1 w2 e by (simp add: upd_cx_def)
qed

section \<open>Stores that agree\<close>

definition same_store :: "world \<Rightarrow> world \<Rightarrow> bool" where
  "same_store w w' \<longleftrightarrow> w_call w' = w_call w \<and> w_ll w' = w_ll w \<and> w_ends w' = w_ends w \<and> w_node w' = w_node w \<and>
     w_chan w' = w_chan w \<and> w_next w' = w_next w \<and> w_reqs w' = w_reqs w \<and> world_fresh w'"

lemma nodes_cong:
  assumes "same_store w w'"
  shows "nodes_at w' L as = nodes_at w L as" and "counted w' C zs = counted w C zs" and "full w' c = full w c" and "chans w' = chans w"
proof -
  show ch: "chans w' = chans w" using assms by (simp add: fun_eq_iff chans_def same_store_def)
  show "nodes_at w' L as = nodes_at w L as" "full w' c = full w c" using assms by (simp_all add: same_store_def nodes_at_def cells_at_def full_def)
  show "counted w' C zs = counted w C zs" using assms by (simp add: counted_def callback_at_def ch) (simp add: same_store_def)
qed

text \<open>
  The client has subscriptions over the store \<open>w0\<close>, each callback in a list, and the commands \<open>xs\<close> wait.
\<close>

definition subscribed_over :: "world \<Rightarrow> nat \<Rightarrow> entry list \<Rightarrow> snail \<Rightarrow> bool" where
  "subscribed_over w0 e xs s \<longleftrightarrow> cb_queue w0 e xs \<and> (\<exists>L C. subs_held w0 L C s \<and> C \<subseteq> attached L s)"

lemma subscribed_over_cong:
  assumes s: "subscribed_over w0 e xs s" and w: "same_store (s_w s) (s_w s')"
    and t: "cx_channels (s_cx s') = cx_channels (s_cx s)" "cx_patterns (s_cx s') = cx_patterns (s_cx s)" "cx_timers (s_cx s') = cx_timers (s_cx s)"
  shows "subscribed_over w0 e xs s'" and "timers_of s' = timers_of s"
proof -
  have nodes: "all_nodes s' = all_nodes s" using t by (simp add: all_nodes_def)
  have node: "w_node (s_w s') = w_node (s_w s)" using w by (simp add: same_store_def)
  show "timers_of s' = timers_of s" unfolding timers_of_def nodes by (rule node_timers_cong [OF node])
  have at: "attached L s' = attached L s" for L by (simp add: attached_def sub_cells_def nodes)
  have "subs_held w0 L C s' = subs_held w0 L C s" if "subs_held w0 L C s" for L C
    using that w nodes_cong [OF w] node_timers_cong [OF node] tree_cong [OF node]
    unfolding subs_held_def subs_at_def subs_over_def nodes t by (simp add: same_store_def)
  with s show "subscribed_over w0 e xs s'" unfolding subscribed_over_def at by blast
qed

text \<open>What is left of the store when subscriptions and commands are released.\<close>

definition emptied :: "world \<Rightarrow> nat \<Rightarrow> entry list \<Rightarrow> world \<Rightarrow> bool" where
  "emptied w0 e xs w \<longleftrightarrow> cb_queue w e [] \<and> w_node w = w_node w0 \<and> (\<forall>b. b \<noteq> e \<longrightarrow> w_ends w b = w_ends w0 b) \<and>
     w_ll w = w_ll w0 |` (- fst ` set xs) \<and> w_call w = w_call w0 |` (- (fst \<circ> snd) ` set xs) \<and> w_chan w = w_chan w0"

lemma release_all:
  assumes s: "subscribed_over w0 e xs s" and e: "cx_list (s_cx s) = Some e"
  shows "runs (release_callbacks s) (\<lambda>s'. s_cx s' = (s_cx s)\<lparr>cx_channels := Tip, cx_patterns := Tip, cx_timers := Tip\<rparr> \<and>
           emptied w0 e xs (s_w s') \<and> w_hand (s_w s') = w_hand (s_w s) \<and> w_next (s_w s') = w_next (s_w s) \<and>
           w_trace (s_w s') = w_trace (s_w s) @ map TimerStop (timers_of s) \<and> w_reqs (s_w s') = rev (timers_of s) @ w_reqs (s_w s))"
proof -
  obtain L C where h: "subs_held w0 L C s" "C - attached L s = {}" and q: "cb_queue w0 e xs"
    using s by (auto simp: subscribed_over_def)
  have all: "m |` UNIV = m" for m :: "nat \<Rightarrow> 'a option" by (simp add: fun_eq_iff)
  have "emptied w0 e xs w" if "bare w0 e xs {} {} w" for w using that by (simp add: bare_def emptied_def all)
  then show ?thesis using release_runs [OF h(1) q e] unfolding h(2) by (auto elim!: runs_mono)
qed

text \<open>A client without subscriptions.\<close>

definition no_subs :: "snail \<Rightarrow> bool" where
  "no_subs s \<longleftrightarrow> cx_channels (s_cx s) = Tip \<and> cx_patterns (s_cx s) = Tip \<and> cx_timers (s_cx s) = Tip"

lemma no_subs_held: "no_subs s \<Longrightarrow> world_fresh (s_w s) \<Longrightarrow> subs_held (s_w s) L {} s"
  by (simp add: no_subs_def subs_held_def subs_at_def all_nodes_def subs_none)

lemma no_subs_over:
  assumes "no_subs s" and "cb_queue (s_w s) e xs"
  shows "subscribed_over (s_w s) e xs s" and "timers_of s = []"
proof -
  have "world_fresh (s_w s)" using assms(2) by (simp add: cb_queue_def)
  with assms show "subscribed_over (s_w s) e xs s" using no_subs_held unfolding subscribed_over_def by blast
  show "timers_of s = []" using assms(1) by (simp add: no_subs_def timers_of_def all_nodes_def node_timers_def)
qed

end
