(* ===== verification/Snail_Lifecycle.thy ===== *)
theory Snail_Lifecycle
  imports Snail_Session Snail_Register
begin

text \<open>
  The end of commands and of connections: writes that fail, \<open>lua_client_disconnect\<close> with both
  reports of \<open>on_disconnect\<close>, \<open>lua_client_exit\<close>, and what a client does that is used afterwards.
\<close>

section \<open>A connected client\<close>

text \<open>Both streams are connected.\<close>

definition two_streams :: "nat \<Rightarrow> nat \<Rightarrow> snail \<Rightarrow> bool" where
  "two_streams a b s \<longleftrightarrow> cx_stream (s_cx s) = Some a \<and> cx_sub_stream (s_cx s) = Some b \<and> a \<noteq> b \<and>
     a \<in> dom (w_hand (s_w s)) \<and> b \<in> dom (w_hand (s_w s)) \<and> a \<notin> set (w_reqs (s_w s)) \<and> b \<notin> set (w_reqs (s_w s)) \<and>
     has_flag (cx_stream_flags (s_cx s)) STREAM_CONNECTED \<and> has_flag (cx_stream_flags (s_cx s)) SUB_STREAM_CONNECTED"

lemma connected_client:
  obtains s a b e where "client_at empty_store [] (- 1) [] e [] s" and "two_streams a b s" and "no_subs s"
    and "cx_disconnect_cb (s_cx s) = hs_noref quiet_host" and "calls s = []"
proof -
  have fresh: "world_fresh queue_world" using queue_world_empty by (simp add: cb_queue_def)
  obtain s a b q1 q2 where s: "connecting quiet_host 1 a b q1 q2 s" "w_trace (s_w s) = [UvConnect q1 a, UvConnect q2 b]"
    using open_session_connecting [OF fresh host_simps(1), of "''/tmp/redis.sock''" None]
    by (auto simp: runs_iff queue_world_def)
  have "runs (cbind (on_connect quiet_host q1 0 s) (on_connect quiet_host q2 0)) (\<lambda>s'. client_at empty_store [] (- 1) [] 1 [] s' \<and>
      two_streams a b s' \<and> no_subs s' \<and> cx_disconnect_cb (s_cx s') = hs_noref quiet_host \<and> calls s' = [])"
    by (rule runs_mono [OF connected_twice [OF s(1)]]) (use s in \<open>simp add: two_streams_def no_subs_def connecting_def\<close>)
  then show thesis using that unfolding runs_iff by blast
qed

section \<open>A write that fails\<close>

lemma failure_reported:
  assumes "polite hs" and at: "client_at h fs ty u e ((x, c, r) # ys) s" and "req < w_next (s_w s)" and "code < 0"
  shows "runs (command_failed hs code (Some req) s) (\<lambda>(res, s').
           res = (if has_ref hs r then Ret 0 else Raise (hs_strerror hs code)) \<and> (\<exists>zs. client_at h fs ty u e (ys @ zs) s') \<and>
           calls s' = calls s @ (if has_ref hs r then [(r, [LStr (hs_strerror hs code)])] else []))"
proof -
  let ?s = "upd_w s (\<lambda>w. req_free w req)"
  have "cb_queue (s_w s) e ((x, c, r) # ys)" and e: "cx_list (s_cx s) = Some e" using at by (simp_all add: client_at_def)
  then have q: "cb_queue (s_w ?s) e ((x, c, r) # ys)" using assms(3) by (simp add: cb_queue_req_free)
  obtain w where shift: "shift_cb (s_w ?s) (Some e) = Ok (SNAIL_OK, Some (command_cb r), w)"
    and w: "cb_queue w e ys" "same_rest (s_w ?s) w"
    using shift_cb_queue [OF q] by (auto simp: runs_iff)
  let ?s1 = "?s\<lparr>s_w := w\<rparr>"
  have "w_hand (req_free (s_w s) req) = w_hand (s_w s)" "w_trace (req_free (s_w s) req) = w_trace (s_w s)"
    by (simp_all add: req_free_def)
  then have at1: "client_at h fs ty u e ys ?s1" and c1: "calls ?s1 = calls s"
    using at w by (simp_all add: client_at_def connected_def same_rest_def)
  show ?thesis
  proof (cases "has_ref hs r")
    case False
    with shift e at1 c1 show ?thesis
      by (auto simp: command_failed_def Let_def command_cb_def assms(4) intro: exI [of _ "[]"])
  next
    case True
    let ?s2 = "upd_w (luaL_unref r ?s1) (\<lambda>w. emit w (LuaCall r [LStr (hs_strerror hs code)]))"
    have at2: "client_at h fs ty u e ys ?s2" and c2: "calls ?s2 = calls s @ [(r, [LStr (hs_strerror hs code)])]"
      using at1 c1 by (simp_all add: luaL_unref_def)
    have "runs (hs_lua hs r [LStr (hs_strerror hs code)] ?s2) (\<lambda>s'. (\<exists>zs. client_at h fs ty u e (ys @ zs) s') \<and> calls s' = calls ?s2 \<and> keeps ?s2 s')"
      using assms(1) at2 unfolding polite_def by blast
    then have "runs (lua_pcall hs r [LStr (hs_strerror hs code)] (luaL_unref r ?s1)) (\<lambda>s'.
        (\<exists>zs. client_at h fs ty u e (ys @ zs) s') \<and> calls s' = calls s @ [(r, [LStr (hs_strerror hs code)])])"
      unfolding lua_pcall_def by (rule runs_mono) (use c2 in auto)
    with shift e True assms(4) show ?thesis
      by (auto simp: command_failed_def Let_def command_cb_def runs_cbind elim!: runs_mono)
  qed
qed

text \<open>
  C12. A failing write is reported to the callback of the oldest pending command, whichever command
  failed, and that callback is gone from the list, so that later replies go to the wrong
  callbacks; the failed command's own callback stays.
\<close>

theorem failed_write_reported_to_oldest:
  assumes "polite hs" and "grants_all (hs_env hs)" and at: "client_at h fs ty u e xs s" and "plain_call hs args ref argv"
    and "cx_stream (s_cx s) = Some a" and code: "hs_write hs a (encode (RArray (map RString argv))) = code" "code < 0"
    and first: "refs_of xs @ [ref] = r # rs" and "has_ref hs r"
  shows "runs (lua_client_command hs args s) (\<lambda>(res, s'). res = Ret 0 \<and>
           calls s' = calls s @ [(r, [LStr (hs_strerror hs code)])] \<and>
           (\<exists>ys zs. client_at h fs ty u e (ys @ zs) s' \<and> refs_of ys = rs))"
proof -
  obtain word names where argv: "argv = word # names" using assms(4) by (cases argv) (auto simp: plain_call_def)
  obtain ws tm where ws: "split_callback hs args = (ws, ref)" "command_args hs ws [] [] = Ok (Ret (word # names, tm))"
    "length (encode (RArray (map RString (word # names)))) < 2 ^ 30" "command_kind word = Plain"
    using assms(4) by (auto simp: plain_call_def argv)
  obtain w x c where reg: "register_command hs ref names tm word s = Ok (False, s\<lparr>s_w := w\<rparr>)"
    and at1: "client_at h fs ty u e (xs @ [(x, c, ref)]) (s\<lparr>s_w := w\<rparr>)" and w: "same_rest (s_w s) w"
    using plain_registered [OF at assms(2) ws(4)] by blast
  let ?s = "s\<lparr>s_w := w\<rparr>" and ?cmd = "encode (RArray (map RString argv))"
  obtain hn where a: "(if False then cx_sub_stream (s_cx ?s) else cx_stream (s_cx ?s)) = Some a" "w_hand (s_w ?s) a = Some hn"
    using at1 assms(5) by (auto simp: client_at_def connected_def)
  obtain req w2 where sw: "start_write hs False ?cmd ?s = Ok (code, Some req, ?s\<lparr>s_w := emit w2 (UvWrite req a ?cmd)\<rparr>)"
    and w2: "world_fresh w2" "req < w_next w2" "w_hand w2 = (w_hand w)(req \<mapsto> \<lparr>h_data = True, h_repeat = 0\<rparr>)" "w_call w2 = w_call w"
      "w_ll w2 = w_ll w" "w_ends w2 = w_ends w" "w_trace w2 = w_trace w"
    using start_write_runs [OF at1 assms(2) a, of ?cmd] code(1) by auto
  let ?s2 = "?s\<lparr>s_w := emit w2 (UvWrite req a ?cmd)\<rparr>"
  have q: "cb_queue w e (xs @ [(x, c, ref)])" using at1 by (simp add: client_at_def)
  have at2: "client_at h fs ty u e (xs @ [(x, c, ref)]) ?s2"
    using at1 cb_queue_cong [OF q w2(1,4-6)] w2(3) by (auto simp: client_at_def connected_def)
  obtain z ys where xs: "xs @ [(x, c, ref)] = z # ys" by (cases "xs @ [(x, c, ref)]") auto
  obtain y d r' where z: "z = (y, d, r')" by (cases z)
  have "refs_of (xs @ [(x, c, ref)]) = r # rs" using first by simp
  then have rs: "r' = r" "refs_of ys = rs" by (simp_all add: xs z)
  have calls: "calls ?s2 = calls s" using w w2(7) by (simp add: same_rest_def)
  have "req < w_next (s_w ?s2)" using w2(2) by (simp add: emit_def)
  from failure_reported [OF assms(1) at2 [unfolded xs z] this code(2)]
  have "runs (command_failed hs code (Some req) ?s2) (\<lambda>(res, s'). res = Ret 0 \<and>
           calls s' = calls s @ [(r, [LStr (hs_strerror hs code)])] \<and>
           (\<exists>ys zs. client_at h fs ty u e (ys @ zs) s' \<and> refs_of ys = rs))"
    by (rule runs_mono) (use assms(9) rs calls in auto)
  moreover have "lua_client_command hs args s = command_failed hs code (Some req) ?s2"
    using command_runs [OF assms(2) ws(1-3) reg] sw code(2) by (simp add: send_command_def Let_def argv del: encode.simps)
  ultimately show ?thesis by (simp only:)
qed

text \<open>A host whose writes fail, and a client with one command pending.\<close>

definition failing_host :: host where
  "failing_host = quiet_host\<lparr>hs_write := (\<lambda>a c. - 32)\<rparr>"

lemma failing_simps:
  "polite failing_host" "grants_all (hs_env failing_host)" "hs_write failing_host a c = - 32"
  "plain_call failing_host [AStr ''PING'', AFun r] r [''PING'']" "has_ref failing_host 7" "hs_strerror failing_host (- 32) = ''EPIPE''"
proof -
  show "polite failing_host"
    unfolding polite_def
  proof (intro allI impI)
    fix ref args h fs ty u e xs s
    assume "client_at h fs ty u e xs s"
    then have "client_at h fs ty u e (xs @ []) s" by simp
    then show "runs (hs_lua failing_host ref args s) (\<lambda>s'. (\<exists>ys. client_at h fs ty u e (xs @ ys) s') \<and> calls s' = calls s \<and> keeps s s')"
      unfolding failing_host_def quiet_host_def by (auto simp del: append_Nil2)
  qed
  have same: "command_args failing_host as ws ts = command_args quiet_host as ws ts" for as ws ts
  proof -
    have p: "push_arg failing_host = push_arg quiet_host" by (simp add: fun_eq_iff push_arg_def failing_host_def)
    have "table_args failing_host xs ws = table_args quiet_host xs ws" for xs ws
      by (induction xs arbitrary: ws) (simp_all add: p split: option.splits lua_result.splits)
    with p show ?thesis
      by (induction quiet_host as ws ts rule: command_args.induct) (simp_all add: cr_simps split: lua_result.splits option.splits)
  qed
  have "split_callback failing_host = split_callback quiet_host"
    by (simp add: fun_eq_iff split_callback_def failing_host_def split: larg.split)
  with plain_calls(1) [of r] show "plain_call failing_host [AStr ''PING'', AFun r] r [''PING'']"
    by (simp add: plain_call_def same)
qed (simp_all add: failing_host_def quiet_host_def has_ref_def)


theorem failed_write_reported_to_oldest_witness:
  "\<exists>s. calls s = [] \<and> runs (cbind (lua_client_command chatty_host [AStr ''GET'', ANum 5 ''5'', AFun 7] s)
     (\<lambda>(res, s). lua_client_command failing_host [AStr ''PING'', AFun 8] s)) (\<lambda>(res, s').
       calls s' = [(7, [LStr ''EPIPE''])] \<and> (\<exists>h fs ty u e x c zs. client_at h fs ty u e ((x, c, 8) # zs) s'))"
proof -
  obtain s a b e where at: "client_at empty_store [] (- 1) [] e [] s" and st: "two_streams a b s" and c: "calls s = []"
    by (rule connected_client)
  have "runs (cbind (lua_client_command chatty_host [AStr ''GET'', ANum 5 ''5'', AFun 7] s)
     (\<lambda>(res, s). lua_client_command failing_host [AStr ''PING'', AFun 8] s)) (\<lambda>(res, s').
       calls s' = [(7, [LStr ''EPIPE''])] \<and> (\<exists>h fs ty u e x c zs. client_at h fs ty u e ((x, c, 8) # zs) s'))"
    unfolding runs_cbind
  proof (rule runs_mono [OF plain_call_sent [OF at host_simps(2) host_simps(4) plain_calls(3)]], clarify)
    fix s1
    assume "sent empty_store [] (- 1) [] e [] 7 (encode (RArray (map RString [''GET'', ''5'']))) s s1"
    then obtain x d where s1: "client_at empty_store [] (- 1) [] e [(x, d, 7)] s1" "calls s1 = []"
      using c by (auto simp: sent_def)
    then obtain a where a: "cx_stream (s_cx s1) = Some a" by (auto simp: client_at_def connected_def)
    from failed_write_reported_to_oldest [OF failing_simps(1,2) s1(1) failing_simps(4) a failing_simps(3), of 8 7 "[8]"]
    show "runs (lua_client_command failing_host [AStr ''PING'', AFun 8] s1) (\<lambda>(res, s').
       calls s' = [(7, [LStr ''EPIPE''])] \<and> (\<exists>h fs ty u e x c zs. client_at h fs ty u e ((x, c, 8) # zs) s'))"
      using s1(2) failing_simps(5,6) by (auto elim!: runs_mono simp: Cons_eq_map_conv) blast
  qed
  with c show ?thesis by blast
qed

section \<open>The end of a connection\<close>

text \<open>The report that one stream is closed: its handle goes, and the flag.\<close>

lemma close_flags:
  "has_flag fl STREAM_CONNECTED \<Longrightarrow> has_flag (clear_flag fl STREAM_CONNECTED) SUB_STREAM_CONNECTED = has_flag fl SUB_STREAM_CONNECTED"
  "\<not> has_flag (clear_flag fl STREAM_CONNECTED) STREAM_CONNECTED"
  "\<not> has_flag (clear_flag (clear_flag fl STREAM_CONNECTED) SUB_STREAM_CONNECTED) STREAM_CONNECTED"
  "\<not> has_flag (clear_flag (clear_flag fl STREAM_CONNECTED) SUB_STREAM_CONNECTED) SUB_STREAM_CONNECTED"
  by (simp_all add: flag_simps)

lemma disconnect_runs:
  assumes at: "client_at h fs ty u e xs s" and st: "two_streams a b s"
  shows "\<exists>s1. lua_client_disconnect s = Ok (Ret 1, s1) \<and>
           s_cx s1 = (s_cx s)\<lparr>cx_flags := set_flag (cx_flags (s_cx s)) REDIS_DISCONNECTING\<rparr> \<and> cb_queue (s_w s1) e xs \<and> same_store (s_w s) (s_w s1) \<and>
           w_trace (s_w s1) = w_trace (s_w s) @ [UvClose a True, UvClose b True] \<and> w_reqs (s_w s1) = w_reqs (s_w s) \<and> w_next (s_w s1) = w_next (s_w s) \<and>
           handle_context (s_w s1) a = Ok () \<and> handle_context (s_w s1) b = Ok ()"
proof -
  obtain ha hb where h: "w_hand (s_w s) a = Some ha" "w_hand (s_w s) b = Some hb" "a \<noteq> b"
    and cx: "cx_stream (s_cx s) = Some a" "cx_sub_stream (s_cx s) = Some b" using st by (auto simp: two_streams_def)
  have q: "cb_queue (s_w s) e xs" and fl: "\<not> has_flag (cx_flags (s_cx s)) REDIS_DISCONNECTING"
    using at by (simp_all add: client_at_def connected_not_disconnecting)
  let ?w = "put_hand (put_hand (s_w s) a (ha\<lparr>h_data := True\<rparr>)) b (hb\<lparr>h_data := True\<rparr>)"
  let ?w2 = "emit (emit ?w (UvClose a True)) (UvClose b True)"
  let ?s = "upd_cx (s\<lparr>s_w := ?w2\<rparr>) (\<lambda>cx. cx\<lparr>cx_flags := set_flag (cx_flags cx) REDIS_DISCONNECTING\<rparr>)"
  have fresh: "world_fresh ?w" using q h by (auto simp: cb_queue_def world_fresh_def put_hand_def)
  then have "cb_queue ?w e xs" by (rule cb_queue_cong [OF q]) (simp_all add: put_hand_def)
  moreover have "world_fresh ?w2" using fresh by (simp add: world_fresh_def emit_def)
  then have "same_store (s_w s) ?w2" by (simp add: same_store_def emit_def put_hand_def)
  moreover have "lua_client_disconnect s = Ok (Ret 1, ?s)"
    using fl cx h by (simp add: lua_client_disconnect_def set_data_def uv_close_def put_hand_def)
  moreover have "w_reqs ?w2 = w_reqs (s_w s)" "w_next ?w2 = w_next (s_w s)" "handle_context ?w2 a = Ok ()" "handle_context ?w2 b = Ok ()"
    using h by (simp_all add: emit_def put_hand_def handle_context_def)
  moreover have "w_trace ?w2 = w_trace (s_w s) @ [UvClose a True, UvClose b True]" by (simp add: put_hand_def)
  ultimately show ?thesis by (intro exI [of _ ?s]) simp
qed

lemma both_closed:
  assumes so: "subscribed_over w0 e xs s" and fresh: "world_fresh (s_w s)" and e: "cx_list (s_cx s) = Some e" and pq: "p \<noteq> q"
    and "handle_context (s_w s) p = Ok ()" and "handle_context (s_w s) q = Ok ()"
    and fl: "has_flag (cx_stream_flags (s_cx s)) STREAM_CONNECTED" "has_flag (cx_stream_flags (s_cx s)) SUB_STREAM_CONNECTED"
  shows "\<exists>s2. cbind (on_disconnect hs p s) (on_disconnect hs q) = call_if_set hs (cx_disconnect_cb (s_cx s)) [] s2 \<and>
           s_cx s2 = (s_cx s)\<lparr>cx_stream_flags := clear_flag (clear_flag (cx_stream_flags (s_cx s)) STREAM_CONNECTED) SUB_STREAM_CONNECTED,
             cx_flags := set_flag (cx_flags (s_cx s)) REDIS_FREEING, cx_channels := Tip, cx_patterns := Tip, cx_timers := Tip\<rparr> \<and>
           emptied w0 e xs (s_w s2) \<and> w_hand (s_w s2) = (w_hand (s_w s))(p := None, q := None) \<and>
           w_trace (s_w s2) = w_trace (s_w s) @ map TimerStop (timers_of s) \<and> w_reqs (s_w s2) = rev (timers_of s) @ w_reqs (s_w s) \<and>
           w_next (s_w s2) = w_next (s_w s)"
proof -
  let ?fl = "clear_flag (cx_stream_flags (s_cx s)) STREAM_CONNECTED"
  let ?w1 = "(s_w s)\<lparr>w_hand := (w_hand (s_w s))(p := None)\<rparr>"
  let ?s1 = "upd_cx (s\<lparr>s_w := ?w1\<rparr>) (\<lambda>cx. cx\<lparr>cx_stream_flags := ?fl\<rparr>)"
  let ?w2 = "?w1\<lparr>w_hand := (w_hand ?w1)(q := None)\<rparr>"
  let ?s2 = "upd_cx (s\<lparr>s_w := ?w2\<rparr>) (\<lambda>cx. cx\<lparr>cx_stream_flags := clear_flag ?fl SUB_STREAM_CONNECTED,
      cx_flags := set_flag (cx_flags cx) REDIS_FREEING\<rparr>)"
  obtain hp hq where h: "w_hand (s_w s) p = Some hp" "h_data hp" "w_hand (s_w s) q = Some hq" "h_data hq"
    using assms(5,6) by (auto simp: handle_context_def cr_simps load_def split: option.splits if_splits)
  have "same_store (s_w s) (s_w ?s2)" using fresh by (auto simp: same_store_def world_fresh_def)
  note sub = subscribed_over_cong [OF so this, simplified]
  obtain s3 where rel: "release_callbacks ?s2 = Ok s3"
    and s3: "s_cx s3 = (s_cx ?s2)\<lparr>cx_channels := Tip, cx_patterns := Tip, cx_timers := Tip\<rparr>" "emptied w0 e xs (s_w s3)"
    "w_hand (s_w s3) = w_hand ?w2" "w_next (s_w s3) = w_next (s_w s)"
    "w_trace (s_w s3) = w_trace (s_w s) @ map TimerStop (timers_of s)" "w_reqs (s_w s3) = rev (timers_of s) @ w_reqs (s_w s)"
    using release_all [OF sub(1)] e sub(2) by (auto simp: runs_iff)
  have d1: "on_disconnect hs p s = Ok ?s1"
    using assms(5) h fl by (simp add: on_disconnect_def free_handle_def close_flags Let_def)
  have "handle_context ?w1 q = Ok ()" using h pq by (simp add: handle_context_def)
  then have "on_disconnect hs q ?s1 = cbind (release_callbacks ?s2) (\<lambda>s. call_if_set hs (cx_disconnect_cb (s_cx s)) [] s)"
    using h pq fl by (simp add: on_disconnect_def free_handle_def close_flags Let_def upd_cx_def)
  with d1 rel s3 have "cbind (on_disconnect hs p s) (on_disconnect hs q) = call_if_set hs (cx_disconnect_cb (s_cx s)) [] s3"
    by simp
  with s3 show ?thesis by (intro exI [of _ s3]) simp
qed

text \<open>Both handles are gone, and of the store what is neither subscription nor command is left.\<close>

definition released :: "world \<Rightarrow> nat \<Rightarrow> entry list \<Rightarrow> nat \<Rightarrow> nat \<Rightarrow> snail \<Rightarrow> bool" where
  "released w0 e xs a b s \<longleftrightarrow> w_hand (s_w s) a = None \<and> w_hand (s_w s) b = None \<and> no_subs s \<and> emptied w0 e xs (s_w s)"

lemma disconnected:
  assumes at: "client_at h fs ty u e xs s" and st: "two_streams a b s" and so: "subscribed_over w0 e xs s"
  obtains s1 where "lua_client_disconnect s = Ok (Ret 1, s1)"
    and "w_trace (s_w s1) = w_trace (s_w s) @ [UvClose a True, UvClose b True]"
    and "\<And>p q. (p, q) \<in> {(a, b), (b, a)} \<Longrightarrow> \<exists>s2. cbind (on_disconnect hs p s1) (on_disconnect hs q) =
        call_if_set hs (cx_disconnect_cb (s_cx s)) [] s2 \<and> w_trace (s_w s2) = w_trace (s_w s1) @ map TimerStop (timers_of s) \<and> released w0 e xs a b s2 \<and>
        w_reqs (s_w s2) = rev (timers_of s) @ w_reqs (s_w s) \<and> w_next (s_w s2) = w_next (s_w s) \<and> cx_stream (s_cx s2) = Some a \<and> cx_list (s_cx s2) = Some e \<and>
        has_flag (cx_flags (s_cx s2)) REDIS_CONNECTED"
proof -
  obtain s1 where s1: "lua_client_disconnect s = Ok (Ret 1, s1)"
    "s_cx s1 = (s_cx s)\<lparr>cx_flags := set_flag (cx_flags (s_cx s)) REDIS_DISCONNECTING\<rparr>" "same_store (s_w s) (s_w s1)"
    "w_trace (s_w s1) = w_trace (s_w s) @ [UvClose a True, UvClose b True]" "w_reqs (s_w s1) = w_reqs (s_w s)"
    "w_next (s_w s1) = w_next (s_w s)" "handle_context (s_w s1) a = Ok ()" "handle_context (s_w s1) b = Ok ()"
    using disconnect_runs [OF at st] by auto
  have pre: "cx_list (s_cx s1) = Some e" "world_fresh (s_w s1)" "cx_disconnect_cb (s_cx s1) = cx_disconnect_cb (s_cx s)"
    "has_flag (cx_stream_flags (s_cx s1)) STREAM_CONNECTED" "has_flag (cx_stream_flags (s_cx s1)) SUB_STREAM_CONNECTED"
    "has_flag (cx_flags (s_cx s)) REDIS_CONNECTED" "a \<noteq> b" "cx_stream (s_cx s) = Some a"
    using at st s1(2,3) by (simp_all add: client_at_def connected_def two_streams_def same_store_def)
  note sub = subscribed_over_cong [OF so s1(3), unfolded s1(2), simplified]
  show thesis
  proof (rule that [OF s1(1,4)])
    fix p q assume "(p, q) \<in> {(a, b), (b, a)}"
    then have pq: "p \<noteq> q" "handle_context (s_w s1) p = Ok ()" "handle_context (s_w s1) q = Ok ()" "{p, q} = {a, b}"
      using pre(7) s1(7,8) by auto
    from both_closed [OF sub(1) pre(2,1) pq(1-3) pre(4,5), of hs] obtain s2 where
      s2: "cbind (on_disconnect hs p s1) (on_disconnect hs q) = call_if_set hs (cx_disconnect_cb (s_cx s)) [] s2"
      "s_cx s2 = (s_cx s1)\<lparr>cx_stream_flags := clear_flag (clear_flag (cx_stream_flags (s_cx s1)) STREAM_CONNECTED) SUB_STREAM_CONNECTED,
         cx_flags := set_flag (cx_flags (s_cx s1)) REDIS_FREEING, cx_channels := Tip, cx_patterns := Tip, cx_timers := Tip\<rparr>"
      "emptied w0 e xs (s_w s2)" "w_hand (s_w s2) = (w_hand (s_w s1))(p := None, q := None)"
      "w_trace (s_w s2) = w_trace (s_w s1) @ map TimerStop (timers_of s)" "w_reqs (s_w s2) = rev (timers_of s) @ w_reqs (s_w s1)"
      "w_next (s_w s2) = w_next (s_w s1)"
      unfolding pre(3) sub(2) by (elim exE conjE)
    have "a \<in> {p, q}" "b \<in> {p, q}" by (simp_all only: pq(4) insertI1 insertI2)
    then have "released w0 e xs a b s2" using s2(2,3,4) by (auto simp: released_def no_subs_def)
    moreover have "cx_stream (s_cx s2) = Some a" "cx_list (s_cx s2) = Some e" "has_flag (cx_flags (s_cx s2)) REDIS_CONNECTED"
      using s2(2) s1(2) pre(1,6,8) by (simp_all add: flag_simps)
    ultimately show "\<exists>s2. cbind (on_disconnect hs p s1) (on_disconnect hs q) =
        call_if_set hs (cx_disconnect_cb (s_cx s)) [] s2 \<and> w_trace (s_w s2) = w_trace (s_w s1) @ map TimerStop (timers_of s) \<and> released w0 e xs a b s2 \<and>
        w_reqs (s_w s2) = rev (timers_of s) @ w_reqs (s_w s) \<and> w_next (s_w s2) = w_next (s_w s) \<and> cx_stream (s_cx s2) = Some a \<and> cx_list (s_cx s2) = Some e \<and>
        has_flag (cx_flags (s_cx s2)) REDIS_CONNECTED"
      using s2(1,5,6,7) s1(5,6) by (intro exI [of _ s2]) simp
  qed
qed

text \<open>
  C8. Disconnecting is complete: both streams are closed, and when libuv has reported both, in
  either order, the handles, the commands that still wait and all subscriptions are released
  (the store is \<open>w0\<close> without the commands) and running timers stopped, before the
  disconnect callback of the program is called, once.
\<close>

theorem disconnect_releases:
  assumes "client_at h fs ty u e xs s" and "two_streams a b s" and "subscribed_over w0 e xs s"
  shows "\<exists>s1. lua_client_disconnect s = Ok (Ret 1, s1) \<and> w_trace (s_w s1) = w_trace (s_w s) @ [UvClose a True, UvClose b True] \<and>
           (\<forall>(p, q)\<in>{(a, b), (b, a)}. \<exists>s2. cbind (on_disconnect hs p s1) (on_disconnect hs q) =
              call_if_set hs (cx_disconnect_cb (s_cx s)) [] s2 \<and> w_trace (s_w s2) = w_trace (s_w s1) @ map TimerStop (timers_of s) \<and> released w0 e xs a b s2)"
proof -
  obtain s1 where s1: "lua_client_disconnect s = Ok (Ret 1, s1)"
    "w_trace (s_w s1) = w_trace (s_w s) @ [UvClose a True, UvClose b True]"
    and s2: "\<And>p q. (p, q) \<in> {(a, b), (b, a)} \<Longrightarrow> \<exists>s2. cbind (on_disconnect hs p s1) (on_disconnect hs q) =
        call_if_set hs (cx_disconnect_cb (s_cx s)) [] s2 \<and> w_trace (s_w s2) = w_trace (s_w s1) @ map TimerStop (timers_of s) \<and> released w0 e xs a b s2"
    using disconnected [OF assms, of hs] by metis
  show ?thesis
  proof (intro exI [of _ s1] conjI s1 ballI)
    fix pq assume "pq \<in> {(a, b), (b, a)}"
    then show "case pq of (p, q) \<Rightarrow> \<exists>s2. cbind (on_disconnect hs p s1) (on_disconnect hs q) =
        call_if_set hs (cx_disconnect_cb (s_cx s)) [] s2 \<and> w_trace (s_w s2) = w_trace (s_w s1) @ map TimerStop (timers_of s) \<and> released w0 e xs a b s2"
      using s2 by (cases pq) simp
  qed
qed

theorem disconnect_releases_witness:
  "\<exists>s a b s1 s2. calls s = [] \<and> lua_client_disconnect s = Ok (Ret 1, s1) \<and>
     cbind (on_disconnect quiet_host b s1) (on_disconnect quiet_host a) = Ok s2 \<and> w_hand (s_w s2) a = None \<and> w_hand (s_w s2) b = None"
proof -
  obtain s a b e where at: "client_at empty_store [] (- 1) [] e [] s" and st: "two_streams a b s" and c: "calls s = []"
    and ns: "no_subs s" and dc: "cx_disconnect_cb (s_cx s) = hs_noref quiet_host"
    by (rule connected_client)
  have "subscribed_over (s_w s) e [] s" using ns at no_subs_over(1) by (simp add: client_at_def)
  from disconnect_releases [OF at st this, of quiet_host] dc c show ?thesis
    by (auto simp: call_if_set_def has_ref_def released_def) blast
qed

lemma new_req_other:
  assumes "world_fresh w" and "grants_all (hs_env hs)" and "a < w_next w" and "a \<notin> set (w_reqs w)"
  shows "\<exists>q w'. new_req hs w = Ok (q, w') \<and> w_hand w' a = w_hand w a"
  using assms by (cases "w_reqs w") (auto simp: new_req_def req_alloc_def put_defs)

text \<open>
  C13. What is released is used again: after a complete disconnect the flags still say that the client
  is connected, and a command writes on the released stream, as \<open>exit\<close> closes it.
\<close>

theorem used_after_disconnect:
  assumes "client_at h fs ty u e xs s" and "two_streams a b s" and "no_subs s"
    and "\<not> has_ref hs (cx_disconnect_cb (s_cx s))" and env: "grants_all (hs_env hs)" and "plain_call hs args ref argv"
  shows "\<exists>s1 s2. lua_client_disconnect s = Ok (Ret 1, s1) \<and> cbind (on_disconnect hs a s1) (on_disconnect hs b) = Ok s2 \<and>
           lua_client_command hs args s2 = Flt UseAfterFree \<and> lua_client_exit hs s2 = Flt UseAfterFree"
proof -
  have "cb_queue (s_w s) e xs" using assms(1) by (simp add: client_at_def)
  note sub = no_subs_over [OF assms(3) this]
  obtain s1 where s1: "lua_client_disconnect s = Ok (Ret 1, s1)" 
    and s2: "\<And>p q. (p, q) \<in> {(a, b), (b, a)} \<Longrightarrow> \<exists>s2. cbind (on_disconnect hs p s1) (on_disconnect hs q) =
        call_if_set hs (cx_disconnect_cb (s_cx s)) [] s2 \<and> w_trace (s_w s2) = w_trace (s_w s1) @ map TimerStop (timers_of s) \<and> released (s_w s) e xs a b s2 \<and>
        w_reqs (s_w s2) = rev (timers_of s) @ w_reqs (s_w s) \<and> w_next (s_w s2) = w_next (s_w s) \<and> cx_stream (s_cx s2) = Some a \<and> cx_list (s_cx s2) = Some e \<and>
        has_flag (cx_flags (s_cx s2)) REDIS_CONNECTED"
    using disconnected [OF assms(1,2) sub(1), of hs] by metis
  obtain s2 where run: "cbind (on_disconnect hs a s1) (on_disconnect hs b) = Ok s2" and rel: "released (s_w s) e xs a b s2"
    and s2: "w_reqs (s_w s2) = w_reqs (s_w s)" "cx_stream (s_cx s2) = Some a" "cx_list (s_cx s2) = Some e"
      "has_flag (cx_flags (s_cx s2)) REDIS_CONNECTED" "w_next (s_w s2) = w_next (s_w s)"
    using s2 [of a b] assms(4) sub(2) by (auto simp: call_if_set_def)
  have q: "cb_queue (s_w s2) e []" and gone: "w_hand (s_w s2) a = None" using rel by (simp_all add: released_def emptied_def)
  have "world_fresh (s_w s)" "w_hand (s_w s) a \<noteq> None" and fr: "a \<notin> set (w_reqs (s_w s))"
    using assms(1,2) by (auto simp: client_at_def cb_queue_def two_streams_def)
  then have a: "a < w_next (s_w s)" unfolding world_fresh_def by (metis not_le)
  obtain word names where argv: "argv = word # names" using assms(6) by (cases argv) (auto simp: plain_call_def)
  obtain ws tm where ws: "split_callback hs args = (ws, ref)" "command_args hs ws [] [] = Ok (Ret (word # names, tm))"
    "length (encode (RArray (map RString (word # names)))) < 2 ^ 30" "command_kind word = Plain"
    using assms(6) by (auto simp: plain_call_def argv)
  obtain w where app: "append_callback (hs_env hs) (s_w s2) (Some e) ref = Ok w" and w: "world_fresh w" "same_rest (s_w s2) w"
    and new: "w_call w (w_next (s_w s2)) \<noteq> None"
    using append_callback_queue [OF q, of "hs_env hs" ref] env by (auto simp: runs_iff cb_queue_def)
  have "w_next (s_w s2) < w_next w" using w(1) new unfolding world_fresh_def by (metis not_le)
  have "lua_client_exit hs s2 = Flt UseAfterFree"
    using s2(2) gone by (simp add: lua_client_exit_def uv_close_def)
  moreover obtain q w' where "new_req hs w = Ok (q, w')" "w_hand w' a = None"
    using new_req_other [OF w(1) env, of a] w(2) \<open>w_next (s_w s2) < w_next w\<close> a s2(1,5) fr gone by (auto simp: same_rest_def)
  then have "lua_client_command hs args s2 = Flt UseAfterFree"
    unfolding command_steps [OF env ws(1-3)] 
    using app s2 ws(4) by (simp add: register_command_def send_command_def start_write_def)
  ultimately show ?thesis using s1 run by blast
qed


theorem used_after_disconnect_witness:
  "\<exists>s s1 s2. calls s = [] \<and> lua_client_disconnect s = Ok (Ret 1, s1) \<and>
     lua_client_command quiet_host [AStr ''PING'', AFun 8] s2 = Flt UseAfterFree \<and> lua_client_exit quiet_host s2 = Flt UseAfterFree"
proof -
  obtain s a b e where at: "client_at empty_store [] (- 1) [] e [] s" and st: "two_streams a b s" and c: "calls s = []"
    and ns: "no_subs s" and dc: "cx_disconnect_cb (s_cx s) = hs_noref quiet_host"
    by (rule connected_client)
  have nr: "\<not> has_ref quiet_host (cx_disconnect_cb (s_cx s))" by (simp add: dc has_ref_def)
  from used_after_disconnect [OF at st ns nr host_simps(1) plain_calls(1) [of 8]] c show ?thesis by blast
qed



section \<open>The exit\<close>

lemma exit_start:
  assumes at: "client_at h fs ty u e xs s" and st: "two_streams a b s"
  obtains s1 where "lua_client_exit hs s = cbind (release_callbacks s1) (\<lambda>s.
      cbind (free_handle (s_w s) (cx_stream (s_cx s))) (\<lambda>w.
      cbind (free_handle w (cx_sub_stream (s_cx s))) (\<lambda>w.
      cbind (free_reader (s\<lparr>s_w := w\<rparr>)) (\<lambda>s. Ok (Ret 0, s)))))"
    and "s_cx s1 = (s_cx s)\<lparr>cx_stream_flags := clear_flag (clear_flag (cx_stream_flags (s_cx s)) STREAM_CONNECTED) SUB_STREAM_CONNECTED\<rparr>"
    and "same_store (s_w s) (s_w s1)" and "w_hand (s_w s1) = w_hand (s_w s)"
    and "w_trace (s_w s1) = w_trace (s_w s) @ [UvClose a False, UvClose b False] @
           map LuaUnref (filter (has_ref hs) [cx_connect_cb (s_cx s), cx_error_cb (s_cx s), cx_disconnect_cb (s_cx s)])"
proof -
  obtain ha hb where h: "w_hand (s_w s) a = Some ha" "w_hand (s_w s) b = Some hb"
    and cx: "cx_stream (s_cx s) = Some a" "cx_sub_stream (s_cx s) = Some b" using st by (auto simp: two_streams_def)
  let ?s0 = "s\<lparr>s_w := emit (emit (s_w s) (UvClose a False)) (UvClose b False)\<rparr>"
  let ?s1 = "upd_cx (unref_if_set hs (cx_disconnect_cb (s_cx s)) (unref_if_set hs (cx_error_cb (s_cx s))
     (unref_if_set hs (cx_connect_cb (s_cx s)) ?s0))) (\<lambda>cx. cx\<lparr>cx_stream_flags :=
       clear_flag (clear_flag (cx_stream_flags cx) STREAM_CONNECTED) SUB_STREAM_CONNECTED\<rparr>)"
  have un: "s_cx (unref_if_set hs r t) = s_cx t" "w_hand (s_w (unref_if_set hs r t)) = w_hand (s_w t)"
    "same_store (s_w s) (s_w (unref_if_set hs r t)) = same_store (s_w s) (s_w t)"
    "w_trace (s_w (unref_if_set hs r t)) = w_trace (s_w t) @ (if has_ref hs r then [LuaUnref r] else [])" for r t
    by (simp_all add: unref_if_set_def luaL_unref_def emit_def same_store_def world_fresh_def)
  have q: "cb_queue (s_w s) e xs" using at by (simp add: client_at_def)
  then have "world_fresh (s_w s)" by (simp add: cb_queue_def)
  show thesis
  proof (rule that [of ?s1])
    show "same_store (s_w s) (s_w ?s1)"
      using \<open>world_fresh (s_w s)\<close> by (simp add: un) (simp add: same_store_def emit_def world_fresh_def)
  qed (use h cx in \<open>simp_all add: lua_client_exit_def uv_close_def Let_def un emit_def upd_cx_def\<close>)
qed

lemma exit_runs:
  assumes "client_at h fs ty u e xs s" and "two_streams a b s" and so: "subscribed_over w0 e xs s"
  shows "runs (lua_client_exit hs s) (\<lambda>(res, s'). res = Ret 0 \<and> released w0 e xs a b s' \<and>
           (\<exists>r. cx_reader (s_cx s') = Some r \<and> rs_map (r_store r) = rs_map h) \<and> get_reader s' = Flt UseAfterFree \<and>
           w_trace (s_w s') = w_trace (s_w s) @ [UvClose a False, UvClose b False] @
             map LuaUnref (filter (has_ref hs) [cx_connect_cb (s_cx s), cx_error_cb (s_cx s), cx_disconnect_cb (s_cx s)]) @ map TimerStop (timers_of s))"
proof -
  let ?tr = "w_trace (s_w s) @ [UvClose a False, UvClose b False] @
     map LuaUnref (filter (has_ref hs) [cx_connect_cb (s_cx s), cx_error_cb (s_cx s), cx_disconnect_cb (s_cx s)])"
  obtain s1 where run: "lua_client_exit hs s = cbind (release_callbacks s1) (\<lambda>s.
      cbind (free_handle (s_w s) (cx_stream (s_cx s))) (\<lambda>w.
      cbind (free_handle w (cx_sub_stream (s_cx s))) (\<lambda>w.
      cbind (free_reader (s\<lparr>s_w := w\<rparr>)) (\<lambda>s. Ok (Ret 0, s)))))"
    and s1: "s_cx s1 = (s_cx s)\<lparr>cx_stream_flags := clear_flag (clear_flag (cx_stream_flags (s_cx s)) STREAM_CONNECTED) SUB_STREAM_CONNECTED\<rparr>"
      "same_store (s_w s) (s_w s1)" "w_hand (s_w s1) = w_hand (s_w s)" "w_trace (s_w s1) = ?tr"
    by (rule exit_start [OF assms(1,2), of hs])
  note sub = subscribed_over_cong [OF so s1(2), unfolded s1(1), simplified]
  have pre: "cx_list (s_cx s1) = Some e" "cx_live (s_cx s)" "cx_stream (s_cx s) = Some a" "cx_sub_stream (s_cx s) = Some b"
    "a \<noteq> b" "a \<in> dom (w_hand (s_w s))" "b \<in> dom (w_hand (s_w s))"
    using assms(1,2) s1(1) by (simp_all add: client_at_def two_streams_def)
  obtain r where r: "cx_reader (s_cx s) = Some r" "reader_state h fs ty u r" using assms(1) by (auto simp: client_at_def)
  obtain h' where free: "redisReaderFree r = Ok h'" "rs_map h' = rs_map h"
    using redisReaderFree_refines [OF r(2)] by (auto simp: runs_iff)
  obtain s2 where s2: "release_callbacks s1 = Ok s2" "s_cx s2 = (s_cx s1)\<lparr>cx_channels := Tip, cx_patterns := Tip, cx_timers := Tip\<rparr>"
    "emptied w0 e xs (s_w s2)" "w_hand (s_w s2) = w_hand (s_w s)" "w_trace (s_w s2) = ?tr @ map TimerStop (timers_of s)"
    using release_all [OF sub(1) pre(1)] s1(3,4) sub(2) by (auto simp: runs_iff)
  let ?w = "(s_w s2)\<lparr>w_hand := (w_hand (s_w s2))(a := None, b := None)\<rparr>"
  have q: "cb_queue (s_w s2) e []" using s2(3) by (simp add: emptied_def)
  then have "world_fresh ?w" by (auto simp: cb_queue_def world_fresh_def)
  then have "cb_queue ?w e []" by (rule cb_queue_cong [OF q]) simp_all
  then have "emptied w0 e xs ?w" using s2(3) by (simp add: emptied_def)
  then show ?thesis
    using run s2 s1(1) pre r free
    by (auto simp: free_handle_def free_reader_def released_def no_subs_def get_reader_def put_reader_def)
qed

text \<open>
  C9. \<open>exit\<close> releases what a client holds: the commands that wait, every subscription with its
  channels, both handles and the reader with what it has of a reply; the streams are closed and the functions of the
  program unreferenced. The closes carry no callback, so the memory of both handles is
  given back while libuv still has them to close.
\<close>

theorem exit_releases:
  assumes "client_at h fs ty u e xs s" and "two_streams a b s" and "subscribed_over w0 e xs s"
  shows "runs (lua_client_exit hs s) (\<lambda>(res, s'). res = Ret 0 \<and> released w0 e xs a b s' \<and>
           (\<exists>r. cx_reader (s_cx s') = Some r \<and> rs_map (r_store r) = rs_map h) \<and> get_reader s' = Flt UseAfterFree \<and>
           w_trace (s_w s') = w_trace (s_w s) @ [UvClose a False, UvClose b False] @
             map LuaUnref (filter (has_ref hs) [cx_connect_cb (s_cx s), cx_error_cb (s_cx s), cx_disconnect_cb (s_cx s)]) @
             map TimerStop (timers_of s))"
  using exit_runs [OF assms, of hs] .

theorem exit_releases_witness:
  "\<exists>s. calls s = [] \<and> runs (lua_client_exit quiet_host s) (\<lambda>(res, s'). res = Ret 0 \<and> get_reader s' = Flt UseAfterFree)"
proof -
  obtain s a b e where at: "client_at empty_store [] (- 1) [] e [] s" and st: "two_streams a b s" and c: "calls s = []"
    and ns: "no_subs s" and dc: "cx_disconnect_cb (s_cx s) = hs_noref quiet_host"
    by (rule connected_client)
  have so: "subscribed_over (s_w s) e [] s" using ns at no_subs_over(1) by (simp add: client_at_def)
  have "runs (lua_client_exit quiet_host s) (\<lambda>(res, s'). res = Ret 0 \<and> get_reader s' = Flt UseAfterFree)"
    by (rule runs_mono [OF exit_releases [OF at st so]]) auto
  with c show ?thesis by blast
qed

section \<open>A connection closed by the server\<close>

text \<open>
  C15. A connection closed by the server is not noticed: \<open>on_read\<close> closes the command stream and
  \<open>on_disconnect\<close> releases it, but the client keeps its address and its flags, and \<open>disconnect\<close>
  writes into the released stream.
\<close>

theorem server_close_dangles:
  assumes "client_at h fs ty u e xs s" and "cx_stream (s_cx s) = Some a" and "stream_ready a s"
    and "has_flag (cx_stream_flags (s_cx s)) STREAM_CONNECTED" and "has_flag (cx_stream_flags (s_cx s)) SUB_STREAM_CONNECTED"
    and "\<not> has_ref hs (cx_error_cb (s_cx s))" and "nread < 0"
  shows "\<exists>s1 s2. on_read hs a nread buf d s = Ok s1 \<and> on_disconnect hs a s1 = Ok s2 \<and>
           w_trace (s_w s2) = w_trace (s_w s) @ [UvClose a True] \<and> has_flag (cx_flags (s_cx s2)) REDIS_CONNECTED \<and>
           lua_client_disconnect s2 = Flt UseAfterFree"
proof -
  obtain hn where h: "w_hand (s_w s) a = Some hn" "h_data hn" using assms(3) by (auto simp: stream_ready_def)
  have cx: "cx_stream (s_cx s) = Some a" "has_flag (cx_stream_flags (s_cx s)) STREAM_CONNECTED"
    "has_flag (cx_stream_flags (s_cx s)) SUB_STREAM_CONNECTED" "\<not> has_flag (cx_flags (s_cx s)) REDIS_DISCONNECTING"
    "has_flag (cx_flags (s_cx s)) REDIS_CONNECTED"
    using assms(1,2,4,5) by (simp_all add: client_at_def connected_def)
  let ?s1 = "s\<lparr>s_w := emit (s_w s) (UvClose a True)\<rparr>"
  let ?fl = "clear_flag (cx_stream_flags (s_cx s)) STREAM_CONNECTED"
  let ?s2 = "upd_cx (s\<lparr>s_w := (s_w ?s1)\<lparr>w_hand := (w_hand (s_w s))(a := None)\<rparr>\<rparr>) (\<lambda>cx. cx\<lparr>cx_stream_flags := ?fl\<rparr>)"
  have "on_read hs a nread buf d s = Ok ?s1"
    using h cx assms(6,7) by (simp add: on_read_def handle_context_def call_if_set_def uv_close_def Let_def)
  moreover have "on_disconnect hs a ?s1 = Ok ?s2"
    using h cx by (simp add: on_disconnect_def handle_context_def free_handle_def close_flags Let_def)
  moreover have "lua_client_disconnect ?s2 = Flt UseAfterFree"
    using cx by (simp add: lua_client_disconnect_def set_data_def)
  ultimately show ?thesis by (intro exI [of _ ?s1] exI [of _ ?s2]) (simp add: cx)
qed

theorem server_close_dangles_witness:
  "\<exists>s a s1 s2. calls s = [] \<and> on_read chatty_host a (- 4095) (0, 64) [] s = Ok s1 \<and> on_disconnect chatty_host a s1 = Ok s2 \<and>
     lua_client_disconnect s2 = Flt UseAfterFree"
proof -
  obtain s a e where s: "client_at empty_store [] (- 1) [] e [] s" "stream_ready a s" "calls s = []" "cx_stream (s_cx s) = Some a"
    and nr: "cx_error_cb (s_cx s) = hs_noref chatty_host"
    and fl: "has_flag (cx_stream_flags (s_cx s)) STREAM_CONNECTED" "has_flag (cx_stream_flags (s_cx s)) SUB_STREAM_CONNECTED"
    by (rule ready_streams)
  have "\<not> has_ref chatty_host (cx_error_cb (s_cx s))" by (simp add: nr has_ref_def)
  from server_close_dangles [OF s(1,4,2) fl this, of "- 4095" "(0, 64)" "[]"] s(3) show ?thesis by auto
qed

end
