(* ===== verification/Snail_Phases.thy ===== *)
theory Snail_Phases
  imports Snail_Lifecycle
begin

text \<open>
  The life of a connection as a state machine: the relation \<open>life\<close> says which phase a client reaches by
  which calls and reports, and the flags of the client are those of its phase. The first part shows,
  method by method and handler by handler, that everything but connecting and disconnecting
  leaves the flags alone.
\<close>

section \<open>What the flags say of the connection\<close>

text \<open>Command stream connected, subscription stream connected; client connected, disconnecting, released.\<close>

definition link :: "snail \<Rightarrow> (bool \<times> bool) \<times> bool \<times> bool \<times> bool" where
  "link s = ((has_flag (cx_stream_flags (s_cx s)) STREAM_CONNECTED, has_flag (cx_stream_flags (s_cx s)) SUB_STREAM_CONNECTED),
     has_flag (cx_flags (s_cx s)) REDIS_CONNECTED, has_flag (cx_flags (s_cx s)) REDIS_DISCONNECTING, has_flag (cx_flags (s_cx s)) REDIS_FREEING)"

definition tame :: "host \<Rightarrow> bool" where
  "tame hs \<longleftrightarrow> (\<forall>ref args s s'. hs_lua hs ref args s = Ok s' \<longrightarrow> link s' = link s)"

lemma link_cong: "cx_stream_flags (s_cx s') = cx_stream_flags (s_cx s) \<Longrightarrow> cx_flags (s_cx s') = cx_flags (s_cx s) \<Longrightarrow> link s' = link s"
  by (simp add: link_def)

lemma link_simps [simp]:
  "link (s\<lparr>s_w := w\<rparr>) = link s" "link (upd_w s f) = link s" "link (put_reader s r) = link s" "link (luaL_unref ref s) = link s"
  "link (upd_cx s (\<lambda>cx. cx\<lparr>cx_timers := t\<rparr>)) = link s" "link (upd_cx s (\<lambda>cx. cx\<lparr>cx_error_cb := ref\<rparr>)) = link s"
  "link (upd_cx s (\<lambda>cx. cx\<lparr>cx_connect_cb := ref\<rparr>)) = link s" "link (upd_cx s (\<lambda>cx. cx\<lparr>cx_disconnect_cb := ref\<rparr>)) = link s"
  "link (upd_cx s (\<lambda>cx. cx\<lparr>cx_patterns := t\<rparr>)) = link s" "link (upd_cx s (\<lambda>cx. cx\<lparr>cx_channels := t\<rparr>)) = link s"
  by (simp_all add: link_def put_reader_def luaL_unref_def)

lemma cbindE:
  assumes "cbind m f = Ok y"
  obtains x where "m = Ok x" and "f x = Ok y"
  using assms by (cases m) auto

lemma c_assertE: "c_assert b = Ok u \<Longrightarrow> b"
  by (simp add: c_assert_def split: if_splits)

lemmas outcome_splits = if_split_asm prod.split_asm option.split_asm list.split_asm lua_result.split_asm larg.split_asm

lemma lua_link:
  assumes "tame hs"
  shows "lua_pcall hs ref args s = Ok s' \<Longrightarrow> link s' = link s"
    and "lua_pcall_any hs ref args s = Ok s' \<Longrightarrow> link s' = link s"
    and "call_if_set hs ref args s = Ok s' \<Longrightarrow> link s' = link s"
  using assms by (auto simp: tame_def lua_pcall_def lua_pcall_any_def call_if_set_def split: if_splits)

subsection \<open>Commands\<close>

lemma subscribe_link:
  "subscribe_channel env p cb i n s = Ok s' \<Longrightarrow> link s' = link s"
  "subscribe_timer env cb i k s = Ok s' \<Longrightarrow> link s' = link s"
  by (auto simp: subscribe_channel_def subscribe_timer_def Let_def elim!: cbindE split: outcome_splits)

lemma subscribe_channels_link: "subscribe_channels env p cb i ns s = Ok s' \<Longrightarrow> link s' = link s"
  by (induction ns arbitrary: i s) (auto elim!: cbindE dest: subscribe_link)

lemma subscribe_timers_link: "subscribe_timers env cb i ks s = Ok s' \<Longrightarrow> link s' = link s"
  by (induction ks arbitrary: i s) (auto elim!: cbindE dest: subscribe_link)

lemma register_subscription_link: "register_subscription env p ref ns ts s = Ok s' \<Longrightarrow> link s' = link s"
  by (auto simp: register_subscription_def elim!: cbindE split: outcome_splits dest!: subscribe_channels_link subscribe_timers_link)

lemma register_link: "register_command hs ref ns ts word s = Ok (sub, s') \<Longrightarrow> link s' = link s"
proof -
  have "link (upd_cx s (\<lambda>cx. cx\<lparr>cx_flags := set_flag (cx_flags cx) REDIS_MONITORING\<rparr>)) = link s"
    by (simp add: link_def flag_simps)
  then show "register_command hs ref ns ts word s = Ok (sub, s') \<Longrightarrow> link s' = link s"
    by (auto simp: register_command_def Let_def elim!: cbindE split: command_kind.split_asm outcome_splits dest: register_subscription_link)
qed

lemma start_write_link: "start_write hs sub cmd s = Ok (r, q, s') \<Longrightarrow> link s' = link s"
  by (auto simp: start_write_def elim!: cbindE split: outcome_splits)

lemma command_failed_link:
  assumes t: "tame hs"
  shows "command_failed hs r q s = Ok (res, s') \<Longrightarrow> link s' = link s"
  by (auto simp: command_failed_def Let_def elim!: cbindE split: outcome_splits dest!: lua_link(1) [OF t])

lemma send_link:
  assumes t: "tame hs"
  shows "send_command hs sub cmd s = Ok (res, s') \<Longrightarrow> link s' = link s"
  by (auto simp: send_command_def Let_def elim!: cbindE split: outcome_splits dest!: command_failed_link [OF t] start_write_link)

lemma command_link:
  assumes t: "tame hs"
  shows "lua_client_command hs args s = Ok (res, s') \<Longrightarrow> link s' = link s"
  by (auto simp: lua_client_command_def elim!: cbindE split: outcome_splits dest!: send_link [OF t] register_link)

lemma lua_subscribe_link:
  assumes t: "tame hs"
  shows "lua_client_subscribe hs args s = Ok (res, s') \<Longrightarrow> link s' = link s"
  by (auto simp: lua_client_subscribe_def elim!: cbindE split: outcome_splits dest: command_link [OF t])

lemma lua_on_link: "lua_client_on hs args s = (res, s') \<Longrightarrow> link s' = link s"
  by (auto simp: lua_client_on_def Let_def split: outcome_splits)

subsection \<open>Handlers\<close>

lemma report_link:
  assumes t: "tame hs"
  shows "report_to_first hs msg s = Ok s' \<Longrightarrow> link s' = link s"
  by (auto simp: report_to_first_def Let_def elim!: cbindE split: outcome_splits dest!: lua_link(1) [OF t])

lemma on_write_link:
  assumes t: "tame hs"
  shows "on_write hs q a st s = Ok s' \<Longrightarrow> link s' = link s"
  by (auto simp: on_write_def Let_def elim!: cbindE split: outcome_splits dest!: report_link [OF t])

lemma start_timer_link: "start_timer hs a ch s = Ok s' \<Longrightarrow> link s' = link s"
  by (auto simp: start_timer_def Let_def elim!: cbindE)

lemma confirm_channel_link: "confirm_channel hs sname p dn al s = Ok (dn', al', s') \<Longrightarrow> link s' = link s"
  by (auto simp: confirm_channel_def elim!: cbindE split: outcome_splits dest!: start_timer_link)

lemma confirm_channels_link: "confirm_channels hs sname ps dn al s = Ok (dn', al', s') \<Longrightarrow> link s' = link s"
  by (induction ps arbitrary: dn al s) (auto elim!: cbindE dest!: confirm_channel_link)

lemma set_initialized_link: "set_initialized hs c al s = Ok s' \<Longrightarrow> link s' = link s"
  by (auto simp: set_initialized_def elim!: cbindE split: outcome_splits)

lemma confirm_callback_link:
  assumes t: "tame hs"
  shows "confirm_callback hs sname reply c s = Ok (dn, s') \<Longrightarrow> link s' = link s"
  by (auto simp: confirm_callback_def elim!: cbindE split: outcome_splits
      dest!: confirm_channels_link set_initialized_link lua_link(2) [OF t])

lemma confirm_loop_link:
  assumes t: "tame hs"
  shows "confirm_loop n hs sname reply p s = Ok s' \<Longrightarrow> link s' = link s"
proof (induction n arbitrary: p s)
  case (Suc n)
  from Suc.prems show ?case
    by (cases p) (auto elim!: cbindE split: outcome_splits dest!: confirm_callback_link [OF t] Suc.IH)
next
  case 0
  then show ?case by (cases p) simp_all
qed

lemma event_callback_link:
  assumes t: "tame hs"
  shows "event_callback hs args c s = Ok s' \<Longrightarrow> link s' = link s"
  by (auto simp: event_callback_def elim!: cbindE split: outcome_splits dest!: lua_link(2) [OF t])

lemma event_loop_link:
  assumes t: "tame hs"
  shows "event_loop n hs args p s = Ok s' \<Longrightarrow> link s' = link s"
proof (induction n arbitrary: p s)
  case (Suc n)
  from Suc.prems show ?case
    by (cases p) (auto elim!: cbindE dest!: event_callback_link [OF t] Suc.IH)
next
  case 0
  then show ?case by (cases p) simp_all
qed

lemma message_link:
  assumes t: "tame hs"
  shows "get_and_call_sub_cb hs reply s = Ok s' \<Longrightarrow> link s' = link s"
  by (auto simp: get_and_call_sub_cb_def Let_def elim!: cbindE split: outcome_splits dest!: confirm_loop_link [OF t] event_loop_link [OF t])

lemma on_timer_link:
  assumes t: "tame hs"
  shows "on_timer hs a timeout s = Ok s' \<Longrightarrow> link s' = link s"
  by (auto simp: on_timer_def elim!: cbindE split: outcome_splits dest: event_loop_link [OF t])

lemma free_reply_link: "free_reply_object a s = Ok s' \<Longrightarrow> link s' = link s"
  by (auto simp: free_reply_object_def elim!: cbindE)

lemma repush_link: "repush_monitor hs cb s = Ok s' \<Longrightarrow> link s' = link s"
  by (auto simp: repush_monitor_def Let_def elim!: cbindE split: outcome_splits)

lemma deliver_reply_link:
  assumes t: "tame hs"
  shows "deliver_reply hs a cb s = Ok (cb', s') \<Longrightarrow> link s' = link s"
  by (auto simp: deliver_reply_def Let_def simp del: push_reply.simps elim!: cbindE split: outcome_splits dest!: free_reply_link lua_link(1) [OF t])

lemma deliver_message_link:
  assumes t: "tame hs"
  shows "deliver_message hs a s = Ok s' \<Longrightarrow> link s' = link s"
  by (auto simp: deliver_message_def elim!: cbindE split: outcome_splits dest!: free_reply_link message_link [OF t])

lemma replies_link:
  assumes t: "tame hs"
  shows "replies_loop n hs sub cb s = Ok (go, s') \<Longrightarrow> link s' = link s"
proof (induction n arbitrary: sub cb s)
  case (Suc n)
  from Suc.prems show ?case
    by (auto simp: Let_def elim!: cbindE split: outcome_splits
        dest!: repush_link deliver_message_link [OF t] deliver_reply_link [OF t] Suc.IH)
qed simp

lemma stop_link: "stop_if_idle sub a s = Ok s' \<Longrightarrow> link s' = link s"
  by (auto simp: stop_if_idle_def elim!: cbindE split: outcome_splits)

lemma on_read_link:
  assumes t: "tame hs"
  shows "on_read hs a nread buf d s = Ok s' \<Longrightarrow> link s' = link s"
  by (auto simp: on_read_def Let_def elim!: cbindE split: outcome_splits dest!: lua_link(3) [OF t] replies_link [OF t] stop_link)


section \<open>The phases of a connection\<close>

text \<open>What may happen in any phase: methods that neither connect nor disconnect, writes, reads and timers.\<close>

inductive works :: "host \<Rightarrow> snail \<Rightarrow> snail \<Rightarrow> bool" for hs where
  "lua_client_command hs args s = Ok (res, s') \<Longrightarrow> works hs s s'"
| "lua_client_subscribe hs args s = Ok (res, s') \<Longrightarrow> works hs s s'"
| "lua_client_on hs args s = (res, s') \<Longrightarrow> works hs s s'"
| "on_write hs req a status s = Ok s' \<Longrightarrow> works hs s s'"
| "on_read hs a nread buf data s = Ok s' \<Longrightarrow> works hs s s'"
| "on_timer hs a timeout s = Ok s' \<Longrightarrow> works hs s s'"

datatype phase = Opened | Half | Up | Lost | Dropped | Closing | HalfClosed | Closed

inductive life :: "host \<Rightarrow> phase \<Rightarrow> snail \<Rightarrow> bool" for hs where
  life_opened: "lua_client_new hs path ignore w = Ok (Ret s) \<Longrightarrow> lua_client_connect hs s = Ok (Ret n, s') \<Longrightarrow> life hs Opened s'"
| life_works: "life hs ph s \<Longrightarrow> works hs s s' \<Longrightarrow> life hs ph s'"
| life_first: "life hs Opened s \<Longrightarrow> on_connect hs req 0 s = Ok s' \<Longrightarrow> life hs Half s'"
| life_second: "life hs Half s \<Longrightarrow> on_connect hs req 0 s = Ok s' \<Longrightarrow> life hs Up s'"
| life_lost: "life hs Up s \<Longrightarrow> on_disconnect hs a s = Ok s' \<Longrightarrow> life hs Lost s'"
| life_dropped: "life hs Lost s \<Longrightarrow> on_disconnect hs a s = Ok s' \<Longrightarrow> life hs Dropped s'"
| life_closing: "life hs Up s \<Longrightarrow> lua_client_disconnect s = Ok (res, s') \<Longrightarrow> life hs Closing s'"
| life_again: "life hs Closing s \<Longrightarrow> lua_client_disconnect s = Ok (res, s') \<Longrightarrow> life hs Closing s'"
| life_half_closed: "life hs Closing s \<Longrightarrow> on_disconnect hs a s = Ok s' \<Longrightarrow> life hs HalfClosed s'"
| life_closed: "life hs HalfClosed s \<Longrightarrow> on_disconnect hs a s = Ok s' \<Longrightarrow> life hs Closed s'"

fun phase_link :: "phase \<Rightarrow> (bool \<times> bool) \<times> bool \<times> bool \<times> bool" where
  "phase_link Opened = ((False, False), False, False, False)"
| "phase_link Half = ((True, False), False, False, False)"
| "phase_link Up = ((True, True), True, False, False)"
| "phase_link Lost = ((False, True), True, False, False)"
| "phase_link Dropped = ((False, False), True, False, True)"
| "phase_link Closing = ((True, True), True, True, False)"
| "phase_link HalfClosed = ((False, True), True, True, False)"
| "phase_link Closed = ((False, False), True, True, True)"

lemma works_link: "tame hs \<Longrightarrow> works hs s s' \<Longrightarrow> link s' = link s"
  by (erule works.cases) (auto dest: command_link lua_subscribe_link lua_on_link on_write_link on_read_link on_timer_link)

lemma release_link: "release_callbacks s = Ok s' \<Longrightarrow> link s' = link s"
  by (auto simp: release_callbacks_def link_def elim!: cbindE)

lemma opened_link:
  assumes "lua_client_new hs path ignore w = Ok (Ret s)" and "lua_client_connect hs s = Ok (Ret n, s')"
  shows "link s' = phase_link Opened"
proof -
  have "cx_stream_flags (s_cx s) = 0"
    using assms(1) by (auto simp: lua_client_new_def elim!: cbindE split: outcome_splits)
  with assms(2) show ?thesis
    by (auto simp: lua_client_connect_def pipe_connect_def Let_def link_def flag_simps elim!: cbindE split: outcome_splits)
qed

lemma connect_link:
  assumes "tame hs" and "on_connect hs req 0 s = Ok s'"
  shows "link s = phase_link Opened \<Longrightarrow> link s' = phase_link Half" and "link s = phase_link Half \<Longrightarrow> link s' = phase_link Up"
  using assms(2)
  by (auto simp: on_connect_def Let_def link_def [of s] elim!: cbindE split: outcome_splits dest!: lua_link(3) [OF assms(1)])
     (auto simp: link_def flag_simps)

lemma disconnect_link:
  assumes "lua_client_disconnect s = Ok (res, s')"
  shows "link s = phase_link Up \<Longrightarrow> link s' = phase_link Closing" and "link s = phase_link Closing \<Longrightarrow> link s' = phase_link Closing"
  using assms by (auto simp: lua_client_disconnect_def link_def flag_simps elim!: cbindE split: outcome_splits)

lemma close_link:
  assumes "tame hs" and "on_disconnect hs a s = Ok s'"
  shows "link s = phase_link Up \<Longrightarrow> link s' = phase_link Lost" and "link s = phase_link Lost \<Longrightarrow> link s' = phase_link Dropped"
    and "link s = phase_link Closing \<Longrightarrow> link s' = phase_link HalfClosed" and "link s = phase_link HalfClosed \<Longrightarrow> link s' = phase_link Closed"
  using assms(2)
  by (auto simp: on_disconnect_def Let_def link_def [of s] close_flags elim!: cbindE split: outcome_splits
      dest!: lua_link(3) [OF assms(1)] release_link)
     (auto simp: link_def flag_simps)

text \<open>
  C7. The flags follow the connection: whatever commands, subscriptions, writes, chunks and timers come
  between, as long as the Lua functions called leave the connection alone, the five flags are
  at every moment those of the phase the connection is in.
\<close>

theorem connection_phases:
  assumes "tame hs" and "life hs ph s"
  shows "link s = phase_link ph"
  using assms(2)
proof (induction rule: life.induct)
  case (life_works ph s s')
  then show ?case using works_link [OF assms(1)] by metis
qed (use opened_link connect_link [OF assms(1)] disconnect_link close_link [OF assms(1)] in metis)+

lemma tame_hosts: "tame quiet_host" "tame chatty_host"
proof -
  show q: "tame quiet_host" by (simp add: tame_def)
  show "tame chatty_host"
    by (auto simp: tame_def chatty_host_def elim!: cbindE split: outcome_splits dest: command_link [OF q])
qed

lemma up_client:
  obtains s a b e where "life chatty_host Up s" and "client_at empty_store [] (- 1) [] e [] s" and "two_streams a b s"
    and "no_subs s" and "cx_disconnect_cb (s_cx s) = hs_noref chatty_host"
proof -
  have fresh: "world_fresh queue_world" using queue_world_empty by (simp add: cb_queue_def)
  obtain s a b q1 q2 where op: "open_session chatty_host ''/tmp/redis.sock'' None queue_world = Ok s"
    and s: "connecting chatty_host 1 a b q1 q2 s"
    using open_session_connecting [OF fresh host_simps(2), of "''/tmp/redis.sock''" None]
    by (auto simp: runs_iff queue_world_def)
  obtain s0 r where new: "lua_client_new chatty_host (AStr ''/tmp/redis.sock'') None queue_world = Ok (Ret s0)"
    and con: "lua_client_connect chatty_host s0 = Ok (r, s)"
    using op by (auto simp: open_session_def elim!: cbindE split: outcome_splits)
  have "cx_stream (s_cx s0) = None" using new by (auto simp: lua_client_new_def elim!: cbindE split: outcome_splits)
  then obtain n where "r = Ret n"
    using con s by (auto simp: lua_client_connect_def connecting_def Let_def elim!: cbindE split: outcome_splits)
  then have "life chatty_host Opened s" using new con by (auto intro: life_opened)
  moreover have "runs (cbind (on_connect chatty_host q1 0 s) (on_connect chatty_host q2 0)) (\<lambda>s'.
      client_at empty_store [] (- 1) [] 1 [] s' \<and> two_streams a b s' \<and> no_subs s' \<and> cx_disconnect_cb (s_cx s') = hs_noref chatty_host)"
    by (rule runs_mono [OF connected_twice [OF s]]) (use s in \<open>simp add: two_streams_def no_subs_def connecting_def\<close>)
  then obtain s1 s2 where "on_connect chatty_host q1 0 s = Ok s1" "on_connect chatty_host q2 0 s1 = Ok s2"
    "client_at empty_store [] (- 1) [] 1 [] s2" "two_streams a b s2" "no_subs s2" "cx_disconnect_cb (s_cx s2) = hs_noref chatty_host"
    by (auto simp: runs_iff elim!: cbindE)
  ultimately show thesis using that life_first life_second by metis
qed

theorem connection_phases_witness:
  "\<exists>s. life chatty_host Closed s \<and> link s = ((False, False), True, True, True)"
proof -
  obtain s a b e where up: "life chatty_host Up s" and at: "client_at empty_store [] (- 1) [] e [] s" "two_streams a b s" "no_subs s"
    and dc: "cx_disconnect_cb (s_cx s) = hs_noref chatty_host" by (rule up_client)
  have nr: "call_if_set chatty_host (cx_disconnect_cb (s_cx s)) [] s' = Ok s'" for s'
    by (simp add: call_if_set_def dc has_ref_def)
  have over: "subscribed_over (s_w s) e [] s" using at no_subs_over(1) by (simp add: client_at_def)
  obtain s1 where s1: "lua_client_disconnect s = Ok (Ret 1, s1)"
    and s2: "\<And>p q. (p, q) \<in> {(a, b), (b, a)} \<Longrightarrow> \<exists>s2. cbind (on_disconnect chatty_host p s1) (on_disconnect chatty_host q) =
        call_if_set chatty_host (cx_disconnect_cb (s_cx s)) [] s2 \<and> w_trace (s_w s2) = w_trace (s_w s1) @ map TimerStop (timers_of s) \<and> released (s_w s) e [] a b s2 \<and>
        w_reqs (s_w s2) = rev (timers_of s) @ w_reqs (s_w s) \<and> w_next (s_w s2) = w_next (s_w s) \<and> cx_stream (s_cx s2) = Some a \<and> cx_list (s_cx s2) = Some e \<and>
        has_flag (cx_flags (s_cx s2)) REDIS_CONNECTED"
    using disconnected [OF at(1,2) over, of chatty_host] by metis
  have "\<exists>s2. cbind (on_disconnect chatty_host a s1) (on_disconnect chatty_host b) = Ok s2"
    using s2 [of a b] unfolding nr by blast
  moreover have "life chatty_host Closing s1" using life_closing [OF up s1] .
  ultimately obtain s2 s3 where "on_disconnect chatty_host a s1 = Ok s2" "on_disconnect chatty_host b s2 = Ok s3" "life chatty_host Closing s1"
    by (auto elim!: cbindE)
  then have "life chatty_host Closed s3" using life_half_closed life_closed by metis
  then show ?thesis using connection_phases [OF tame_hosts(2), of Closed s3] by auto
qed

end
