(* ===== verification/Snail_Faults.thy ===== *)
theory Snail_Faults
  imports Snail_Session
begin

text \<open>
  Replies that the handler \<open>on_read\<close> does not expect: one that no command asked for, and those that
  follow the first one in monitor mode.
\<close>

section \<open>The first reply of a chunk\<close>

text \<open>The reader, the stream and the flags of a client that reads on its command stream.\<close>

definition reading :: "rstore \<Rightarrow> nat \<Rightarrow> snail \<Rightarrow> bool" where
  "reading h a s \<longleftrightarrow> (\<exists>r. get_reader s = Ok r \<and> reader_state h [] (- 1) [] r \<and> r_pos r < 1024) \<and>
     \<not> has_flag (cx_flags (s_cx s)) REDIS_DISCONNECTING \<and> stream_ready a s"

lemma prun_Nil: "prun [] (- 1) [] = Blocked [] (- 1) []"
  by code_simp

lemma encode_not_Nil: "wf_resp 0 t \<Longrightarrow> encode t \<noteq> []"
  using prun_encode_root [of t "[]"] by (auto simp: prun_Nil)

lemma first_reply:
  assumes "reading h a s" and "grants_all (hs_env hs)" and "wf_resp 0 t" and "length (encode t) < 2 ^ 29"
    and "hs_fuel hs = Suc n"
  obtains r1 where "reader_state (store_of h (layout (rs_next h) t)) [] (- 1) [] r1" and "r_pos r1 < 1024"
    and "on_read hs a (int (length (encode t))) buf (encode t) s =
      cbind (cbind (deliver_reply hs (rs_next h) None (put_reader (upd_w s (\<lambda>w. buf_free w buf)) r1))
        (\<lambda>(cb, s). replies_loop n hs False cb s)) (\<lambda>(go, s). if go then stop_if_idle False a s else Ok s)"
proof -
  obtain r where r: "get_reader s = Ok r" "reader_state h [] (- 1) [] r" "r_pos r < 1024"
    using assms(1) by (auto simp: reading_def)
  have ctx: "handle_context (s_w s) a = Ok ()" "cx_sub_stream (s_cx s) \<noteq> Some a" "\<not> has_flag (cx_flags (s_cx s)) REDIS_DISCONNECTING"
    using assms(1) by (auto simp: reading_def stream_ready_def handle_context_def)
  have lim: "r_len r + int (length (encode t)) < 2 ^ 30"
    using reader_state_len [OF r(2)] assms(4) r(3) by simp
  have "runs (redisReaderFeed (hs_env hs) r (Some (encode t)) (int (length (encode t))))
      (feed_post (hs_env hs) h [] (- 1) ([] @ take (length (encode t)) (encode t)) (r_pos r))"
    using r(2) assms(2) lim by (intro redisReaderFeed_refines) auto
  then obtain r0 where feed: "redisReaderFeed (hs_env hs) r (Some (encode t)) (int (length (encode t))) = Ok (REDIS_OK, r0)"
    and r0: "reader_state h [] (- 1) (encode t) r0" "r_pos r0 < 1024"
    using assms(2) r(3) by (fastforce simp: feed_post_def out_of_memory_def runs_iff)
  have "prun [] (- 1) (encode t) = Done t []" using prun_encode_root [OF assms(3), of "[]"] by simp
  from getReply_done [OF r0(1) this assms(2)] obtain r1 where get: "redisReaderGetReply (hs_env hs) r0 = Ok (REDIS_OK, Some (rs_next h), r1)"
    and r1: "reader_state (store_of h (layout (rs_next h) t)) [] (- 1) [] r1" "r_pos r1 < 1024"
    by blast
  let ?s = "upd_w (put_reader s r0) (\<lambda>w. buf_free w buf)"
  have live: "get_reader ?s = Ok r0" "put_reader ?s r1 = put_reader (upd_w s (\<lambda>w. buf_free w buf)) r1"
    using r(1) by (simp_all add: get_reader_def put_reader_def upd_cx_def upd_w_def split: if_splits)
  have "on_read hs a (int (length (encode t))) buf (encode t) s =
      cbind (replies_loop (hs_fuel hs) hs False None ?s) (\<lambda>(go, s). if go then stop_if_idle False a s else Ok s)"
    using r(1) feed ctx encode_not_Nil [OF assms(3)] by (simp add: on_read_def Let_def)
  also have "replies_loop (hs_fuel hs) hs False None ?s =
      cbind (deliver_reply hs (rs_next h) None (put_reader (upd_w s (\<lambda>w. buf_free w buf)) r1)) (\<lambda>(cb, s). replies_loop n hs False cb s)"
    by (simp add: assms(5) live get redis_status)
  finally show thesis using that r1 by blast
qed

text \<open>
  C16. A reply nobody asked for is not ignored: with no callback in the list the code tests the
  reference in a local variable that was never written.
\<close>

theorem unasked_reply_faults:
  assumes "client_at h [] (- 1) [] e [] s" and "stream_ready a s" and "grants_all (hs_env hs)" and "0 < hs_fuel hs"
    and "wf_resp 0 t" and "length (encode t) < 2 ^ 29"
  shows "on_read hs a (int (length (encode t))) buf (encode t) s = Flt Uninitialised"
proof -
  have "reading h a s" using assms(1,2) by (auto simp: reading_def client_at_def connected_def get_reader_def)
  obtain n where n: "hs_fuel hs = Suc n" using assms(4) by (cases "hs_fuel hs") auto
  obtain r1 where run: "on_read hs a (int (length (encode t))) buf (encode t) s =
      cbind (cbind (deliver_reply hs (rs_next h) None (put_reader (upd_w s (\<lambda>w. buf_free w buf)) r1))
        (\<lambda>(cb, s). replies_loop n hs False cb s)) (\<lambda>(go, s). if go then stop_if_idle False a s else Ok s)"
    using first_reply [OF \<open>reading h a s\<close> assms(3,5,6) n, of buf] by blast
  have "client_at h [] (- 1) [] e [] (upd_w s (\<lambda>w. buf_free w buf))" using assms(1) by simp
  then have q: "cb_queue (buf_free (s_w s) buf) e []" "cx_list (s_cx s) = Some e" by (simp_all add: client_at_def)
  then have "shift_cb (buf_free (s_w s) buf) (Some e) = Ok (SNAIL_ERR, None, buf_free (s_w s) buf)"
    using shift_cb_queue [OF q(1)] by (auto simp: runs_iff)
  then show ?thesis
    unfolding run using q(2) by (simp add: deliver_reply_def put_reader_def cb_flag_defs never_written_def SNAIL_ERR_def SNAIL_OK_def)
qed


theorem unasked_reply_faults_witness:
  "\<exists>s a. calls s = [] \<and> on_read quiet_host a (int (length (encode (RStatus ''OK'')))) (0, 64) (encode (RStatus ''OK'')) s = Flt Uninitialised"
proof -
  obtain s a e where s: "client_at empty_store [] (- 1) [] e [] s" "stream_ready a s" "calls s = []"
    by (rule ready_client)
  from unasked_reply_faults [OF s(1,2) host_simps(1), of "RStatus ''OK''" "(0, 64)"] s(3) show ?thesis
    by (auto simp: crlf_def)
qed

section \<open>Monitoring\<close>

text \<open>The callback pushed again in monitor mode is a local variable: the list holds its dead address.\<close>

definition dangles :: "world \<Rightarrow> nat \<Rightarrow> bool" where
  "dangles w e \<longleftrightarrow> (\<exists>en p l. w_ends w e = Some en \<and> e_head en = Some p \<and> w_ll w p = Some l \<and> w_call w (ll_cb l) = None)"

lemma shift_dangles: "dangles w e \<Longrightarrow> shift_cb w (Some e) = Flt UseAfterFree"
  by (auto simp: dangles_def shift_cb_def)

lemma dangles_buf [simp]: "dangles (buf_free w buf) e = dangles w e"
  by (simp add: dangles_def buf_free_def)

lemma repush_dangles:
  assumes "cb_queue (s_w s) e []" and "cx_list (s_cx s) = Some e" and "grants_all (hs_env hs)"
  shows "\<exists>w. repush_monitor hs (Some (command_cb r)) s = Ok (s\<lparr>s_w := w\<rparr>) \<and> dangles w e \<and> w_hand w = w_hand (s_w s) \<and> w_trace w = w_trace (s_w s)"
proof -
  have ends: "w_ends (s_w s) e = Some \<lparr>e_head = None, e_tail = None\<rparr>" using assms(1) by (auto simp: cb_queue_def)
  let ?c = "w_next (s_w s)"
  let ?w = "(s_w s)\<lparr>w_next := Suc (Suc ?c), w_ll := (w_ll (s_w s))(Suc ?c \<mapsto> \<lparr>ll_cb = ?c, ll_next = None\<rparr>),
     w_ends := (w_ends (s_w s))(e \<mapsto> \<lparr>e_head = Some (Suc ?c), e_tail = Some (Suc ?c)\<rparr>), w_call := (w_call (s_w s))(?c := None)\<rparr>"
  have "repush_monitor hs (Some (command_cb r)) s = Ok (s\<lparr>s_w := ?w\<rparr>)"
    using ends assms by (simp add: repush_monitor_def wrap_cb_def push_cb_def put_defs Let_def s_int_ok command_cb_def SNAIL_OK_def)
  moreover have "dangles ?w e" by (simp add: dangles_def)
  ultimately show ?thesis by (intro exI [of _ ?w]) simp
qed

definition monitoring :: "snail \<Rightarrow> snail" where
  "monitoring s = upd_cx s (\<lambda>cx. cx\<lparr>cx_flags := set_flag (cx_flags cx) REDIS_MONITORING\<rparr>)"

lemma monitor_delivers:
  assumes "reader_state (store_of h (layout (rs_next h) t)) [] (- 1) [] r1" and "r_pos r1 < 1024" and "fresh h"
    and "cb_queue (s_w s) e [(x, c, r)]" and "cx_list (s_cx s) = Some e" and "get_reader s = Ok r1"
    and idle: "\<And>ref args s. hs_lua hs ref args s = Ok s"
  obtains w where "deliver_reply hs (rs_next h) None s =
      Ok (Some (command_cb r), put_reader (s\<lparr>s_w := w\<rparr>) (r1\<lparr>r_store := spent h t\<rparr>))"
    and "cb_queue w e []" and "w_hand w = w_hand (s_w s)" and "lua_calls (w_trace w) = calls s @ deliveries hs [(r, t)]"
proof -
  obtain w where shift: "shift_cb (s_w s) (Some e) = Ok (SNAIL_OK, Some (command_cb r), w)"
    and w: "cb_queue w e []" "same_rest (s_w s) w"
    using shift_cb_queue [OF assms(4)] by (auto simp: runs_iff)
  have store: "r_store r1 = store_of h (layout (rs_next h) t)" using reader_state_store [OF assms(1)] by simp
  have push: "push_reply (Suc (rs_next (r_store r1))) (r_store r1) (rs_next h) = Ok (to_lua t)"
    using push_reply_layout(1) [OF at_store_of] store by (simp del: push_reply.simps)
  have free: "free_reply_object (rs_next h) (s\<lparr>s_w := w'\<rparr>) = Ok (put_reader (s\<lparr>s_w := w'\<rparr>) (r1\<lparr>r_store := spent h t\<rparr>))" for w'
    using assms(6) free_spent [OF assms(3), of t] by (cases "cx_live (s_cx s)") (simp_all add: free_reply_object_def get_reader_def store)
  have live: "get_reader (s\<lparr>s_w := w\<rparr>) = Ok r1" and command_ref: "cb_ref (command_cb r) = r"
    using assms(6) by (auto simp: get_reader_def command_cb_def split: if_splits)
  let ?w = "if has_ref hs r then emit (emit w (LuaUnref r)) (LuaCall r [LNil, to_lua t]) else w"
  have "deliver_reply hs (rs_next h) None s = Ok (Some (command_cb r), put_reader (s\<lparr>s_w := ?w\<rparr>) (r1\<lparr>r_store := spent h t\<rparr>))"
    using shift assms(5) live push free
    by (simp add: deliver_reply_def never_written_def lua_pcall_def idle luaL_unref_def upd_w_def command_ref del: push_reply.simps)
  moreover have "cb_queue ?w e []" "w_hand ?w = w_hand (s_w s)" "lua_calls (w_trace ?w) = calls s @ deliveries hs [(r, t)]"
    using w by (simp_all add: same_rest_def emit_def cb_queue_def world_fresh_def)
  ultimately show thesis using that by blast
qed


lemma monitored_reply:
  assumes "reading h a s" and "has_flag (cx_flags (s_cx s)) REDIS_MONITORING"
    and "cb_queue (s_w s) e [(x, c, r)]" and "cx_list (s_cx s) = Some e"
    and env: "grants_all (hs_env hs)" and "wf_resp 0 t" and "length (encode t) < 2 ^ 29" and fuel: "hs_fuel hs = Suc (Suc n)"
    and idle: "\<And>ref args s. hs_lua hs ref args s = Ok s"
  obtains s' h' where "on_read hs a (int (length (encode t))) buf (encode t) s = Ok s'" and "reading h' a s'"
    and "cx_list (s_cx s') = Some e" and "dangles (s_w s') e"
    and "calls s' = calls s @ deliveries hs [(r, t)]"
proof -
  obtain r1 where r1: "reader_state (store_of h (layout (rs_next h) t)) [] (- 1) [] r1" "r_pos r1 < 1024"
    and run: "on_read hs a (int (length (encode t))) buf (encode t) s =
      cbind (cbind (deliver_reply hs (rs_next h) None (put_reader (upd_w s (\<lambda>w. buf_free w buf)) r1))
        (\<lambda>(cb, s). replies_loop (Suc n) hs False cb s)) (\<lambda>(go, s). if go then stop_if_idle False a s else Ok s)"
    using first_reply [OF assms(1) env assms(6,7) fuel, of buf] by blast
  let ?s1 = "put_reader (upd_w s (\<lambda>w. buf_free w buf)) r1"
  have pre: "fresh h" "get_reader ?s1 = Ok r1" "cb_queue (s_w ?s1) e [(x, c, r)]" "cx_list (s_cx ?s1) = Some e"
    "cx_live (s_cx s)" "\<not> has_flag (cx_flags (s_cx s)) REDIS_DISCONNECTING" "calls ?s1 = calls s" "stream_ready a s"
    using assms(1,3,4) by (auto simp: reading_def reader_state_def get_reader_def put_reader_def buf_free_def cb_queue_def
        world_fresh_def split: if_splits)
  obtain w where dl: "deliver_reply hs (rs_next h) None ?s1 =
      Ok (Some (command_cb r), put_reader (?s1\<lparr>s_w := w\<rparr>) (r1\<lparr>r_store := spent h t\<rparr>))"
    and w: "cb_queue w e []" "w_hand w = w_hand (s_w ?s1)" "lua_calls (w_trace w) = calls s @ deliveries hs [(r, t)]"
    using monitor_delivers [where hs = hs, OF r1 pre(1,3,4,2) idle] pre(7) by metis
  let ?s2 = "put_reader (?s1\<lparr>s_w := w\<rparr>) (r1\<lparr>r_store := spent h t\<rparr>)"
  have st2: "reader_state (spent h t) [] (- 1) [] (r1\<lparr>r_store := spent h t\<rparr>)" by (rule reader_spent [OF r1(1) pre(1)])
  obtain r3 where get: "redisReaderGetReply (hs_env hs) (r1\<lparr>r_store := spent h t\<rparr>) = Ok (REDIS_OK, None, r3)"
    and r3: "reader_state (spent h t) [] (- 1) [] r3" "r_pos r3 < 1024"
    using getReply_blocked [OF st2 prun_Nil env] by blast
  let ?s3 = "put_reader ?s2 r3"
  obtain w' where rp: "repush_monitor hs (Some (command_cb r)) ?s3 = Ok (?s3\<lparr>s_w := w'\<rparr>)" "dangles w' e" "w_hand w' = w_hand w" "w_trace w' = w_trace w"
    using repush_dangles [of ?s3 e hs r] w(1) pre(4) env by (auto simp: put_reader_def)
  have "replies_loop (Suc n) hs False (Some (command_cb r)) ?s2 = Ok (True, ?s3\<lparr>s_w := w'\<rparr>)"
    using get pre(5,6) assms(2) rp(1) by (simp add: get_reader_def put_reader_def redis_status)
  moreover have "stop_if_idle False a (?s3\<lparr>s_w := w'\<rparr>) = Ok (?s3\<lparr>s_w := w'\<rparr>)"
    using rp(2) pre(4) by (auto simp: stop_if_idle_def list_is_empty_def put_reader_def dangles_def)
  ultimately have "on_read hs a (int (length (encode t))) buf (encode t) s = Ok (?s3\<lparr>s_w := w'\<rparr>)"
    unfolding run dl by (simp del: replies_loop.simps)
  moreover have "reading (spent h t) a (?s3\<lparr>s_w := w'\<rparr>)"
    using r3 pre(5,6,8) rp(3) w(2) by (simp add: reading_def get_reader_def put_reader_def stream_ready_def buf_free_def)
  ultimately show thesis
    by (rule that) (use rp w pre(4) assms(4) in \<open>simp_all add: put_reader_def\<close>)
qed

text \<open>
  C17. Monitoring works for one reply: its callback is called and pushed again, but what is pushed is
  the address of a local variable of \<open>on_read\<close>, and the next reply reads it after its life.
\<close>

theorem monitor_callback_dangles:
  assumes "client_at h [] (- 1) [] e [(x, c, r)] s" and "stream_ready a s" and "grants_all (hs_env hs)" and "1 < hs_fuel hs"
    and "wf_resp 0 t" and "length (encode t) < 2 ^ 29" and "wf_resp 0 t'" and "length (encode t') < 2 ^ 29"
    and "\<And>ref args s. hs_lua hs ref args s = Ok s"
  shows "\<exists>s'. on_read hs a (int (length (encode t))) buf (encode t) (monitoring s) = Ok s' \<and>
           calls s' = calls s @ deliveries hs [(r, t)] \<and>
           on_read hs a (int (length (encode t'))) buf' (encode t') s' = Flt UseAfterFree"
proof -
  obtain n where n: "hs_fuel hs = Suc (Suc n)" using assms(4) by (auto simp: less_iff_Suc_add)
  have "reading h a (monitoring s)" "has_flag (cx_flags (s_cx (monitoring s))) REDIS_MONITORING"
    "cb_queue (s_w (monitoring s)) e [(x, c, r)]" "cx_list (s_cx (monitoring s)) = Some e"
    using assms(1,2) by (auto simp: reading_def client_at_def connected_def get_reader_def monitoring_def stream_ready_def flag_simps)
  from monitored_reply [OF this assms(3,5,6) n assms(9), of buf] obtain s' h' where
    s': "on_read hs a (int (length (encode t))) buf (encode t) (monitoring s) = Ok s'" "reading h' a s'"
      "cx_list (s_cx s') = Some e" "dangles (s_w s') e"
      "calls s' = calls (monitoring s) @ deliveries hs [(r, t)]" by blast
  obtain r1 where run: "on_read hs a (int (length (encode t'))) buf' (encode t') s' =
      cbind (cbind (deliver_reply hs (rs_next h') None (put_reader (upd_w s' (\<lambda>w. buf_free w buf')) r1))
        (\<lambda>(cb, s). replies_loop (Suc n) hs False cb s)) (\<lambda>(go, s). if go then stop_if_idle False a s else Ok s)"
    using first_reply [OF s'(2) assms(3,7,8) n, of buf'] by blast
  have "shift_cb (buf_free (s_w s') buf') (Some e) = Flt UseAfterFree"
    using s'(4) by (intro shift_dangles) simp
  then have "on_read hs a (int (length (encode t'))) buf' (encode t') s' = Flt UseAfterFree"
    unfolding run using s'(3) by (simp add: deliver_reply_def put_reader_def)
  with s' show ?thesis by (auto simp: monitoring_def)
qed

theorem monitor_callback_dangles_witness:
  "\<exists>s a s'. on_read quiet_host a (int (length (encode (RStatus ''OK'')))) (0, 64) (encode (RStatus ''OK'')) (monitoring s) = Ok s' \<and>
     calls s' = [(7, [LNil, LStr ''OK''])] \<and>
     on_read quiet_host a (int (length (encode (RStatus ''GET'')))) (0, 64) (encode (RStatus ''GET'')) s' = Flt UseAfterFree"
proof -
  obtain s a e where s: "client_at empty_store [] (- 1) [] e [] s" "stream_ready a s" "calls s = []"
    by (rule ready_client)
  obtain s1 where "sent empty_store [] (- 1) [] e [] 7 (encode (RArray (map RString [''PING'']))) s s1"
    using plain_call_sent [OF s(1) host_simps(1) host_simps(3) plain_calls(1) [of 7]] by (auto simp: runs_iff)
  then obtain x c where s1: "client_at empty_store [] (- 1) [] e [(x, c, 7)] s1" "stream_ready a s1" "calls s1 = []"
    using s by (auto simp: sent_def keeps_def)
  from monitor_callback_dangles [OF s1(1,2) host_simps(1), of "RStatus ''OK''" "RStatus ''GET''" "(0, 64)" "(0, 64)"] s1(3)
  show ?thesis by (auto simp: crlf_def)
qed

end
