(* ===== verification/Snail_Release.thy ===== *)
theory Snail_Release
  imports Snail_Lifecycle
begin

text \<open>
  The end of subscriptions: however many there are, \<open>exit\<close> gives back what they took, but for
  timer subscriptions to an interval that was known.
\<close>

text \<open>Registration changes nothing else of a client.\<close>

lemma only_subs_field:
  assumes "only_subs s s'" and "\<And>cx. f (cx\<lparr>cx_channels := Tip, cx_patterns := Tip, cx_timers := Tip\<rparr>) = f cx"
  shows "f (s_cx s') = f (s_cx s)"
  using assms unfolding only_subs_def by metis

lemma only_subs_list: "only_subs s s' \<Longrightarrow> cx_list (s_cx s') = cx_list (s_cx s)"
  by (rule only_subs_field) simp_all

lemma registered_client:
  assumes o: "only_subs s s'" and q: "cb_queue (s_w s') e xs"
  shows "client_at h fs ty u e xs s \<Longrightarrow> client_at h fs ty u e xs s'" and "two_streams a b s \<Longrightarrow> two_streams a b s'"
proof -
  have w: "w_hand (s_w s') = w_hand (s_w s)" "w_reqs (s_w s') = w_reqs (s_w s)" using o by (simp_all add: only_subs_def quiet_def)
  have cx: "cx_live (s_cx s') = cx_live (s_cx s)" "cx_reader (s_cx s') = cx_reader (s_cx s)" "cx_list (s_cx s') = cx_list (s_cx s)"
    "cx_flags (s_cx s') = cx_flags (s_cx s)" "cx_stream_flags (s_cx s') = cx_stream_flags (s_cx s)" "cx_stream (s_cx s') = cx_stream (s_cx s)"
    "cx_sub_stream (s_cx s') = cx_sub_stream (s_cx s)"
    by (rule only_subs_field [OF o], simp)+
  show "client_at h fs ty u e xs s \<Longrightarrow> client_at h fs ty u e xs s'" "two_streams a b s \<Longrightarrow> two_streams a b s'"
    using q by (simp_all add: client_at_def connected_def two_streams_def cx w)
qed

text \<open>
  C10. A subscription counts the lists it is in, so \<open>exit\<close> releases it exactly once: after any number
  of subscriptions to channels, patterns and timers, each callback in as many lists as it has
  names and new intervals, the store holds what it held before, without the commands that waited.
  Every subscription must find a place: it has a name, or an interval that no subscription before it
  has used. What happens to the others is C11.
\<close>

theorem subscriptions_released:
  assumes at: "client_at h fs ty u e xs s" and st: "two_streams a b s" and "no_subs s" and env: "grants_all (hs_env hs)"
    and placed: "all_placed {} rs" and room: "keys_of rs < 2 ^ 31"
  shows "runs (cbind (register_all (hs_env hs) rs s) (lua_client_exit hs)) (\<lambda>(res, s'). res = Ret 0 \<and> released (s_w s) e xs a b s')"
proof -
  have q: "cb_queue (s_w s) e xs" using at by (simp add: client_at_def)
  then have "subs_held (s_w s) (\<lambda>_. []) {} s" using assms(3) no_subs_held by (simp add: cb_queue_def)
  moreover have "length (sub_cells (\<lambda>_. []) s) + keys_of rs < 2 ^ 31"
    using room assms(3) by (simp add: sub_cells_def all_nodes_def no_subs_def)
  moreover have "timer_keys s \<subseteq> {}" using assms(3) by (simp add: timer_keys_def no_subs_def)
  ultimately obtain L C s1 where s1: "register_all (hs_env hs) rs s = Ok s1" "subs_held (s_w s) L C s1" "C \<subseteq> attached L s1" "only_subs s s1"
    using register_all_held [OF _ env _ _ placed] by blast
  then have "subs_over (s_w s) (s_w s1) L (all_nodes s1) C" by (simp add: subs_held_def subs_at_def)
  then have "cb_queue (s_w s1) e xs" using q by (rule subs_queue)
  note client = registered_client [OF s1(4) this]
  have "subscribed_over (s_w s) e xs s1" using s1(2,3) q by (auto simp: subscribed_over_def)
  from exit_runs [OF client(1) [OF at] client(2) [OF st] this, of hs] show ?thesis
    unfolding s1(1) by (auto elim!: runs_mono)
qed

text \<open>Two subscriptions with names, and one with intervals only, of which one is new.\<close>

definition sample_subs :: "subscription list" where
  "sample_subs = [(False, 7, [''news'', ''sport''], [''__timer@0__:500'']), (True, 8, [''n*''], []),
     (False, 9, [], [''__timer@0__:500'', ''__timer@0__:250''])]"

theorem subscriptions_released_witness:
  "\<exists>s. calls s = [] \<and> runs (cbind (register_all libc_env sample_subs s)
     (lua_client_exit quiet_host)) (\<lambda>(res, s'). res = Ret 0 \<and> w_call (s_w s') = w_call (s_w s) \<and> w_chan (s_w s') = w_chan (s_w s) \<and>
       w_node (s_w s') = w_node (s_w s))"
proof -
  obtain s a b e where at: "client_at empty_store [] (- 1) [] e [] s" and st: "two_streams a b s" and ns: "no_subs s" and c: "calls s = []"
    by (rule connected_client)
  have all: "m |` UNIV = m" for m :: "nat \<Rightarrow> 'a option" by (simp add: fun_eq_iff)
  have "timer_interval ''__timer@0__:500'' = 500" "timer_interval ''__timer@0__:250'' = 250" by code_simp+
  then have "all_placed {} sample_subs" "keys_of sample_subs < 2 ^ 31" by (simp_all add: sample_subs_def keys_of_def)
  moreover have "hs_env quiet_host = libc_env" by (simp add: quiet_host_def)
  ultimately have "runs (cbind (register_all libc_env sample_subs s)
     (lua_client_exit quiet_host)) (\<lambda>(res, s'). res = Ret 0 \<and> released (s_w s) e [] a b s')"
    using subscriptions_released [OF at st ns host_simps(1), of sample_subs] by simp
  then have "runs (cbind (register_all libc_env sample_subs s)
     (lua_client_exit quiet_host)) (\<lambda>(res, s'). res = Ret 0 \<and> w_call (s_w s') = w_call (s_w s) \<and> w_chan (s_w s') = w_chan (s_w s) \<and>
       w_node (s_w s') = w_node (s_w s))"
    by (rule runs_mono) (auto simp: released_def emptied_def all)
  with c show ?thesis by blast
qed

text \<open>
  C11. A timer subscription to an interval that is known already is lost: the callback is made, but
  put into no list, so that it is never called, and nothing releases it, not even \<open>exit\<close>.
\<close>

theorem known_timer_lost:
  assumes s: "subs_held w0 L C s" and q: "cb_queue w0 e xs" and e: "cx_list (s_cx s) = Some e" and env: "grants_all env"
    and found: "search_timer (s_w s) (timer_interval key) (cx_timers (s_cx s)) = Ok t" and room: "length (sub_cells L s) + 1 < 2 ^ 31"
  shows "\<exists>c s'. register_subscription env pv ref [] [key] s = Ok s' \<and> w_call (s_w s) c = None \<and>
           map_option cb_ref (w_call (s_w s') c) = Some ref \<and> w_ll (s_w s') = w_ll (s_w s) \<and> w_ends (s_w s') = w_ends (s_w s) \<and>
           runs (release_callbacks s') (\<lambda>s''. w_call (s_w s'') c \<noteq> None)"
proof -
  let ?c = "w_next (s_w s)" and ?s = "with_callback s ref 1"
  note new = register_start(1) [OF s] and start = register_start(2) [OF s, where n = 1 and ref = ref]
  let ?h = "w_next (s_w ?s)" and ?k = "timer_interval key"
  have "filling w0 L (insert ?c C) ?c [] (Suc 0) ?s" using start by simp
  then obtain w where w: "set_channel (put_chan (bump (s_w ?s)) ?h \<lparr>ch_name = None, ch_ikey = ?k, ch_flags = CHANNEL_TIMER_EVENT\<rparr>) ?c (length ([] :: nat list)) (Some ?h) = Ok w"
    "filling w0 L (insert ?c C) ?c ([] @ [?h]) 0 (?s\<lparr>s_w := w\<rparr>)" "only_subs ?s (?s\<lparr>s_w := w\<rparr>)"
    "w_node w = w_node (s_w ?s)"
    by (rule filling_channel)
  let ?s' = "?s\<lparr>s_w := w\<rparr>"
  have cx: "s_cx ?s' = s_cx s" by (simp add: with_callback_def)
  have parts: "w_node w = w_node (s_w s)" "w_ll w = w_ll (s_w s)" "w_ends w = w_ends (s_w s)" "map_option cb_ref (w_call w ?c) = Some ref"
    using w(1) by (auto simp: set_channel_def with_callback_def put_defs split: if_splits)
  have tree: "timer_tree w (cx_timers (s_cx s))" using s tree_cong [OF parts(1)] by (simp add: subs_held_def subs_at_def)
  have "search_timer w ?k (cx_timers (s_cx s)) = Ok t" using found search_timer_cong [OF parts(1)] by simp
  from insert_timer_found [OF tree this] have ins: "insert_timer env w (cx_timers (s_cx s)) ?k = Ok (0, cx_timers (s_cx s), Some t, w)" .
  have "register_subscription env pv ref [] [key] s = subscribe_timer env ?c 0 key ?s"
    unfolding register_begins [OF env] by (cases "subscribe_timer env ?c 0 key ?s") simp_all
  also have "\<dots> = Ok ?s'"
    using w(1) ins env cx by (simp add: subscribe_timer_def create_timer_channel_def Let_def upd_cx_def)
  finally have run: "register_subscription env pv ref [] [key] s = Ok ?s'" .
  have held: "subs_held w0 L (insert ?c C) ?s'"
    using w(2) by (auto simp: filling_def subs_held_def full_def slots_def)
  have same: "attached L ?s' = attached L s" by (simp add: attached_def sub_cells_def with_callback_def)
  have "attached L s \<subseteq> C" using s by (simp add: subs_held_def subs_at_def subs_over_def counted_def attached_def sub_cells_def)
  then have lost: "?c \<in> insert ?c C - attached L ?s'" using new same by auto
  have "cx_list (s_cx ?s') = Some e" using e cx by simp
  from release_runs [OF held q this] have "runs (release_callbacks ?s') (\<lambda>s''. w_call (s_w s'') ?c \<noteq> None)"
    by (rule runs_mono) (use lost in \<open>auto simp: bare_def\<close>)
  moreover have "w_call (s_w s) ?c = None" using s by (simp add: subs_held_def subs_at_def subs_over_def world_fresh_def)
  ultimately show ?thesis using run parts by (intro exI [of _ ?c] exI [of _ ?s']) simp
qed

theorem known_timer_lost_witness:
  "\<exists>s c s'. calls s = [] \<and> runs (register_subscription libc_env False 7 [] [''__timer@0__:500''] s) (\<lambda>s1.
     register_subscription libc_env False 8 [] [''__timer@0__:0500''] s1 = Ok s' \<and> w_call (s_w s1) c = None \<and>
     map_option cb_ref (w_call (s_w s') c) = Some 8 \<and> runs (release_callbacks s') (\<lambda>s''. w_call (s_w s'') c \<noteq> None))"
proof -
  obtain s e where at: "client_at empty_store [] (- 1) [] e [] s" and ns: "no_subs s" and c: "calls s = []" by (rule connected_client)
  have q: "cb_queue (s_w s) e []" and e: "cx_list (s_cx s) = Some e" using at by (simp_all add: client_at_def)
  then have "subs_held (s_w s) (\<lambda>_. []) {} s" using ns no_subs_held by (simp add: cb_queue_def)
  moreover have none: "sub_cells (\<lambda>_. []) s = []" using ns by (simp add: sub_cells_def all_nodes_def no_subs_def)
  ultimately obtain L d s1 where s1: "register_subscription libc_env False 7 [] [''__timer@0__:500''] s = Ok s1"
    "subs_held (s_w s) L (insert d {}) s1" "grown 1 {timer_interval ''__timer@0__:500''} d (\<lambda>_. []) s L s1"
    using register_runs_held [of "s_w s" "\<lambda>_. []" "{}" s libc_env "[]" "[''__timer@0__:500'']" False 7] by auto
  have k: "timer_interval ''__timer@0__:500'' = 500" "timer_interval ''__timer@0__:0500'' = 500" by code_simp+
  have "search_timer (s_w s1) 500 (cx_timers (s_cx s1)) = Ok (Suc (Suc (w_next (s_w s))))"
    using s1(1) k(1) ns
    by (auto simp: no_subs_def register_begins with_callback_def subscribe_timer_def create_timer_channel_def set_channel_def new_node_def
        attach_callback_def wrap_cb_def push_cb_def put_defs never_written_def s_int_ok Let_def cbind_assoc)
  moreover have "cx_list (s_cx s1) = Some e" using only_subs_list [of s s1] s1(3) e by (simp add: grown_def)
  moreover have "length (sub_cells L s1) + 1 < 2 ^ 31" using s1(3) none by (simp add: grown_def)
  ultimately obtain c s' where "register_subscription libc_env False 8 [] [''__timer@0__:0500''] s1 = Ok s'" "w_call (s_w s1) c = None"
     "map_option cb_ref (w_call (s_w s') c) = Some 8" "runs (release_callbacks s') (\<lambda>s''. w_call (s_w s'') c \<noteq> None)"
    using known_timer_lost [OF s1(2) q _ grants_all_libc_env, of "''__timer@0__:0500''"] k(2) by metis
  with c s1(1) show ?thesis by (intro exI [of _ s] exI [of _ c] exI [of _ s']) simp
qed

end
