(* ===== verification/Resp_Counts.thy ===== *)
theory Resp_Counts
  imports Snail_Reply
begin

text \<open>
  Element counts out of range: what the reader of \<open>src/src/hiredis-light.c\<close> does with an array header
  whose count is negative, or does not fit the \<open>int\<close> it is passed in. The abstract parser leaves both out.
\<close>

text \<open>The array object without element vector that a count gives which is not positive as an \<open>int\<close>.\<close>

definition hollow :: "int \<Rightarrow> redisReply" where
  "hollow n = (new_obj REDIS_REPLY_ARRAY)\<lparr>rr_elements := c_size n\<rparr>"

lemma createArrayObject_hollow:
  assumes cr: "creating h fs ty r cur" and env: "grants_all env" and "n \<le> 0"
  shows "createArrayObject env r cur n =
    Ok (Some (rs_next h + used fs), r\<lparr>r_store := store_of h (seg (rs_next h) fs (Some (rs_next h + used fs)) @ [hollow n])\<rparr>)"
  using link_new [OF cr, of "[hollow n]"] new_obj_put [of h "seg (rs_next h) fs None"] assms(2,3)
  by (auto simp: createArrayObject_def creating_store [OF cr] create_store_of Let_def)
   (simp_all add: hollow_def new_obj_def)

text \<open>The first byte of an item.\<close>

lemma processItem_type:
  assumes "buffer_at (c # u) r" and "task_at r (r_ridx r) = Ok cur" and "t_type cur < 0" and "reply_type_of c = Some ty"
  shows "processItem env r =
    cbind (set_task (r\<lparr>r_pos := r_pos r + 1\<rparr>) (r_ridx r) (cur\<lparr>t_type := ty\<rparr>)) (process_typed env)"
proof -
  obtain rest where p: "rd_ptr r = Ok ((c # u) @ NUL # rest)" using assms(1) by (rule buffer_rd_ptr)
  from readBytes_one(2) [OF assms(1) refl p] assms(2-4) show ?thesis by (simp add: processItem_def mem_get_def)
qed

text \<open>A line with a number.\<close>

lemma number_line:
  assumes buf: "buffer_at (int_dec n @ crlf @ u) r" and n: "- (2 ^ 63) < n" "n < 2 ^ 63"
  obtains p l k where "readLine r = Ok (Some (p, l), r\<lparr>r_pos := r_pos r + int k\<rparr>)" and "readLongLong p = Ok n"
    and "buffer_at u (r\<lparr>r_pos := r_pos r + int k\<rparr>)"
proof -
  let ?u = "int_dec n @ crlf @ u" and ?k = "length (int_dec n) + 2"
  obtain rest where p: "rd_ptr r = Ok (?u @ NUL # rest)" using buf by (rule buffer_rd_ptr)
  have "readLongLong (?u @ NUL # rest) = Ok n"
    using readLongLong_unread [OF find_crlf_int_dec] line_number_int_dec [OF n] by simp
  moreover have "buffer_at (drop ?k ?u) (r\<lparr>r_pos := r_pos r + int ?k\<rparr>)"
    using buf by (rule buffer_consume(2)) (simp add: crlf_def)
  moreover have "drop ?k ?u = u" by (simp add: crlf_def)
  ultimately show thesis using that readLine_some [OF buf find_crlf_int_dec p] by metis
qed

text \<open>The header of an array whose count is not positive as an \<open>int\<close>, read as a reply.\<close>

lemma hollow_header:
  assumes at: "reader_at h [] (- 1) (CHR ''*'' # int_dec n @ crlf @ u) r" and fr: "fresh h"
    and n: "- (2 ^ 63) < n" "n < 2 ^ 63" "n \<noteq> - 1" "c_int n \<le> 0" and env: "grants_all env"
  obtains r1 where "buffer_at u r1" and "stack_at (rs_next h) [] REDIS_REPLY_ARRAY r1" and "r_err r1 = 0"
    and "r_len r1 = r_len r" and "r_store r1 = store_of h [hollow (c_int n)]"
    and "processItem env r = cbind (if 0 < n then push_task r1 (r_rstack r1 ! 0) n (Some (rs_next h)) else moveToNextTask r1)
           (\<lambda>r. Ok (REDIS_OK, r\<lparr>r_reply := Some (rs_next h)\<rparr>))"
proof -
  let ?v = "int_dec n @ crlf @ u"
  have core: "reader_core h [] (- 1) (CHR ''*'' # ?v) (root_of h []) r" using at by (simp add: reader_at_def)
  then have buf: "buffer_at (CHR ''*'' # ?v) r" and st: "stack_at (rs_next h) [] (- 1) r" by (simp_all add: reader_core_def)
  have core0: "reader_core h [] (- 1) ?v (root_of h []) (r\<lparr>r_pos := r_pos r + 1\<rparr>)"
    using reader_core_pos [OF core, of 1] by simp
  define r0 where "r0 = r\<lparr>r_pos := r_pos r + 1, r_rstack := (r_rstack r)[0 := (r_rstack r ! 0)\<lparr>t_type := REDIS_REPLY_ARRAY\<rparr>]\<rparr>"
  have set0: "set_task (r\<lparr>r_pos := r_pos r + 1\<rparr>) (r_ridx r) ((r_rstack r ! 0)\<lparr>t_type := REDIS_REPLY_ARRAY\<rparr>) = Ok r0"
    and core1: "reader_core h [] REDIS_REPLY_ARRAY ?v (root_of h []) r0"
    using set_type_core [OF core0, of "r_rstack r ! 0" REDIS_REPLY_ARRAY] by (simp_all add: r0_def)
  then have st0: "stack_at (rs_next h) [] REDIS_REPLY_ARRAY r0" and buf0: "buffer_at ?v r0" and err: "r_err r0 = 0"
    by (simp_all add: reader_core_def)
  have cur0: "task_at r0 (r_ridx r0) = Ok (r_rstack r0 ! 0)" and ridx: "r_ridx r0 = 0" and ty0: "t_type (r_rstack r0 ! 0) = REDIS_REPLY_ARRAY"
    using stack_cur [OF st0] st0 by (simp_all add: stack_at_def)
  obtain p l k where line: "readLine r0 = Ok (Some (p, l), r0\<lparr>r_pos := r_pos r0 + int k\<rparr>)" "readLongLong p = Ok n"
    "buffer_at u (r0\<lparr>r_pos := r_pos r0 + int k\<rparr>)"
    by (rule number_line [OF buf0 n(1,2)])
  let ?r = "r0\<lparr>r_pos := r_pos r0 + int k\<rparr>" and ?r1 = "r0\<lparr>r_pos := r_pos r0 + int k, r_store := store_of h [hollow (c_int n)]\<rparr>"
  have "creating h [] REDIS_REPLY_ARRAY ?r (r_rstack r0 ! 0)"
    using core1 fr by (simp add: creating_def reader_core_def fresh_def stack_at_def)
  from createArrayObject_hollow [OF this env n(4)]
  have make: "createArrayObject env ?r (r_rstack r0 ! 0) (c_int n) = Ok (Some (rs_next h), ?r1)" by simp
  have "processItem env r = process_typed env r0"
    using processItem_type [OF buf _ _ , of "r_rstack r ! 0" REDIS_REPLY_ARRAY env] stack_cur [OF st] st set0
    by (simp add: stack_at_def reply_type_of_def)
  also have "\<dots> = processMultiBulkItem env r0"
    using cur0 ty0 by (simp add: process_typed_def reply_types)
  also have "\<dots> = cbind (if 0 < n then push_task ?r1 (r_rstack r0 ! 0) n (Some (rs_next h)) else moveToNextTask ?r1)
      (\<lambda>r. Ok (REDIS_OK, r\<lparr>r_reply := Some (rs_next h)\<rparr>))"
    using cur0 ridx line n(3) make by (simp add: processMultiBulkItem_def set_root_def)
  finally have "processItem env r = \<dots>" .
  moreover have "stack_at (rs_next h) [] REDIS_REPLY_ARRAY ?r1" using st0 by (simp add: stack_at_def)
  moreover have "buffer_at u ?r1" using line(3) by (simp add: buffer_at_def)
  moreover have "r_len r0 = r_len r" by (simp add: r0_def)
  ultimately show thesis using that [of ?r1] err by simp
qed

text \<open>A reply that starts.\<close>

lemma getReply_starts:
  assumes st: "reader_state h [] (- 1) u r" and "u \<noteq> []"
  obtains r1 m where "reader_at h [] (- 1) u r1" and "fresh h" and "length u \<le> Suc m"
    and "redisReaderGetReply env r = cbind (items_loop (Suc (Suc m)) env r1) finish_reply"
proof -
  obtain r1 where start: "(if r_ridx r = - 1 then cbind (set_task r 0 root_task) (\<lambda>r. Ok (r\<lparr>r_ridx := 0\<rparr>)) else Ok r) = Ok r1"
    and at: "reader_at h [] (- 1) u r1" "r_len r1 = r_len r"
    using st by (rule reader_start)
  have len: "r_len r = r_pos r + int (length u)" "0 \<le> r_pos r"
    using reader_state_len [OF st] reader_state_buffer [OF st] by (auto elim!: buffer_atE)
  with assms(2) have "r_len r \<noteq> 0" by (cases u) auto
  then have "redisReaderGetReply env r = cbind (items_loop (Suc (nat (r_len r1))) env r1) finish_reply"
    using reader_state_buffer [OF st] start by (simp add: redisReaderGetReply_def finish_reply_def [abs_def] del: items_loop.simps)
  moreover have "length u \<le> nat (r_len r)" using len by simp
  moreover obtain m where "nat (r_len r) = Suc m" using \<open>length u \<le> nat (r_len r)\<close> assms(2) by (cases "nat (r_len r)") auto
  ultimately show thesis using that at st by (simp add: reader_state_def)
qed

text \<open>
  C35. A negative element count other than -1 is accepted: whatever reply the reader awaits, a header
  with a count from \<open>- 2^31\<close> to -2 is a whole reply, an array that claims \<open>2^64 + n\<close> elements and has no
  element vector. \<open>push_reply\<close>, which the client calls on it, reads through the null vector.
\<close>

theorem negative_count_accepted:
  assumes "reader_state h [] (- 1) (CHR ''*'' # int_dec n @ crlf @ u) r" and "- (2 ^ 31) \<le> n" and "n < - 1" and "grants_all env"
  shows "runs (redisReaderGetReply env r) (\<lambda>(st, rep, r'). st = REDIS_OK \<and> rep = Some (rs_next h) \<and>
           reader_state (r_store r') [] (- 1) u r' \<and>
           (\<exists>o'. rs_map (r_store r') (rs_next h) = Some o' \<and> rr_type o' = REDIS_REPLY_ARRAY \<and> rr_elements o' = 2 ^ 64 + n \<and>
              rr_element o' = None) \<and>
           (\<forall>k. push_reply (Suc k) (r_store r') (rs_next h) = Flt NullDeref))" (is "runs _ ?post")
proof -
  obtain r1 m where r1: "reader_at h [] (- 1) (CHR ''*'' # int_dec n @ crlf @ u) r1" and fr: "fresh h"
    and run: "redisReaderGetReply env r = cbind (items_loop (Suc (Suc m)) env r1) finish_reply"
    by (rule getReply_starts [OF assms(1)]) auto
  have ci: "c_int n = n" using assms(2,3) by (simp add: c_int_id)
  have cs: "c_size n = 2 ^ 64 + n" 
  proof -
    have "n mod 2 ^ 64 = (2 ^ 64 + n) mod 2 ^ 64" by simp
    also have "\<dots> = 2 ^ 64 + n" using assms(2,3) by (intro mod_pos_pos_trivial) auto
    finally show ?thesis by (simp add: c_size_def)
  qed
  obtain r2 where r2: "buffer_at u r2" "stack_at (rs_next h) [] REDIS_REPLY_ARRAY r2" "r_err r2 = 0"
    "r_store r2 = store_of h [hollow (c_int n)]"
    and item: "processItem env r1 = cbind (if 0 < n then push_task r2 (r_rstack r2 ! 0) n (Some (rs_next h)) else moveToNextTask r2)
           (\<lambda>r. Ok (REDIS_OK, r\<lparr>r_reply := Some (rs_next h)\<rparr>))"
    by (rule hollow_header [OF r1 fr _ _ _ _ assms(4)]) (use assms(2,3) ci in auto)
  let ?r = "r2\<lparr>r_ridx := - 1, r_reply := Some (rs_next h)\<rparr>"
  have ridx: "r_ridx r2 = 0" "length (r_rstack r2) = 9" using r2(2) by (simp_all add: stack_at_def)
  have "items_loop (Suc (Suc m)) env r1 = Ok ?r"
    using item ridx assms(3) reader_at_ridx [OF r1] by (simp add: moveToNextTask.simps redis_status)
  moreover have "buffer_at u ?r" using r2(1) by (simp add: buffer_at_def)
  from discard_consumed_refines [OF this] obtain b p l where "discard_consumed ?r = Ok (?r\<lparr>r_buf := b, r_pos := p, r_len := l\<rparr>)"
    and buf: "buffer_at u (?r\<lparr>r_buf := b, r_pos := p, r_len := l\<rparr>)" by blast
  ultimately have eq: "redisReaderGetReply env r = Ok (REDIS_OK, Some (rs_next h), ?r\<lparr>r_buf := b, r_pos := p, r_len := l, r_reply := None\<rparr>)"
    using r2(3) by (simp add: run finish_reply_def)
  have "reader_state (store_of h [hollow n]) [] (- 1) u (?r\<lparr>r_buf := b, r_pos := p, r_len := l, r_reply := None\<rparr>)"
    using buf r2 ridx fr ci by (simp add: reader_state_def reader_idle_def fresh_store_of buffer_at_def)
  moreover have "rs_map (store_of h [hollow n]) (rs_next h) = Some (hollow n)" by (simp add: store_of_def)
  ultimately have "?post (REDIS_OK, Some (rs_next h), ?r\<lparr>r_buf := b, r_pos := p, r_len := l, r_reply := None\<rparr>)"
    using r2(4) ci cs assms(2) by (auto simp: hollow_def new_obj_def rs_load_def reply_elements_def reply_types)
  then show ?thesis unfolding eq runs.simps .
qed

theorem negative_count_accepted_witness:
  "\<exists>r r'. redisReaderFeed libc_env sample_reader (Some (''*-2'' @ crlf)) 5 = Ok (REDIS_OK, r) \<and>
     redisReaderGetReply libc_env r = Ok (REDIS_OK, Some 0, r') \<and> push_reply 9 (r_store r') 0 = Flt NullDeref"
proof -
  have dec: "int_dec (- 2) = ''-2''" by code_simp
  obtain r where fed: "redisReaderFeed libc_env sample_reader (Some (''*-2'' @ crlf)) 5 = Ok (REDIS_OK, r)"
    and st: "reader_state empty_store [] (- 1) (CHR ''*'' # int_dec (- 2) @ crlf @ []) r"
    using sample_fed [of "''*-2'' @ crlf"] by (auto simp: crlf_def dec)
  from negative_count_accepted [OF st _ _ grants_all_libc_env] obtain r'
    where "redisReaderGetReply libc_env r = Ok (REDIS_OK, Some 0, r')" "\<forall>k. push_reply (Suc k) (r_store r') 0 = Flt NullDeref"
    by (auto simp: runs_iff simp del: push_reply.simps)
  moreover from this(2) have "push_reply (Suc 8) (r_store r') 0 = Flt NullDeref" by blast
  ultimately show ?thesis using fed by auto
qed

text \<open>An integer that is read as an element of a hollow array.\<close>

lemma hollow_element:
  assumes buf: "buffer_at (CHR '':'' # int_dec v @ crlf @ u) r" and v: "- (2 ^ 63) < v" "v < 2 ^ 63" and env: "grants_all env"
    and ridx: "r_ridx r = 1" "length (r_rstack r) = 9" and top: "t_type (r_rstack r ! 1) = - 1" "t_parent (r_rstack r ! 1) = Some 0"
    and parent: "t_obj (r_rstack r ! 0) = Some (rs_next h)" and store: "r_store r = store_of h [hollow n]"
  shows "processItem env r = Flt NullDeref"
proof -
  let ?v = "int_dec v @ crlf @ u"
  define r0 where "r0 = r\<lparr>r_pos := r_pos r + 1, r_rstack := (r_rstack r)[1 := (r_rstack r ! 1)\<lparr>t_type := REDIS_REPLY_INTEGER\<rparr>]\<rparr>"
  have "buffer_at ?v (r\<lparr>r_pos := r_pos r + 1\<rparr>)" using buffer_consume(2) [OF buf, of 1] by simp
  then have buf0: "buffer_at ?v r0" by (simp add: buffer_at_def r0_def)
  have set0: "set_task (r\<lparr>r_pos := r_pos r + 1\<rparr>) (r_ridx r) ((r_rstack r ! 1)\<lparr>t_type := REDIS_REPLY_INTEGER\<rparr>) = Ok r0"
    using ridx by (simp add: set_task_def r0_def)
  have cur: "task_at r 1 = Ok (r_rstack r ! 1)" using ridx by (simp add: task_at_def)
  have r0: "r_ridx r0 = 1" "task_at r0 1 = Ok ((r_rstack r ! 1)\<lparr>t_type := REDIS_REPLY_INTEGER\<rparr>)" "task_at r0 0 = Ok (r_rstack r ! 0)"
    "r_store r0 = store_of h [hollow n]"
    using ridx store by (simp_all add: task_at_def r0_def)
  obtain p l k where line: "readLine r0 = Ok (Some (p, l), r0\<lparr>r_pos := r_pos r0 + int k\<rparr>)" "readLongLong p = Ok v"
    by (rule number_line [OF buf0 v])
  let ?r = "r0\<lparr>r_pos := r_pos r0 + int k\<rparr>" and ?t = "(r_rstack r ! 1)\<lparr>t_type := REDIS_REPLY_INTEGER\<rparr>"
  have task: "task_at ?r i = task_at r0 i" "task_at (?r\<lparr>r_store := h'\<rparr>) i = task_at r0 i" for i h' by (simp_all add: task_at_def)
  have "rs_load (store_of h [hollow n, x]) (rs_next h) = Ok (hollow n)" for x by (simp add: rs_load_def store_of_def)
  then have "link_parent (?r\<lparr>r_store := store_of h [hollow n, x]\<rparr>) ?t a = Flt NullDeref" for x a
    using r0(3) top(2) parent by (simp add: link_parent_def task) (simp add: hollow_def new_obj_def)
  then have "createIntegerObject env ?r ?t v = Flt NullDeref"
    using r0(4) env new_obj_put [of h "[hollow n]"] by (simp add: createIntegerObject_def create_store_of)
  then have "process_typed env r0 = Flt NullDeref"
    using r0 line by (simp add: process_typed_def processLineItem_def task reply_types)
  then show ?thesis
    using processItem_type [OF buf, of "r_rstack r ! 1"] cur ridx top(1) set0 by (simp add: reply_type_of_def)
qed

text \<open>
  C36. An element count is cut to 32 bits: an array whose count is positive, but not as an \<open>int\<close> (\<open>2^32\<close>, or
  \<open>2^31\<close>), gets no room, and the first element that arrives, here any integer, is stored through the
  null vector.
\<close>

theorem count_truncated_crashes:
  assumes "reader_state h [] (- 1) (CHR ''*'' # int_dec n @ crlf @ CHR '':'' # int_dec v @ crlf @ u) r"
    and "0 < n" "n < 2 ^ 63" and "c_int n \<le> 0" and "- (2 ^ 63) < v" "v < 2 ^ 63" and "grants_all env"
  shows "redisReaderGetReply env r = Flt NullDeref"
proof -
  let ?u = "CHR '':'' # int_dec v @ crlf @ u"
  obtain r1 m where r1: "reader_at h [] (- 1) (CHR ''*'' # int_dec n @ crlf @ ?u) r1" and fr: "fresh h"
    and run: "redisReaderGetReply env r = cbind (items_loop (Suc (Suc m)) env r1) finish_reply"
    by (rule getReply_starts [OF assms(1)]) auto
  obtain r2 where r2: "buffer_at ?u r2" "stack_at (rs_next h) [] REDIS_REPLY_ARRAY r2" "r_store r2 = store_of h [hollow (c_int n)]"
    and item: "processItem env r1 = cbind (if 0 < n then push_task r2 (r_rstack r2 ! 0) n (Some (rs_next h)) else moveToNextTask r2)
           (\<lambda>r. Ok (REDIS_OK, r\<lparr>r_reply := Some (rs_next h)\<rparr>))"
    by (rule hollow_header [OF r1 fr _ _ _ _ assms(7)]) (use assms(2-4) in auto)
  have ridx: "r_ridx r2 = 0" "length (r_rstack r2) = 9" using r2(2) by (simp_all add: stack_at_def)
  obtain r3 where push: "push_task r2 (r_rstack r2 ! 0) n (Some (rs_next h)) = Ok r3" and r3: "r_ridx r3 = 1" "length (r_rstack r3) = 9"
    "t_type (r_rstack r3 ! 1) = - 1" "t_parent (r_rstack r3 ! 1) = Some 0" "t_obj (r_rstack r3 ! 0) = Some (rs_next h)"
    "r_store r3 = r_store r2" "buffer_at ?u r3"
    using ridx r2(1) by (auto simp: push_task_def set_task_def buffer_at_def)
  have "buffer_at ?u (r3\<lparr>r_reply := Some (rs_next h)\<rparr>)" using r3(7) by (simp add: buffer_at_def)
  from hollow_element [OF this assms(5-7)] have "processItem env (r3\<lparr>r_reply := Some (rs_next h)\<rparr>) = Flt NullDeref"
    using r3 r2(3) by simp
  then have "items_loop (Suc (Suc m)) env r1 = Flt NullDeref"
    using item push assms(2) r3(1) reader_at_ridx [OF r1] by (simp add: redis_status)
  then show ?thesis by (simp add: run)
qed

theorem count_truncated_crashes_witness:
  "\<exists>r. redisReaderFeed libc_env sample_reader (Some (''*4294967296'' @ crlf @ '':1'' @ crlf)) 17 = Ok (REDIS_OK, r) \<and>
     redisReaderGetReply libc_env r = Flt NullDeref"
proof -
  have dec: "int_dec 4294967296 = ''4294967296''" "int_dec 1 = ''1''"
    by (simp_all add: int_dec_def nat_dec_step nat_dec_small digit_char_def char_of_def bit_iff_odd)
  have cut: "c_int 4294967296 = 0" by (simp add: c_int_def)
  obtain r where fed: "redisReaderFeed libc_env sample_reader (Some (''*4294967296'' @ crlf @ '':1'' @ crlf)) 17 = Ok (REDIS_OK, r)"
    and st: "reader_state empty_store [] (- 1) (CHR ''*'' # int_dec 4294967296 @ crlf @ CHR '':'' # int_dec 1 @ crlf @ []) r"
    using sample_fed [of "''*4294967296'' @ crlf @ '':1'' @ crlf"] by (auto simp: crlf_def dec)
  from count_truncated_crashes [OF st _ _ _ _ _ grants_all_libc_env] cut have "redisReaderGetReply libc_env r = Flt NullDeref" by simp
  with fed show ?thesis by blast
qed

end
