(* ===== verification/Cb_Dump.thy ===== *)
theory Cb_Dump
  imports Cb_Queue
begin

text \<open>
  The printing functions of \<open>src/src/cb.c\<close>, \<open>dump_tree\<close> and \<open>dump_list\<close>. What they print is a list
  of lines, one constructor for each format; addresses are those of the model.
\<close>

section \<open>What is printed\<close>

datatype dump_line =
    DumpNode nat "bytes + int" "nat option" "nat option" "nat option"
  | DumpCallback int int int
  | DumpChannel "bytes + int" int
  | DumpCount int

fun tree_root :: "ctree \<Rightarrow> nat option" where
  "tree_root Tip = None"
| "tree_root (Branch a l r) = Some a"

fun dump_channels :: "world \<Rightarrow> nat option list \<Rightarrow> dump_line list cr" where
  "dump_channels w [] = Ok []"
| "dump_channels w (c # cs) =
     cbind (deref c) (\<lambda>a.
     cbind (load (w_chan w) a) (\<lambda>ch.
     cbind (dump_channels w cs) (\<lambda>ls.
     Ok (DumpChannel (case ch_name ch of Some n \<Rightarrow> Inl n | None \<Rightarrow> Inr (ch_ikey ch)) (ch_flags ch) # ls))))"

text \<open>Flags that were never set are printed as the allocator left them.\<close>

definition dump_callback :: "cenv \<Rightarrow> world \<Rightarrow> nat \<Rightarrow> dump_line list cr" where
  "dump_callback env w c =
     cbind (load (w_call w) c) (\<lambda>cb.
     cbind (if int (length (cb_channels cb)) < cb_nb_channel cb then Flt OutOfBounds
            else dump_channels w (take (nat (cb_nb_channel cb)) (cb_channels cb))) (\<lambda>ls.
     Ok (DumpCallback (cb_ref cb)
       (case cb_flags cb of None \<Rightarrow> c_int (junk_field env 4 4) | Some f \<Rightarrow> f) (cb_nb_channel cb) # ls)))"

fun dump_cells :: "nat \<Rightarrow> cenv \<Rightarrow> world \<Rightarrow> nat option \<Rightarrow> int \<Rightarrow> dump_line list cr" where
  "dump_cells n env w None nb = Ok [DumpCount nb]"
| "dump_cells 0 env w (Some p) nb = Flt Diverges"
| "dump_cells (Suc n) env w (Some p) nb =
     cbind (load (w_ll w) p) (\<lambda>l.
     cbind (dump_callback env w (ll_cb l)) (\<lambda>ls.
     cbind (s_int (nb + 1)) (\<lambda>nb.
     cbind (dump_cells n env w (ll_next l) nb) (\<lambda>ms. Ok (ls @ ms)))))"

definition dump_list :: "cenv \<Rightarrow> world \<Rightarrow> nat option \<Rightarrow> dump_line list cr" where
  "dump_list env w cb_list =
     (case cb_list of
        None \<Rightarrow> Ok []
      | Some e \<Rightarrow> cbind (load (w_ends w) e) (\<lambda>en. dump_cells (w_next w) env w (e_head en) 0))"

fun dump_tree :: "cenv \<Rightarrow> world \<Rightarrow> ctree \<Rightarrow> dump_line list cr" where
  "dump_tree env w Tip = Ok []"
| "dump_tree env w (Branch a l r) =
     cbind (dump_tree env w l) (\<lambda>ls.
     cbind (dump_tree env w r) (\<lambda>rs.
     cbind (load (w_node w) a) (\<lambda>nd.
     cbind (case n_key nd of Some k \<Rightarrow> Ok (Inl k) | None \<Rightarrow> cbind (never_written (n_ikey nd)) (\<lambda>i. Ok (Inr i))) (\<lambda>k.
     cbind (never_written (n_data nd)) (\<lambda>d.
     cbind (dump_list env w (n_cb_list nd)) (\<lambda>cs.
     Ok (ls @ rs @ DumpNode a k (tree_root l) (tree_root r) d # cs)))))))"

section \<open>A list of commands\<close>

lemma dump_cells_queue:
  assumes "chain (w_ll w) p (map cell_of xs)" and "\<forall>(x, c, r)\<in>set xs. w_call w c = Some (command_cb r)"
    and "length xs \<le> n" and "0 \<le> nb" and "nb + int (length xs) < 2 ^ 31"
  shows "dump_cells n env w p nb =
    Ok (map (\<lambda>(x, c, r). DumpCallback r (c_int (junk_field env 4 4)) 0) xs @ [DumpCount (nb + int (length xs))])"
  using assms
proof (induction xs arbitrary: n p nb)
  case Nil
  then show ?case by (cases n) auto
next
  case (Cons z xs)
  obtain x c r where z: "z = (x, c, r)" by (cases z)
  obtain m where n: "n = Suc m" using Cons.prems(3) by (cases n) auto
  obtain q where cell: "p = Some x" "w_ll w x = Some \<lparr>ll_cb = c, ll_next = q\<rparr>" and ch: "chain (w_ll w) q (map cell_of xs)"
    using Cons.prems(1) by (auto simp: z)
  have "dump_callback env w c = Ok [DumpCallback r (c_int (junk_field env 4 4)) 0]"
    using Cons.prems(2) by (simp add: z dump_callback_def command_cb_def)
  moreover have "s_int (nb + 1) = Ok (nb + 1)" using Cons.prems(4,5) by (simp add: s_int_ok)
  moreover have "dump_cells m env w q (nb + 1) =
    Ok (map (\<lambda>(x, c, r). DumpCallback r (c_int (junk_field env 4 4)) 0) xs @ [DumpCount (nb + 1 + int (length xs))])"
    using Cons.prems by (intro Cons.IH [OF ch]) (auto simp: n)
  ultimately show ?case using cell by (simp add: n z add.assoc)
qed

text \<open>
  \<open>dump_list\<close> shows the list of commands as it is: one line for each pending callback with its
  reference, in the order in which replies will reach them, then their number.
\<close>

theorem dump_list_shows_queue:
  assumes "cb_queue w e xs" and "length xs < 2 ^ 31"
  shows "dump_list env w (Some e) =
    Ok (map (\<lambda>(x, c, r). DumpCallback r (c_int (junk_field env 4 4)) 0) xs @ [DumpCount (int (length xs))])"
proof -
  obtain h where "w_ends w e = Some \<lparr>e_head = h, e_tail = (if xs = [] then None else Some (fst (last xs)))\<rparr>"
    and ch: "chain (w_ll w) h (map cell_of xs)" and "\<forall>(x, c, r)\<in>set xs. w_call w c = Some (command_cb r)"
    using assms(1) by (auto simp: cb_queue_def)
  with dump_cells_queue [OF ch, of "w_next w" 0 env] cb_queue_length [OF assms(1)] assms(2)
  show ?thesis by (simp add: dump_list_def)
qed

theorem dump_list_shows_queue_witness:
  "runs (append_callback libc_env queue_world (Some 0) 5) (\<lambda>w.
     dump_list libc_env w (Some 0) = Ok [DumpCallback 5 (c_int (junk_field libc_env 4 4)) 0, DumpCount 1])"
proof (rule runs_mono [OF append_callback_queue [OF queue_world_empty, of libc_env 5]])
  fix w
  assume "cb_queue w 0 ([] @ [(Suc (w_next queue_world), w_next queue_world, 5)]) \<and>
    w_call w = (w_call queue_world)(w_next queue_world \<mapsto> command_cb 5) \<and>
    dom (w_ll w) = insert (Suc (w_next queue_world)) (dom (w_ll queue_world)) \<and> same_rest queue_world w"
  then have "cb_queue w 0 [(Suc (w_next queue_world), w_next queue_world, 5)]" by simp
  from dump_list_shows_queue [OF this, of libc_env]
  show "dump_list libc_env w (Some 0) = Ok [DumpCallback 5 (c_int (junk_field libc_env 4 4)) 0, DumpCount 1]" by simp
qed (simp_all add: libc_env_def)

end
