(* ===== verification/Spec2Isabelle.thy ===== *)
theory Spec2Isabelle
  imports Sds_Correct Sds_Program Snail_Correct Snail_Calls Snail_Phases Snail_Faults Snail_Release Resp_Counts Cb_Dump
begin

text \<open>
  A verification library for crazy-snail, a Redis client for Luvit: a Lua module in C over
  libuv. This header says what is modelled, how, and what the lemmas show.

  \<^bold>\<open>The program.\<close> \<open>src/src/sds.c\<close> is the string library, \<open>src/src/hiredis-light.c\<close> the
  incremental parser of replies and the writer of commands, \<open>src/src/cb.c\<close> the callbacks, their
  linked lists and the search trees of subscriptions, and \<open>src/src/crazysnail.c\<close> the client itself:
  the methods Lua calls (\<open>new\<close>, \<open>on\<close>, \<open>connect\<close>, \<open>command\<close>, \<open>subscribe\<close>, \<open>disconnect\<close>, \<open>exit\<close>) and the
  handlers libuv calls (\<open>on_connect\<close>, \<open>on_write\<close>, \<open>on_read\<close>, \<open>on_timer\<close>, \<open>on_disconnect\<close>). A command is
  written by \<open>redisFormatCommandArgv\<close> and sent; its callback goes to the end of a list. A chunk
  that arrives is fed to the reader; each reply that is complete is turned into a Lua value and given to the
  first callback of the list (command stream) or to the subscribers of the name it carries
  (subscription stream). A client has two streams, one reader and one list of commands.

  \<^bold>\<open>How C is modelled\<close> (\<open>Snail_Prelude\<close>). A piece of C is a function into \<open>'a cr\<close>, a value or the
  fault that ends its defined behaviour: a null dereference, an access outside a block, a failed
  \<open>assert\<close>, signed overflow, the use of a released object, the read of what was never written, a
  failed Lua call, or a loop that does not end. \<open>runs m P\<close> says that \<open>m\<close> returns, without fault, a value with
  \<open>P\<close>, so every theorem in this form includes termination and memory safety. The allocator is the
  parameter \<open>cenv\<close>: which sizes it grants and what fresh memory holds (any bytes, the same for each block of
  \<open>malloc\<close>); \<open>grants_all\<close> is the hypothesis that it grants all. No property assumes anything of those
  bytes: the flags of a callback, which the code tests without having written them, are read from them, and
  \<open>dirty_flags\<close> tells which way that test goes. Machine integers are \<open>int\<close> with the conversions written out (\<open>c_int\<close>, \<open>c_size\<close>,
  \<open>s_int\<close> for signed results that must not overflow). Bytes are characters.

  \<^bold>\<open>Strings.\<close> \<open>Sds_Core\<close>, \<open>Sds_Text\<close>, \<open>Sds_Split\<close> and \<open>Sds_Repr\<close> model every operation of \<open>sds.c\<close> over the
  block of memory a string lives in. \<open>sds_rep\<close> is the abstraction: which bytes a string stands for.
  \<open>Sds_Correct\<close> holds the properties: each operation has its list-level meaning inside its block, or
  gives NULL where the allocator refuses; splitting and joining, and quoting and argument
  splitting, are inverse. \<open>Sds_Program\<close> puts the operations together: any sequence of them keeps a string
  well-formed and computes what it says, and the test program that \<open>sds.c\<close> carries passes.

  \<^bold>\<open>Replies and commands.\<close> \<open>Resp_Reader\<close> models the reader with its buffer, task stack and the store of
  reply objects; \<open>Resp_Protocol\<close> is the specification: replies as a datatype, their encoding, and a
  parser (\<open>prun\<close>, \<open>drain\<close>) without buffer, tasks and store; \<open>Resp_Store\<close> says how replies lie in the store;
  \<open>Resp_Refine\<close> shows that the code implements the parser, through the relation \<open>reader_state\<close>;
  \<open>Resp_Stream\<close> derives the properties of streams of chunks; \<open>Resp_Counts\<close> shows what element counts do
  that the parser leaves out; \<open>Resp_Command\<close> models and proves the writer.

  \<^bold>\<open>Callbacks.\<close> \<open>Cb_Store\<close> models \<open>cb.c\<close> over a store of channels, callbacks, cells, list ends and nodes by
  address. \<open>Cb_Queue\<close> states what the client wants of a list of callbacks as the interface \<open>fifo\<close> and
  interprets it on the linked list; \<open>Cb_Tree\<close> does the same for the two kinds of tree with the interface
  \<open>registry\<close>, and shows where the comparison of names by prefix breaks it. \<open>Cb_Release\<close> is about the count that
  a callback keeps of the cells it is in: \<open>counted\<close> holds of the store, releasing lists and trees keeps it and
  leaves nothing behind, and \<open>subs_over w0 w\<close> says that \<open>w\<close> is \<open>w0\<close> with subscriptions. \<open>Cb_Dump\<close> models what
  \<open>dump_tree\<close> and \<open>dump_list\<close> print.

  \<^bold>\<open>The client.\<close> \<open>Snail_Reply\<close>: replies as Lua values. \<open>Snail_State\<close>: the context, its flags, the free
  lists of requests and buffers, and the record \<open>host\<close>. \<open>Snail_Client\<close>: the methods. \<open>Snail_Events\<close>: the
  handlers. \<open>Snail_Stream\<close>: the loop of \<open>on_read\<close>, proved once in the locale \<open>reply_stream\<close> for whatever is
  done with a reply; \<open>Snail_Deliver\<close> interprets it for the callbacks of commands, \<open>Snail_Messages\<close> for
  messages and confirmations of subscriptions. \<open>Snail_Session\<close>: connecting, plain commands, and runs of
  commands and chunks against \<open>spec_run\<close>. \<open>Snail_Subscribe\<close>: the table of subscriptions that trees, lists
  and channels stand for (\<open>table_at\<close>), and how registering a name extends it; \<open>Snail_Pubsub\<close>: runs of
  subscriptions, commands and messages against the function \<open>pubsub\<close>. \<open>Snail_Calls\<close>: what arguments of
  \<open>subscribe\<close> and \<open>command\<close> become. \<open>Snail_Register\<close>: registering any names and intervals with one callback
  keeps \<open>subs_over\<close>, and \<open>release_callbacks\<close> undoes it; \<open>Snail_Release\<close>: with \<open>exit\<close> behind any number of
  subscriptions nothing stays of those that have a name or a new interval (\<open>all_placed\<close>), and what stays of one
  to a known interval. \<open>Snail_Lifecycle\<close>: writes that fail, disconnecting, \<open>exit\<close>, a connection
  closed by the server, and the use of a client after its end; \<open>Snail_Phases\<close>: the phases of a connection as the relation
  \<open>life\<close>, and the flags of each phase, through any work in between. \<open>Snail_Faults\<close>: replies nobody asked
  for, and monitor mode. \<open>Snail_Correct\<close> holds the properties of runs.

  \<^bold>\<open>The two parties outside.\<close> Lua and libuv are not part of the sources: the record \<open>host\<close> holds what libuv
  answers (\<open>hs_write\<close>, \<open>hs_read_start\<close>, the timer functions), the constants of their headers, and
  \<open>hs_lua ref args\<close>, what the Lua function under a reference does to the client when it is called. Calls
  of both are recorded in the trace of the store, so that a theorem can say which functions were
  called, with what and in which order, and what was written. The hypotheses on \<open>hs_lua\<close> are \<open>polite\<close>
  (a function may issue commands, whose callbacks go behind the others) and \<open>friendly\<close> (it leaves the
  subscriptions as they are); both are shown to hold for a host whose function issues a command.

  \<^bold>\<open>Bounds and fuel.\<close> The loops over lists of subscribers and over the replies of a chunk can be kept going by
  the Lua functions they call, so they carry the fuel \<open>hs_fuel\<close>, and running out of it is the fault
  \<open>Diverges\<close>. A chunk of \<open>n\<close> bytes holds at most \<open>n\<close> replies, and the theorems ask that the unread bytes
  are fewer than \<open>hs_fuel\<close> and that no list of subscribers is longer, so the fuel never decides. The walk
  over the cells of a list is bounded by the number of addresses ever used, which a list without
  cycle cannot exceed. Input that waits in the reader is below \<open>2 ^ 29\<close> bytes and strings below \<open>2 ^ 30\<close>, below
  which no \<open>int\<close> of the code wraps; beyond it the properties of errors show what happens.

  \<^bold>\<open>Not modelled.\<close> The Lua stack (arguments and results are values), the metatables and
  \<open>luaopen_crazysnail\<close>, which only registers functions; \<open>stackDump\<close>, which prints the Lua stack;
  \<open>vsnprintf\<close>, whose text is an argument. A string is a value, so
  \<open>sdsfree\<close> has no counterpart. When \<open>command\<close> is called without a word, the static argument vector still
  points to the words of an earlier call; the model has a null dereference there. The reader's function
  table is always the default one and is left out.
\<close>

end
